theory Spec2Isabelle
  imports Main "HOL-Library.Word"
begin

section \<open>SkDeque: a deque of raw fixed-size slots in a doubly linked chain of Blocks\<close>

text \<open>
  The development embeds \<^verbatim>\<open>src/core/SkDeque.cpp\<close>. Pointers are addresses of a flat
  address space, modelled as mathematical integers with \<open>0\<close> for \<^verbatim>\<open>NULL\<close>; the Block
  headers the code reads and writes through pointers live in an explicit store, a map from
  addresses to headers. Pointer arithmetic is integer arithmetic (C++ leaves a pointer that
  moves out of its object undefined, so no wrap-around is modelled for pointers). The
  \<^verbatim>\<open>size_t\<close> computation of a Block's byte size wraps modulo \<open>2 ^ 64\<close>, and that is written
  out. The signed counter \<^verbatim>\<open>fCount\<close> is an unbounded integer (signed overflow is undefined
  in C++).
\<close>

type_synonym addr = int

record Block =
  fNext :: addr
  fPrev :: addr
  fBegin :: addr
  fEnd :: addr
  fStop :: addr

type_synonym store = "addr \<rightharpoonup> Block"

text \<open>\<^verbatim>\<open>sizeof(Block)\<close>: five pointers of eight bytes each (LP64).\<close>

definition sizeof_Block :: int where
  "sizeof_Block = 40"

text \<open>\<^verbatim>\<open>size_t\<close> arithmetic is arithmetic modulo \<open>2 ^ 64\<close>.\<close>

definition size_t :: "int \<Rightarrow> int" where
  "size_t n = n mod 2 ^ 64"

text \<open>\<^verbatim>\<open>Block::start()\<close>: the address right after the header, \<^verbatim>\<open>(char*)(this + 1)\<close>.\<close>

definition start :: "addr \<Rightarrow> addr" where
  "start this = this + sizeof_Block"

text \<open>\<^verbatim>\<open>Block::init(size)\<close>: the header written at address \<open>this\<close>.\<close>

definition init :: "addr \<Rightarrow> int \<Rightarrow> Block" where
  "init this sz =
     \<lparr>fNext = 0, fPrev = 0, fBegin = 0, fEnd = 0, fStop = this + sz\<rparr>"

text \<open>
  The deque object, together with the part of memory its code touches: \<open>heap\<close> is the store
  of Block headers, \<open>freed\<close> the log of the addresses handed to \<^verbatim>\<open>sk_free\<close> (latest
  first).
\<close>

record SkDeque =
  fElemSize :: int
  fInitialStorage :: addr
  fCount :: int
  fAllocCount :: int
  fFront :: addr
  fBack :: addr
  heap :: store
  freed :: "addr list"

datatype error = NullDeref | BadDeref | AssertFailed | BadFree

definition bindE :: "error + 'a \<Rightarrow> ('a \<Rightarrow> error + 'b) \<Rightarrow> error + 'b" where
  "bindE m f = (case m of Inl e \<Rightarrow> Inl e | Inr x \<Rightarrow> f x)"

text \<open>
  Modelled from the spec: the macro \<^verbatim>\<open>SkASSERT\<close>, whose definition is not among the
  sources. A violated assertion is fatal in a debug build and has no effect otherwise; the
  build is the parameter \<open>dbg\<close>.
\<close>

definition SkASSERT :: "bool \<Rightarrow> bool \<Rightarrow> error + 'a \<Rightarrow> error + 'a" where
  "SkASSERT dbg cond k = (if dbg \<and> \<not> cond then Inl AssertFailed else k)"

text \<open>Reading through a pointer: \<^verbatim>\<open>NULL\<close> and addresses that hold no Block fail.\<close>

definition deref :: "store \<Rightarrow> addr \<Rightarrow> error + Block" where
  "deref h p =
     (if p = 0 then Inl NullDeref
      else case h p of None \<Rightarrow> Inl BadDeref | Some b \<Rightarrow> Inr b)"

text \<open>Writing a whole header back at an address already read through.\<close>

definition store :: "addr \<Rightarrow> Block \<Rightarrow> SkDeque \<Rightarrow> SkDeque" where
  "store p b d = d\<lparr>heap := (heap d)(p \<mapsto> b)\<rparr>"

text \<open>\<^verbatim>\<open>p->init(size)\<close> on memory that holds no header yet.\<close>

definition init_at :: "addr \<Rightarrow> int \<Rightarrow> SkDeque \<Rightarrow> error + SkDeque" where
  "init_at p sz d =
     (if p = 0 then Inl NullDeref else Inr (store p (init p sz) d))"

subsection \<open>Construction\<close>

definition SkDeque_new :: "bool \<Rightarrow> int \<Rightarrow> int \<Rightarrow> error + SkDeque" where
  "SkDeque_new dbg elemSize allocCount =
     SkASSERT dbg (allocCount \<ge> 1)
       (Inr \<lparr>fElemSize = elemSize, fInitialStorage = 0, fCount = 0,
             fAllocCount = allocCount, fFront = 0, fBack = 0,
             heap = Map.empty, freed = []\<rparr>)"

definition SkDeque_storage :: "bool \<Rightarrow> int \<Rightarrow> addr \<Rightarrow> int \<Rightarrow> int \<Rightarrow> error + SkDeque" where
  "SkDeque_storage dbg elemSize storage storageSize allocCount =
     SkASSERT dbg (storageSize = 0 \<or> storage \<noteq> 0)
      (SkASSERT dbg (allocCount \<ge> 1)
        (let d = \<lparr>fElemSize = elemSize, fInitialStorage = storage, fCount = 0,
                  fAllocCount = allocCount, fFront = 0, fBack = 0,
                  heap = Map.empty, freed = []\<rparr>
         in bindE (if storageSize \<ge> size_t (sizeof_Block + elemSize)
                   then init_at storage storageSize (d\<lparr>fFront := storage\<rparr>)
                   else Inr (d\<lparr>fFront := 0\<rparr>))
              (\<lambda>d. Inr (d\<lparr>fBack := fFront d\<rparr>))))"

subsection \<open>The allocator\<close>

text \<open>
  Modelled from the spec: \<^verbatim>\<open>sk_malloc_throw\<close> and \<^verbatim>\<open>sk_free\<close>, the raw allocator the
  deque consumes, are not among the sources. The address \<^verbatim>\<open>sk_malloc_throw\<close> returns is the
  parameter \<open>a\<close> of the operations that may allocate; \<^verbatim>\<open>sk_free\<close> takes the header out of
  the store and logs the address.
\<close>

text \<open>The byte size \<^verbatim>\<open>sizeof(Block) + allocCount * fElemSize\<close>, computed in \<^verbatim>\<open>size_t\<close>.\<close>

definition block_bytes :: "int \<Rightarrow> int \<Rightarrow> int" where
  "block_bytes allocCount elemSize = size_t (sizeof_Block + size_t allocCount * elemSize)"

definition allocateBlock :: "addr \<Rightarrow> int \<Rightarrow> SkDeque \<Rightarrow> error + SkDeque" where
  "allocateBlock a allocCount d = init_at a (block_bytes allocCount (fElemSize d)) d"

definition freeBlock :: "addr \<Rightarrow> SkDeque \<Rightarrow> SkDeque" where
  "freeBlock block d = d\<lparr>heap := (heap d)(block := None), freed := block # freed d\<rparr>"

subsection \<open>front and back\<close>

definition front :: "bool \<Rightarrow> SkDeque \<Rightarrow> error + addr" where
  "front dbg d =
     (let front = fFront d in
      if front = 0 then Inr 0
      else bindE (deref (heap d) front) (\<lambda>fb.
        if fBegin fb = 0 then
          (let front = fNext fb in
           if front = 0 then Inr 0
           else bindE (deref (heap d) front) (\<lambda>fb.
             SkASSERT dbg (fBegin fb \<noteq> 0) (Inr (fBegin fb))))
        else SkASSERT dbg (fBegin fb \<noteq> 0) (Inr (fBegin fb))))"

definition SkDeque_back :: "bool \<Rightarrow> SkDeque \<Rightarrow> error + addr" where
  "SkDeque_back dbg d =
     (let back = fBack d in
      if back = 0 then Inr 0
      else bindE (deref (heap d) back) (\<lambda>bb.
        if fEnd bb = 0 then
          (let back = fPrev bb in
           if back = 0 then Inr 0
           else bindE (deref (heap d) back) (\<lambda>bb.
             SkASSERT dbg (fEnd bb \<noteq> 0) (Inr (fEnd bb - fElemSize d))))
        else SkASSERT dbg (fEnd bb \<noteq> 0) (Inr (fEnd bb - fElemSize d))))"

subsection \<open>push\<close>

text \<open>The code from the label \<^verbatim>\<open>INIT_CHUNK\<close> of \<^verbatim>\<open>push_front\<close> to its return.\<close>

definition push_front_INIT_CHUNK :: "addr \<Rightarrow> SkDeque \<Rightarrow> error + addr \<times> SkDeque" where
  "push_front_INIT_CHUNK first d =
     bindE (deref (heap d) first) (\<lambda>b.
       let b = b\<lparr>fEnd := fStop b\<rparr>;
           begin = fStop b - fElemSize d
       in Inr (begin, store first (b\<lparr>fBegin := begin\<rparr>) d))"

definition push_front :: "addr \<Rightarrow> SkDeque \<Rightarrow> error + addr \<times> SkDeque" where
  "push_front a d =
     (let d = d\<lparr>fCount := fCount d + 1\<rparr> in
      bindE (if fFront d = 0
             then bindE (allocateBlock a (fAllocCount d) d)
                    (\<lambda>d. Inr (d\<lparr>fFront := a, fBack := a\<rparr>))
             else Inr d) (\<lambda>d.
      let first = fFront d in
      bindE (deref (heap d) first) (\<lambda>fb.
        if fBegin fb = 0 then push_front_INIT_CHUNK first d
        else
          let begin = fBegin fb - fElemSize d in
          if begin < start first then
            bindE (allocateBlock a (fAllocCount d) d) (\<lambda>d.
            bindE (deref (heap d) a) (\<lambda>nb.
            let d = store a (nb\<lparr>fNext := fFront d\<rparr>) d in
            bindE (deref (heap d) (fFront d)) (\<lambda>ob.
            let d = store (fFront d) (ob\<lparr>fPrev := a\<rparr>) d;
                d = d\<lparr>fFront := a\<rparr>
            in push_front_INIT_CHUNK a d)))
          else Inr (begin, store first (fb\<lparr>fBegin := begin\<rparr>) d))))"

text \<open>The code from the label \<^verbatim>\<open>INIT_CHUNK\<close> of \<^verbatim>\<open>push_back\<close> to its return.\<close>

definition push_back_INIT_CHUNK :: "addr \<Rightarrow> SkDeque \<Rightarrow> error + addr \<times> SkDeque" where
  "push_back_INIT_CHUNK lastB d =
     bindE (deref (heap d) lastB) (\<lambda>b.
       let b = b\<lparr>fBegin := start lastB\<rparr>;
           end = fBegin b + fElemSize d
       in Inr (end - fElemSize d, store lastB (b\<lparr>fEnd := end\<rparr>) d))"

definition push_back :: "addr \<Rightarrow> SkDeque \<Rightarrow> error + addr \<times> SkDeque" where
  "push_back a d =
     (let d = d\<lparr>fCount := fCount d + 1\<rparr> in
      bindE (if fBack d = 0
             then bindE (allocateBlock a (fAllocCount d) d)
                    (\<lambda>d. Inr (d\<lparr>fBack := a, fFront := a\<rparr>))
             else Inr d) (\<lambda>d.
      let lastB = fBack d in
      bindE (deref (heap d) lastB) (\<lambda>lb.
        if fBegin lb = 0 then push_back_INIT_CHUNK lastB d
        else
          let end = fEnd lb + fElemSize d in
          if end > fStop lb then
            bindE (allocateBlock a (fAllocCount d) d) (\<lambda>d.
            bindE (deref (heap d) a) (\<lambda>nb.
            let d = store a (nb\<lparr>fPrev := fBack d\<rparr>) d in
            bindE (deref (heap d) (fBack d)) (\<lambda>ob.
            let d = store (fBack d) (ob\<lparr>fNext := a\<rparr>) d;
                d = d\<lparr>fBack := a\<rparr>
            in push_back_INIT_CHUNK a d)))
          else Inr (end - fElemSize d, store lastB (lb\<lparr>fEnd := end\<rparr>) d))))"

subsection \<open>pop\<close>

definition pop_front :: "bool \<Rightarrow> SkDeque \<Rightarrow> error + SkDeque" where
  "pop_front dbg d =
     SkASSERT dbg (fCount d > 0)
      (let d = d\<lparr>fCount := fCount d - 1\<rparr>;
           first = fFront d
       in SkASSERT dbg (first \<noteq> 0)
        (bindE (deref (heap d) first) (\<lambda>fb.
         bindE (if fBegin fb = 0 then
                  (let first = fNext fb in
                   bindE (deref (heap d) first) (\<lambda>nb.
                   let d = store first (nb\<lparr>fPrev := 0\<rparr>) d;
                       d = freeBlock (fFront d) d;
                       d = d\<lparr>fFront := first\<rparr>
                   in SkASSERT dbg (first \<noteq> 0) (Inr (first, d))))
                else Inr (first, d)) (\<lambda>(first, d).
         bindE (deref (heap d) first) (\<lambda>fb.
         let begin = fBegin fb + fElemSize d in
         SkASSERT dbg (begin \<le> fEnd fb)
          (bindE (deref (heap d) (fFront d)) (\<lambda>ffb.
           if begin < fEnd ffb
           then Inr (store first (fb\<lparr>fBegin := begin\<rparr>) d)
           else Inr (store first (fb\<lparr>fBegin := 0, fEnd := 0\<rparr>) d))))))))"

definition pop_back :: "bool \<Rightarrow> SkDeque \<Rightarrow> error + SkDeque" where
  "pop_back dbg d =
     SkASSERT dbg (fCount d > 0)
      (let d = d\<lparr>fCount := fCount d - 1\<rparr>;
           lastB = fBack d
       in SkASSERT dbg (lastB \<noteq> 0)
        (bindE (deref (heap d) lastB) (\<lambda>lb.
         bindE (if fEnd lb = 0 then
                  (let lastB = fPrev lb in
                   bindE (deref (heap d) lastB) (\<lambda>pb.
                   let d = store lastB (pb\<lparr>fNext := 0\<rparr>) d;
                       d = freeBlock (fBack d) d;
                       d = d\<lparr>fBack := lastB\<rparr>
                   in SkASSERT dbg (lastB \<noteq> 0) (Inr (lastB, d))))
                else Inr (lastB, d)) (\<lambda>(lastB, d).
         bindE (deref (heap d) lastB) (\<lambda>lb.
         let end = fEnd lb - fElemSize d in
         SkASSERT dbg (end \<ge> fBegin lb)
          (if end > fBegin lb
           then Inr (store lastB (lb\<lparr>fEnd := end\<rparr>) d)
           else Inr (store lastB (lb\<lparr>fBegin := 0, fEnd := 0\<rparr>) d)))))))"

subsection \<open>numBlocksAllocated\<close>

text \<open>
  The scanning loops follow pointers through the store and need not end in an arbitrary
  store; \<open>None\<close> is the loop that never returns.
\<close>

partial_function (option) numBlocks_loop :: "store \<Rightarrow> addr \<Rightarrow> int \<Rightarrow> (error + int) option" where
  "numBlocks_loop h temp numBlocks =
     (if temp \<noteq> 0 then
        (case deref h temp of
           Inl e \<Rightarrow> Some (Inl e)
         | Inr b \<Rightarrow> numBlocks_loop h (fNext b) (numBlocks + 1))
      else Some (Inr numBlocks))"

declare numBlocks_loop.simps [code]

definition numBlocksAllocated :: "SkDeque \<Rightarrow> (error + int) option" where
  "numBlocksAllocated d = numBlocks_loop (heap d) (fFront d) 0"

subsection \<open>The iterator\<close>

datatype IterStart = kFront_IterStart | kBack_IterStart

record Iter =
  fCurBlock :: addr
  fPos :: addr
  Iter_fElemSize :: int

definition bindO :: "(error + 'a) option \<Rightarrow> ('a \<Rightarrow> (error + 'b) option) \<Rightarrow> (error + 'b) option" where
  "bindO m f = (case m of None \<Rightarrow> None | Some (Inl e) \<Rightarrow> Some (Inl e) | Some (Inr x) \<Rightarrow> f x)"

text \<open>The default constructor \<^verbatim>\<open>Iter()\<close>.\<close>

definition Iter_new :: Iter where
  "Iter_new = \<lparr>fCurBlock = 0, fPos = 0, Iter_fElemSize = 0\<rparr>"

text \<open>
  \<^verbatim>\<open>while (NULL != fCurBlock && NULL == fCurBlock->fBegin) fCurBlock = fCurBlock->fNext;\<close>
  is the loop of \<^verbatim>\<open>reset\<close> at the front. The loop of \<^verbatim>\<open>next\<close>,
  \<^verbatim>\<open>do { fCurBlock = fCurBlock->fNext; } while (fCurBlock != NULL && fCurBlock->fBegin == NULL);\<close>
  is its body once and then the same loop. The loops of \<^verbatim>\<open>reset\<close> at the back and of
  \<^verbatim>\<open>prev\<close> are the mirror images on \<^verbatim>\<open>fEnd\<close> and \<^verbatim>\<open>fPrev\<close>.
\<close>

partial_function (option) skip_next :: "store \<Rightarrow> addr \<Rightarrow> (error + addr) option" where
  "skip_next h cur =
     (if cur \<noteq> 0 then
        (case deref h cur of
           Inl e \<Rightarrow> Some (Inl e)
         | Inr b \<Rightarrow> if fBegin b = 0 then skip_next h (fNext b) else Some (Inr cur))
      else Some (Inr cur))"

partial_function (option) skip_prev :: "store \<Rightarrow> addr \<Rightarrow> (error + addr) option" where
  "skip_prev h cur =
     (if cur \<noteq> 0 then
        (case deref h cur of
           Inl e \<Rightarrow> Some (Inl e)
         | Inr b \<Rightarrow> if fEnd b = 0 then skip_prev h (fPrev b) else Some (Inr cur))
      else Some (Inr cur))"

declare skip_next.simps [code] skip_prev.simps [code]

definition Iter_next :: "bool \<Rightarrow> store \<Rightarrow> Iter \<Rightarrow> (error + addr \<times> Iter) option" where
  "Iter_next dbg h it =
     (let pos = fPos it in
      if pos \<noteq> 0 then
        (let next = pos + Iter_fElemSize it in
         bindO (Some (deref h (fCurBlock it))) (\<lambda>cb.
         bindO (Some (SkASSERT dbg (next \<le> fEnd cb) (Inr ()))) (\<lambda>_.
         if next = fEnd cb then
           bindO (skip_next h (fNext cb)) (\<lambda>cur.
           bindO (Some (if cur \<noteq> 0 then bindE (deref h cur) (\<lambda>b. Inr (fBegin b))
                        else Inr 0)) (\<lambda>next.
           Some (Inr (pos, it\<lparr>fCurBlock := cur, fPos := next\<rparr>))))
         else Some (Inr (pos, it\<lparr>fPos := next\<rparr>)))))
      else Some (Inr (pos, it)))"

definition Iter_prev :: "bool \<Rightarrow> store \<Rightarrow> Iter \<Rightarrow> (error + addr \<times> Iter) option" where
  "Iter_prev dbg h it =
     (let pos = fPos it in
      if pos \<noteq> 0 then
        (let prev = pos - Iter_fElemSize it in
         bindO (Some (deref h (fCurBlock it))) (\<lambda>cb.
         bindO (Some (SkASSERT dbg (prev \<ge> fBegin cb - Iter_fElemSize it) (Inr ()))) (\<lambda>_.
         if prev < fBegin cb then
           bindO (skip_prev h (fPrev cb)) (\<lambda>cur.
           bindO (Some (if cur \<noteq> 0
                        then bindE (deref h cur) (\<lambda>b. Inr (fEnd b - Iter_fElemSize it))
                        else Inr 0)) (\<lambda>prev.
           Some (Inr (pos, it\<lparr>fCurBlock := cur, fPos := prev\<rparr>))))
         else Some (Inr (pos, it\<lparr>fPos := prev\<rparr>)))))
      else Some (Inr (pos, it)))"

definition Iter_reset :: "SkDeque \<Rightarrow> IterStart \<Rightarrow> Iter \<Rightarrow> (error + Iter) option" where
  "Iter_reset d startLoc it =
     (let it = it\<lparr>Iter_fElemSize := fElemSize d\<rparr> in
      if startLoc = kFront_IterStart then
        bindO (skip_next (heap d) (fFront d)) (\<lambda>cur.
        bindO (Some (if cur \<noteq> 0 then bindE (deref (heap d) cur) (\<lambda>b. Inr (fBegin b))
                     else Inr 0)) (\<lambda>pos.
        Some (Inr (it\<lparr>fCurBlock := cur, fPos := pos\<rparr>))))
      else
        bindO (skip_prev (heap d) (fBack d)) (\<lambda>cur.
        bindO (Some (if cur \<noteq> 0
                     then bindE (deref (heap d) cur) (\<lambda>b. Inr (fEnd b - Iter_fElemSize it))
                     else Inr 0)) (\<lambda>pos.
        Some (Inr (it\<lparr>fCurBlock := cur, fPos := pos\<rparr>)))))"

section \<open>Runs of the deque\<close>

text \<open>
  The allocator's contract: the address it returns is a real address, holds no live Block,
  and the bytes of the new Block overlap no live Block.
\<close>

definition alloc_ok :: "SkDeque \<Rightarrow> addr \<Rightarrow> bool" where
  "alloc_ok d a \<longleftrightarrow>
     0 < a \<and> heap d a = None \<and>
     (\<forall>b blk. heap d b = Some blk \<longrightarrow>
        a + block_bytes (fAllocCount d) (fElemSize d) \<le> b \<or> fStop blk \<le> a)"

text \<open>
  The states a deque reaches from either constructor by pushes, whose allocations keep the
  allocator's contract, and by pops called with \<open>fCount > 0\<close>. The list is the history's
  view of the contents: the slots the pushes returned and no pop has removed yet, front to
  back.
\<close>

inductive reach :: "bool \<Rightarrow> SkDeque \<Rightarrow> addr list \<Rightarrow> bool" for dbg :: bool where
  new: "SkDeque_new dbg elemSize allocCount = Inr d \<Longrightarrow> reach dbg d []"
| storage: "0 \<le> storage \<Longrightarrow>
     SkDeque_storage dbg elemSize storage storageSize allocCount = Inr d \<Longrightarrow> reach dbg d []"
| push_front: "reach dbg d xs \<Longrightarrow> alloc_ok d a \<Longrightarrow> push_front a d = Inr (p, d') \<Longrightarrow>
     reach dbg d' (p # xs)"
| push_back: "reach dbg d xs \<Longrightarrow> alloc_ok d a \<Longrightarrow> push_back a d = Inr (p, d') \<Longrightarrow>
     reach dbg d' (xs @ [p])"
| pop_front: "reach dbg d xs \<Longrightarrow> 0 < fCount d \<Longrightarrow> pop_front dbg d = Inr d' \<Longrightarrow>
     reach dbg d' (tl xs)"
| pop_back: "reach dbg d xs \<Longrightarrow> 0 < fCount d \<Longrightarrow> pop_back dbg d = Inr d' \<Longrightarrow>
     reach dbg d' (butlast xs)"

text \<open>The same runs as a program over a list of calls, for concrete scenarios.\<close>

datatype op = PushFront addr | PushBack addr | PopFront | PopBack

fun step :: "bool \<Rightarrow> op \<Rightarrow> SkDeque \<times> addr list \<Rightarrow> error + SkDeque \<times> addr list" where
  "step dbg (PushFront a) (d, xs) = bindE (push_front a d) (\<lambda>(p, d'). Inr (d', p # xs))"
| "step dbg (PushBack a) (d, xs) = bindE (push_back a d) (\<lambda>(p, d'). Inr (d', xs @ [p]))"
| "step dbg PopFront (d, xs) = bindE (pop_front dbg d) (\<lambda>d'. Inr (d', tl xs))"
| "step dbg PopBack (d, xs) = bindE (pop_back dbg d) (\<lambda>d'. Inr (d', butlast xs))"

fun op_ok :: "op \<Rightarrow> SkDeque \<Rightarrow> bool" where
  "op_ok (PushFront a) d = alloc_ok d a"
| "op_ok (PushBack a) d = alloc_ok d a"
| "op_ok PopFront d = (0 < fCount d)"
| "op_ok PopBack d = (0 < fCount d)"

fun run :: "bool \<Rightarrow> op list \<Rightarrow> SkDeque \<times> addr list \<Rightarrow> error + SkDeque \<times> addr list" where
  "run dbg [] s = Inr s"
| "run dbg (x # xs) s = bindE (step dbg x s) (run dbg xs)"

fun ops_ok :: "bool \<Rightarrow> op list \<Rightarrow> SkDeque \<times> addr list \<Rightarrow> bool" where
  "ops_ok dbg [] s = True"
| "ops_ok dbg (x # xs) s =
     (op_ok x (fst s) \<and> (case step dbg x s of Inl e \<Rightarrow> True | Inr s' \<Rightarrow> ops_ok dbg xs s'))"

section \<open>Invariants\<close>

text \<open>Configurations: what the constructor's caller owes.\<close>

definition sizes_fit :: "SkDeque \<Rightarrow> bool" where
  "sizes_fit d \<longleftrightarrow>
     0 \<le> fElemSize d \<and> 1 \<le> fAllocCount d \<and>
     sizeof_Block + fAllocCount d * fElemSize d < 2 ^ 64"

definition valid_config :: "SkDeque \<Rightarrow> bool" where
  "valid_config d \<longleftrightarrow> 1 \<le> fElemSize d \<and> sizes_fit d"

text \<open>The chain as a list of Block addresses from the head to the tail.\<close>

definition hd0 :: "addr list \<Rightarrow> addr" where
  "hd0 bs = (case bs of [] \<Rightarrow> 0 | b # _ \<Rightarrow> b)"

definition last0 :: "addr list \<Rightarrow> addr" where
  "last0 bs = (if bs = [] then 0 else last bs)"

fun dlseg :: "store \<Rightarrow> addr \<Rightarrow> addr list \<Rightarrow> addr \<Rightarrow> bool" where
  "dlseg h p [] n = True"
| "dlseg h p (a # as) n =
     (case h a of
        None \<Rightarrow> False
      | Some b \<Rightarrow> fPrev b = p \<and> fNext b = (case as of [] \<Rightarrow> n | c # _ \<Rightarrow> c) \<and> dlseg h a as n)"

definition chain_inv :: "SkDeque \<Rightarrow> addr list \<Rightarrow> bool" where
  "chain_inv d bs \<longleftrightarrow>
     distinct bs \<and> 0 \<notin> set bs \<and> dom (heap d) = set bs \<and> dlseg (heap d) 0 bs 0 \<and>
     fFront d = hd0 bs \<and> fBack d = last0 bs"

text \<open>The occupancy of one Block at address \<open>a\<close>, for element size \<open>e\<close>.\<close>

definition block_ok :: "int \<Rightarrow> addr \<Rightarrow> Block \<Rightarrow> bool" where
  "block_ok e a b \<longleftrightarrow>
     0 < a \<and> start a + e \<le> fStop b \<and>
     (fBegin b = 0 \<longleftrightarrow> fEnd b = 0) \<and>
     (fBegin b \<noteq> 0 \<longrightarrow>
        start a \<le> fBegin b \<and> fBegin b \<le> fEnd b \<and> fEnd b \<le> fStop b \<and>
        e dvd (fEnd b - fBegin b) \<and> (0 < e \<longrightarrow> fBegin b < fEnd b))"

definition blocks_ok :: "SkDeque \<Rightarrow> bool" where
  "blocks_ok d \<longleftrightarrow> (\<forall>a b. heap d a = Some b \<longrightarrow> block_ok (fElemSize d) a b)"

text \<open>Live Blocks do not overlap.\<close>

definition blocks_apart :: "SkDeque \<Rightarrow> bool" where
  "blocks_apart d \<longleftrightarrow>
     (\<forall>a b x y. heap d a = Some x \<longrightarrow> heap d b = Some y \<longrightarrow> a \<noteq> b \<longrightarrow>
        fStop x \<le> b \<or> fStop y \<le> a)"

text \<open>The slots a Block holds, lowest address first, and the slots of a chain.\<close>

definition slots :: "int \<Rightarrow> Block \<Rightarrow> addr list" where
  "slots e b =
     (if fBegin b = 0 then []
      else map (\<lambda>k. fBegin b + int k * e) [0 ..< nat ((fEnd b - fBegin b) div e)])"

definition block_slots :: "SkDeque \<Rightarrow> addr \<Rightarrow> addr list" where
  "block_slots d a = (case heap d a of None \<Rightarrow> [] | Some b \<Rightarrow> slots (fElemSize d) b)"

definition chain_slots :: "SkDeque \<Rightarrow> addr list \<Rightarrow> addr list" where
  "chain_slots d bs = concat (map (block_slots d) bs)"

text \<open>Only the first and the last Block of the chain may be marked empty.\<close>

definition inner_full :: "SkDeque \<Rightarrow> addr list \<Rightarrow> bool" where
  "inner_full d bs \<longleftrightarrow> (\<forall>a \<in> set (butlast (tl bs)). block_slots d a \<noteq> [])"

definition deque_inv :: "SkDeque \<Rightarrow> addr list \<Rightarrow> addr list \<Rightarrow> bool" where
  "deque_inv d bs xs \<longleftrightarrow>
     valid_config d \<and> chain_inv d bs \<and> blocks_ok d \<and> blocks_apart d \<and> inner_full d bs \<and>
     chain_slots d bs = xs \<and> fCount d = int (length xs)"

section \<open>Iterator scenarios\<close>

datatype iter_call = Next | Prev

text \<open>A sequence of \<^verbatim>\<open>next()\<close> and \<^verbatim>\<open>prev()\<close> calls, with the pointers they return.\<close>

fun iter_calls :: "bool \<Rightarrow> store \<Rightarrow> iter_call list \<Rightarrow> Iter \<Rightarrow> (error + addr list \<times> Iter) option" where
  "iter_calls dbg h [] it = Some (Inr ([], it))"
| "iter_calls dbg h (c # cs) it =
     bindO (case c of Next \<Rightarrow> Iter_next dbg h it | Prev \<Rightarrow> Iter_prev dbg h it) (\<lambda>(p, it).
     bindO (iter_calls dbg h cs it) (\<lambda>(ps, it). Some (Inr (p # ps, it))))"

section \<open>Concrete states\<close>

text \<open>
  \<^verbatim>\<open>SkDeque(4, 1)\<close> after \<^verbatim>\<open>push_back, push_back, pop_front, pop_back\<close>, the allocator
  having returned 1000 and 2000: two Blocks, both marked empty.
\<close>

definition two_empty :: SkDeque where
  "two_empty = \<lparr>fElemSize = 4, fInitialStorage = 0, fCount = 0, fAllocCount = 1,
     fFront = 1000, fBack = 2000,
     heap = [1000 \<mapsto> \<lparr>fNext = 2000, fPrev = 0, fBegin = 0, fEnd = 0, fStop = 1044\<rparr>,
             2000 \<mapsto> \<lparr>fNext = 0, fPrev = 1000, fBegin = 0, fEnd = 0, fStop = 2044\<rparr>],
     freed = []\<rparr>"

text \<open>
  \<^verbatim>\<open>SkDeque(4, storage, 44, 1)\<close> with 44 bytes of inline storage at 500 (room for one
  element) after \<^verbatim>\<open>push_back, push_back, pop_front, pop_front\<close>, the allocator having
  returned 1000.
\<close>

definition inline_popped :: SkDeque where
  "inline_popped = \<lparr>fElemSize = 4, fInitialStorage = 500, fCount = 0, fAllocCount = 1,
     fFront = 1000, fBack = 1000,
     heap = [1000 \<mapsto> \<lparr>fNext = 0, fPrev = 0, fBegin = 0, fEnd = 0, fStop = 1044\<rparr>],
     freed = [500]\<rparr>"

text \<open>\<^verbatim>\<open>SkDeque(4, 1)\<close> after one \<^verbatim>\<open>push_back\<close>, the allocator having returned 1000.\<close>

definition one_elem :: SkDeque where
  "one_elem = \<lparr>fElemSize = 4, fInitialStorage = 0, fCount = 1, fAllocCount = 1,
     fFront = 1000, fBack = 1000,
     heap = [1000 \<mapsto> \<lparr>fNext = 0, fPrev = 0, fBegin = 1040, fEnd = 1044, fStop = 1044\<rparr>],
     freed = []\<rparr>"

text \<open>
  \<^verbatim>\<open>SkDeque(0, 1)\<close>, elements of size zero, after two \<^verbatim>\<open>push_back\<close>, and after a
  \<^verbatim>\<open>pop_front\<close> more; the allocator returned 1000.
\<close>

definition zero_two :: SkDeque where
  "zero_two = \<lparr>fElemSize = 0, fInitialStorage = 0, fCount = 2, fAllocCount = 1,
     fFront = 1000, fBack = 1000,
     heap = [1000 \<mapsto> \<lparr>fNext = 0, fPrev = 0, fBegin = 1040, fEnd = 1040, fStop = 1040\<rparr>],
     freed = []\<rparr>"

definition zero_one :: SkDeque where
  "zero_one = \<lparr>fElemSize = 0, fInitialStorage = 0, fCount = 1, fAllocCount = 1,
     fFront = 1000, fBack = 1000,
     heap = [1000 \<mapsto> \<lparr>fNext = 0, fPrev = 0, fBegin = 0, fEnd = 0, fStop = 1040\<rparr>],
     freed = []\<rparr>"

text \<open>
  \<^verbatim>\<open>SkDeque(4, 1)\<close> after three \<^verbatim>\<open>push_back\<close> and one \<^verbatim>\<open>pop_front\<close>, the allocator
  having returned 1000, 2000 and 3000; and after one \<^verbatim>\<open>pop_front\<close> more.
\<close>

definition three_popped :: SkDeque where
  "three_popped = \<lparr>fElemSize = 4, fInitialStorage = 0, fCount = 2, fAllocCount = 1,
     fFront = 1000, fBack = 3000,
     heap = [1000 \<mapsto> \<lparr>fNext = 2000, fPrev = 0, fBegin = 0, fEnd = 0, fStop = 1044\<rparr>,
             2000 \<mapsto> \<lparr>fNext = 3000, fPrev = 1000, fBegin = 2040, fEnd = 2044, fStop = 2044\<rparr>,
             3000 \<mapsto> \<lparr>fNext = 0, fPrev = 2000, fBegin = 3040, fEnd = 3044, fStop = 3044\<rparr>],
     freed = []\<rparr>"

definition three_popped_twice :: SkDeque where
  "three_popped_twice = \<lparr>fElemSize = 4, fInitialStorage = 0, fCount = 1, fAllocCount = 1,
     fFront = 2000, fBack = 3000,
     heap = [2000 \<mapsto> \<lparr>fNext = 3000, fPrev = 0, fBegin = 0, fEnd = 0, fStop = 2044\<rparr>,
             3000 \<mapsto> \<lparr>fNext = 0, fPrev = 2000, fBegin = 3040, fEnd = 3044, fStop = 3044\<rparr>],
     freed = [1000]\<rparr>"

section \<open>Views of the chain for the iterator\<close>

text \<open>A Block is marked empty when its \<^verbatim>\<open>fBegin\<close> is null.\<close>

definition marked_empty :: "store \<Rightarrow> addr \<Rightarrow> bool" where
  "marked_empty h a = (case h a of None \<Rightarrow> True | Some b \<Rightarrow> fBegin b = 0)"

text \<open>
  An iterator stands at the front of a list of Blocks when it is exhausted and all of them
  are marked empty, or when it is on the first slot of the first Block that is not; and at
  the back likewise, on the last slot of the last such Block.
\<close>

definition at_front :: "store \<Rightarrow> addr list \<Rightarrow> Iter \<Rightarrow> bool" where
  "at_front h cs it =
     (case dropWhile (marked_empty h) cs of
        [] \<Rightarrow> fPos it = 0
      | c # _ \<Rightarrow> fCurBlock it = c \<and> (case h c of None \<Rightarrow> False | Some b \<Rightarrow> fPos it = fBegin b))"

definition at_back :: "store \<Rightarrow> addr list \<Rightarrow> Iter \<Rightarrow> bool" where
  "at_back h cs it =
     (case dropWhile (marked_empty h) (rev cs) of
        [] \<Rightarrow> fPos it = 0
      | c # _ \<Rightarrow> fCurBlock it = c \<and>
          (case h c of None \<Rightarrow> False | Some b \<Rightarrow> fPos it = fEnd b - Iter_fElemSize it))"

section \<open>The ranges of the machine\<close>

text \<open>
  Addresses, sizes and the count are mathematical integers in the operations above; the
  byte size of a Block is computed modulo \<open>2 ^ 64\<close> there, nothing else is. The code
  computes with 64-bit pointers and \<^verbatim>\<open>size_t\<close>, and counts with a 32-bit \<^verbatim>\<open>int\<close>. For a
  configuration whose sizes fit, in the states reached by calls that keep the precondition of
  the pops, the values of the code leave these ranges at: \<^verbatim>\<open>fCount += 1\<close>, when the count is
  \<^verbatim>\<open>INT_MAX\<close>; \<^verbatim>\<open>fBegin - fElemSize\<close> in \<^verbatim>\<open>push_front\<close> and \<^verbatim>\<open>Iter::prev\<close>, when a Block
  lies lower than one element size; \<^verbatim>\<open>fEnd + fElemSize\<close> in \<^verbatim>\<open>push_back\<close>, when a Block ends
  less than one element size below the top of the address space; \<^verbatim>\<open>++numBlocks\<close>, from
  \<open>2 ^ 31\<close> Blocks on; and \<^verbatim>\<open>fEnd - fElemSize\<close> in \<^verbatim>\<open>back()\<close>, on a Block marked empty. The
  predicates of this section describe the runs in which the first three do not happen; the
  section after it gives the code in the arithmetic of the machine.
\<close>

definition INT_MAX :: int where
  "INT_MAX = 2 ^ 31 - 1"

text \<open>
  A Block at address \<open>a\<close> that ends at \<open>stop\<close> lies within the range for elements of size
  \<open>e\<close>: one element below its first slot and one element beyond its end are addresses.
\<close>

definition extent_in_range :: "int \<Rightarrow> addr \<Rightarrow> addr \<Rightarrow> bool" where
  "extent_in_range e a stop \<longleftrightarrow> e \<le> start a \<and> stop + e < 2 ^ 64"

definition alloc_in_range :: "SkDeque \<Rightarrow> addr \<Rightarrow> bool" where
  "alloc_in_range d a \<longleftrightarrow>
     extent_in_range (fElemSize d) a (a + block_bytes (fAllocCount d) (fElemSize d))"

definition in_range :: "SkDeque \<Rightarrow> bool" where
  "in_range d \<longleftrightarrow>
     0 \<le> fCount d \<and> fCount d \<le> INT_MAX \<and>
     (\<forall>a b. heap d a = Some b \<longrightarrow> extent_in_range (fElemSize d) a (fStop b))"

text \<open>
  The pops pass the Block they release to \<^verbatim>\<open>sk_free\<close> without the comparison with
  \<^verbatim>\<open>fInitialStorage\<close> that the destructor makes. A pop called in one of the following
  states hands the caller's inline storage, which no allocator returned, to \<^verbatim>\<open>sk_free\<close>.
\<close>

definition frees_inline_front :: "SkDeque \<Rightarrow> bool" where
  "frees_inline_front d \<longleftrightarrow>
     fFront d \<noteq> 0 \<and> fFront d = fInitialStorage d \<and>
     (case heap d (fFront d) of None \<Rightarrow> False | Some b \<Rightarrow> fBegin b = 0)"

definition frees_inline_back :: "SkDeque \<Rightarrow> bool" where
  "frees_inline_back d \<longleftrightarrow>
     fBack d \<noteq> 0 \<and> fBack d = fInitialStorage d \<and>
     (case heap d (fBack d) of None \<Rightarrow> False | Some b \<Rightarrow> fEnd b = 0)"

text \<open>
  The states a deque reaches by runs within the ranges of the machine: the count stays
  below \<^verbatim>\<open>INT_MAX\<close> before every push, the inline storage and the Blocks of the allocator
  lie within the range, and no pop hands the inline storage to \<^verbatim>\<open>sk_free\<close>.
\<close>

inductive reach_in_range :: "bool \<Rightarrow> SkDeque \<Rightarrow> addr list \<Rightarrow> bool" for dbg :: bool where
  new: "SkDeque_new dbg elemSize allocCount = Inr d \<Longrightarrow> reach_in_range dbg d []"
| storage: "0 \<le> storage \<Longrightarrow>
     extent_in_range elemSize storage (storage + storageSize) \<Longrightarrow>
     SkDeque_storage dbg elemSize storage storageSize allocCount = Inr d \<Longrightarrow>
     reach_in_range dbg d []"
| push_front: "reach_in_range dbg d xs \<Longrightarrow> alloc_ok d a \<Longrightarrow> alloc_in_range d a \<Longrightarrow>
     fCount d < INT_MAX \<Longrightarrow> push_front a d = Inr (p, d') \<Longrightarrow>
     reach_in_range dbg d' (p # xs)"
| push_back: "reach_in_range dbg d xs \<Longrightarrow> alloc_ok d a \<Longrightarrow> alloc_in_range d a \<Longrightarrow>
     fCount d < INT_MAX \<Longrightarrow> push_back a d = Inr (p, d') \<Longrightarrow>
     reach_in_range dbg d' (xs @ [p])"
| pop_front: "reach_in_range dbg d xs \<Longrightarrow> 0 < fCount d \<Longrightarrow> \<not> frees_inline_front d \<Longrightarrow>
     pop_front dbg d = Inr d' \<Longrightarrow> reach_in_range dbg d' (tl xs)"
| pop_back: "reach_in_range dbg d xs \<Longrightarrow> 0 < fCount d \<Longrightarrow> \<not> frees_inline_back d \<Longrightarrow>
     pop_back dbg d = Inr d' \<Longrightarrow> reach_in_range dbg d' (butlast xs)"

text \<open>The same for the runs given as lists of calls.\<close>

fun op_in_range :: "op \<Rightarrow> SkDeque \<Rightarrow> bool" where
  "op_in_range (PushFront a) d = (alloc_in_range d a \<and> fCount d < INT_MAX)"
| "op_in_range (PushBack a) d = (alloc_in_range d a \<and> fCount d < INT_MAX)"
| "op_in_range PopFront d = (\<not> frees_inline_front d)"
| "op_in_range PopBack d = (\<not> frees_inline_back d)"

fun ops_in_range :: "bool \<Rightarrow> op list \<Rightarrow> SkDeque \<times> addr list \<Rightarrow> bool" where
  "ops_in_range dbg [] s = True"
| "ops_in_range dbg (x # xs) s =
     (op_in_range x (fst s) \<and>
      (case step dbg x s of Inl e \<Rightarrow> True | Inr s' \<Rightarrow> ops_in_range dbg xs s'))"



section \<open>The code in the arithmetic of the machine\<close>

text \<open>
  The same code once more, with the value of every pointer expression taken modulo
  \<open>2 ^ 64\<close> and the count kept as a 32-bit integer in two's complement (the overflow of a
  signed integer is undefined in C++; it is taken to wrap, as it does on the usual
  machines). The constructors, \<^verbatim>\<open>front()\<close>, the store and the scanning loops compute
  nothing that can leave the ranges and are as above.
\<close>

definition ptr :: "int \<Rightarrow> addr" where
  "ptr n = n mod 2 ^ 64"

definition c_int :: "int \<Rightarrow> int" where
  "c_int n = (n + 2 ^ 31) mod 2 ^ 32 - 2 ^ 31"

definition start_m :: "addr \<Rightarrow> addr" where
  "start_m this = ptr (this + sizeof_Block)"

definition init_m :: "addr \<Rightarrow> int \<Rightarrow> Block" where
  "init_m this sz =
     \<lparr>fNext = 0, fPrev = 0, fBegin = 0, fEnd = 0, fStop = ptr (this + sz)\<rparr>"

definition init_at_m :: "addr \<Rightarrow> int \<Rightarrow> SkDeque \<Rightarrow> error + SkDeque" where
  "init_at_m p sz d =
     (if p = 0 then Inl NullDeref else Inr (store p (init_m p sz) d))"

definition SkDeque_storage_m :: "bool \<Rightarrow> int \<Rightarrow> addr \<Rightarrow> int \<Rightarrow> int \<Rightarrow> error + SkDeque" where
  "SkDeque_storage_m dbg elemSize storage storageSize allocCount =
     SkASSERT dbg (storageSize = 0 \<or> storage \<noteq> 0)
      (SkASSERT dbg (allocCount \<ge> 1)
        (let d = \<lparr>fElemSize = elemSize, fInitialStorage = storage, fCount = 0,
                  fAllocCount = allocCount, fFront = 0, fBack = 0,
                  heap = Map.empty, freed = []\<rparr>
         in bindE (if storageSize \<ge> size_t (sizeof_Block + elemSize)
                   then init_at_m storage storageSize (d\<lparr>fFront := storage\<rparr>)
                   else Inr (d\<lparr>fFront := 0\<rparr>))
              (\<lambda>d. Inr (d\<lparr>fBack := fFront d\<rparr>))))"

definition allocateBlock_m :: "addr \<Rightarrow> int \<Rightarrow> SkDeque \<Rightarrow> error + SkDeque" where
  "allocateBlock_m a allocCount d = init_at_m a (block_bytes allocCount (fElemSize d)) d"

text \<open>
  Modelled from the spec: \<^verbatim>\<open>sk_free\<close> releases a block that the allocator returned. Of the
  Blocks of a chain all but the inline storage are such blocks; for the inline storage the
  call is an error of its own.
\<close>

definition freeBlock_m :: "addr \<Rightarrow> SkDeque \<Rightarrow> error + SkDeque" where
  "freeBlock_m block d =
     (if block = fInitialStorage d then Inl BadFree else Inr (freeBlock block d))"

definition SkDeque_back_m :: "bool \<Rightarrow> SkDeque \<Rightarrow> error + addr" where
  "SkDeque_back_m dbg d =
     (let back = fBack d in
      if back = 0 then Inr 0
      else bindE (deref (heap d) back) (\<lambda>bb.
        if fEnd bb = 0 then
          (let back = fPrev bb in
           if back = 0 then Inr 0
           else bindE (deref (heap d) back) (\<lambda>bb.
             SkASSERT dbg (fEnd bb \<noteq> 0) (Inr (ptr (fEnd bb - fElemSize d)))))
        else SkASSERT dbg (fEnd bb \<noteq> 0) (Inr (ptr (fEnd bb - fElemSize d)))))"

definition push_front_INIT_CHUNK_m :: "addr \<Rightarrow> SkDeque \<Rightarrow> error + addr \<times> SkDeque" where
  "push_front_INIT_CHUNK_m first d =
     bindE (deref (heap d) first) (\<lambda>b.
       let b = b\<lparr>fEnd := fStop b\<rparr>;
           begin = ptr (fStop b - fElemSize d)
       in Inr (begin, store first (b\<lparr>fBegin := begin\<rparr>) d))"

definition push_front_m :: "addr \<Rightarrow> SkDeque \<Rightarrow> error + addr \<times> SkDeque" where
  "push_front_m a d =
     (let d = d\<lparr>fCount := c_int (fCount d + 1)\<rparr> in
      bindE (if fFront d = 0
             then bindE (allocateBlock_m a (fAllocCount d) d)
                    (\<lambda>d. Inr (d\<lparr>fFront := a, fBack := a\<rparr>))
             else Inr d) (\<lambda>d.
      let first = fFront d in
      bindE (deref (heap d) first) (\<lambda>fb.
        if fBegin fb = 0 then push_front_INIT_CHUNK_m first d
        else
          let begin = ptr (fBegin fb - fElemSize d) in
          if begin < start_m first then
            bindE (allocateBlock_m a (fAllocCount d) d) (\<lambda>d.
            bindE (deref (heap d) a) (\<lambda>nb.
            let d = store a (nb\<lparr>fNext := fFront d\<rparr>) d in
            bindE (deref (heap d) (fFront d)) (\<lambda>ob.
            let d = store (fFront d) (ob\<lparr>fPrev := a\<rparr>) d;
                d = d\<lparr>fFront := a\<rparr>
            in push_front_INIT_CHUNK_m a d)))
          else Inr (begin, store first (fb\<lparr>fBegin := begin\<rparr>) d))))"

definition push_back_INIT_CHUNK_m :: "addr \<Rightarrow> SkDeque \<Rightarrow> error + addr \<times> SkDeque" where
  "push_back_INIT_CHUNK_m lastB d =
     bindE (deref (heap d) lastB) (\<lambda>b.
       let b = b\<lparr>fBegin := start_m lastB\<rparr>;
           end = ptr (fBegin b + fElemSize d)
       in Inr (ptr (end - fElemSize d), store lastB (b\<lparr>fEnd := end\<rparr>) d))"

definition push_back_m :: "addr \<Rightarrow> SkDeque \<Rightarrow> error + addr \<times> SkDeque" where
  "push_back_m a d =
     (let d = d\<lparr>fCount := c_int (fCount d + 1)\<rparr> in
      bindE (if fBack d = 0
             then bindE (allocateBlock_m a (fAllocCount d) d)
                    (\<lambda>d. Inr (d\<lparr>fBack := a, fFront := a\<rparr>))
             else Inr d) (\<lambda>d.
      let lastB = fBack d in
      bindE (deref (heap d) lastB) (\<lambda>lb.
        if fBegin lb = 0 then push_back_INIT_CHUNK_m lastB d
        else
          let end = ptr (fEnd lb + fElemSize d) in
          if end > fStop lb then
            bindE (allocateBlock_m a (fAllocCount d) d) (\<lambda>d.
            bindE (deref (heap d) a) (\<lambda>nb.
            let d = store a (nb\<lparr>fPrev := fBack d\<rparr>) d in
            bindE (deref (heap d) (fBack d)) (\<lambda>ob.
            let d = store (fBack d) (ob\<lparr>fNext := a\<rparr>) d;
                d = d\<lparr>fBack := a\<rparr>
            in push_back_INIT_CHUNK_m a d)))
          else Inr (ptr (end - fElemSize d), store lastB (lb\<lparr>fEnd := end\<rparr>) d))))"

definition pop_front_m :: "bool \<Rightarrow> SkDeque \<Rightarrow> error + SkDeque" where
  "pop_front_m dbg d =
     SkASSERT dbg (fCount d > 0)
      (let d = d\<lparr>fCount := c_int (fCount d - 1)\<rparr>;
           first = fFront d
       in SkASSERT dbg (first \<noteq> 0)
        (bindE (deref (heap d) first) (\<lambda>fb.
         bindE (if fBegin fb = 0 then
                  (let first = fNext fb in
                   bindE (deref (heap d) first) (\<lambda>nb.
                   let d = store first (nb\<lparr>fPrev := 0\<rparr>) d in
                   bindE (freeBlock_m (fFront d) d) (\<lambda>d.
                   let d = d\<lparr>fFront := first\<rparr>
                   in SkASSERT dbg (first \<noteq> 0) (Inr (first, d)))))
                else Inr (first, d)) (\<lambda>(first, d).
         bindE (deref (heap d) first) (\<lambda>fb.
         let begin = ptr (fBegin fb + fElemSize d) in
         SkASSERT dbg (begin \<le> fEnd fb)
          (bindE (deref (heap d) (fFront d)) (\<lambda>ffb.
           if begin < fEnd ffb
           then Inr (store first (fb\<lparr>fBegin := begin\<rparr>) d)
           else Inr (store first (fb\<lparr>fBegin := 0, fEnd := 0\<rparr>) d))))))))"

definition pop_back_m :: "bool \<Rightarrow> SkDeque \<Rightarrow> error + SkDeque" where
  "pop_back_m dbg d =
     SkASSERT dbg (fCount d > 0)
      (let d = d\<lparr>fCount := c_int (fCount d - 1)\<rparr>;
           lastB = fBack d
       in SkASSERT dbg (lastB \<noteq> 0)
        (bindE (deref (heap d) lastB) (\<lambda>lb.
         bindE (if fEnd lb = 0 then
                  (let lastB = fPrev lb in
                   bindE (deref (heap d) lastB) (\<lambda>pb.
                   let d = store lastB (pb\<lparr>fNext := 0\<rparr>) d in
                   bindE (freeBlock_m (fBack d) d) (\<lambda>d.
                   let d = d\<lparr>fBack := lastB\<rparr>
                   in SkASSERT dbg (lastB \<noteq> 0) (Inr (lastB, d)))))
                else Inr (lastB, d)) (\<lambda>(lastB, d).
         bindE (deref (heap d) lastB) (\<lambda>lb.
         let end = ptr (fEnd lb - fElemSize d) in
         SkASSERT dbg (end \<ge> fBegin lb)
          (if end > fBegin lb
           then Inr (store lastB (lb\<lparr>fEnd := end\<rparr>) d)
           else Inr (store lastB (lb\<lparr>fBegin := 0, fEnd := 0\<rparr>) d)))))))"

partial_function (option) numBlocks_loop_m :: "store \<Rightarrow> addr \<Rightarrow> int \<Rightarrow> (error + int) option" where
  "numBlocks_loop_m h temp numBlocks =
     (if temp \<noteq> 0 then
        (case deref h temp of
           Inl e \<Rightarrow> Some (Inl e)
         | Inr b \<Rightarrow> numBlocks_loop_m h (fNext b) (c_int (numBlocks + 1)))
      else Some (Inr numBlocks))"

declare numBlocks_loop_m.simps [code]

definition numBlocksAllocated_m :: "SkDeque \<Rightarrow> (error + int) option" where
  "numBlocksAllocated_m d = numBlocks_loop_m (heap d) (fFront d) 0"

definition Iter_next_m :: "bool \<Rightarrow> store \<Rightarrow> Iter \<Rightarrow> (error + addr \<times> Iter) option" where
  "Iter_next_m dbg h it =
     (let pos = fPos it in
      if pos \<noteq> 0 then
        (let next = ptr (pos + Iter_fElemSize it) in
         bindO (Some (deref h (fCurBlock it))) (\<lambda>cb.
         bindO (Some (SkASSERT dbg (next \<le> fEnd cb) (Inr ()))) (\<lambda>_.
         if next = fEnd cb then
           bindO (skip_next h (fNext cb)) (\<lambda>cur.
           bindO (Some (if cur \<noteq> 0 then bindE (deref h cur) (\<lambda>b. Inr (fBegin b))
                        else Inr 0)) (\<lambda>next.
           Some (Inr (pos, it\<lparr>fCurBlock := cur, fPos := next\<rparr>))))
         else Some (Inr (pos, it\<lparr>fPos := next\<rparr>)))))
      else Some (Inr (pos, it)))"

definition Iter_prev_m :: "bool \<Rightarrow> store \<Rightarrow> Iter \<Rightarrow> (error + addr \<times> Iter) option" where
  "Iter_prev_m dbg h it =
     (let pos = fPos it in
      if pos \<noteq> 0 then
        (let prev = ptr (pos - Iter_fElemSize it) in
         bindO (Some (deref h (fCurBlock it))) (\<lambda>cb.
         bindO (Some (SkASSERT dbg (prev \<ge> ptr (fBegin cb - Iter_fElemSize it)) (Inr ())))
           (\<lambda>_.
         if prev < fBegin cb then
           bindO (skip_prev h (fPrev cb)) (\<lambda>cur.
           bindO (Some (if cur \<noteq> 0
                        then bindE (deref h cur) (\<lambda>b. Inr (ptr (fEnd b - Iter_fElemSize it)))
                        else Inr 0)) (\<lambda>prev.
           Some (Inr (pos, it\<lparr>fCurBlock := cur, fPos := prev\<rparr>))))
         else Some (Inr (pos, it\<lparr>fPos := prev\<rparr>)))))
      else Some (Inr (pos, it)))"

definition Iter_reset_m :: "SkDeque \<Rightarrow> IterStart \<Rightarrow> Iter \<Rightarrow> (error + Iter) option" where
  "Iter_reset_m d startLoc it =
     (let it = it\<lparr>Iter_fElemSize := fElemSize d\<rparr> in
      if startLoc = kFront_IterStart then
        bindO (skip_next (heap d) (fFront d)) (\<lambda>cur.
        bindO (Some (if cur \<noteq> 0 then bindE (deref (heap d) cur) (\<lambda>b. Inr (fBegin b))
                     else Inr 0)) (\<lambda>pos.
        Some (Inr (it\<lparr>fCurBlock := cur, fPos := pos\<rparr>))))
      else
        bindO (skip_prev (heap d) (fBack d)) (\<lambda>cur.
        bindO (Some (if cur \<noteq> 0
                     then bindE (deref (heap d) cur)
                            (\<lambda>b. Inr (ptr (fEnd b - Iter_fElemSize it)))
                     else Inr 0)) (\<lambda>pos.
        Some (Inr (it\<lparr>fCurBlock := cur, fPos := pos\<rparr>)))))"

fun iter_calls_m :: "bool \<Rightarrow> store \<Rightarrow> iter_call list \<Rightarrow> Iter \<Rightarrow> (error + addr list \<times> Iter) option" where
  "iter_calls_m dbg h [] it = Some (Inr ([], it))"
| "iter_calls_m dbg h (c # cs) it =
     bindO (case c of Next \<Rightarrow> Iter_next_m dbg h it | Prev \<Rightarrow> Iter_prev_m dbg h it) (\<lambda>(p, it).
     bindO (iter_calls_m dbg h cs it) (\<lambda>(ps, it). Some (Inr (p # ps, it))))"

text \<open>
  The states this code reaches in runs within the ranges: the deque is constructed with a
  valid configuration, the count is below \<^verbatim>\<open>INT_MAX\<close> before every push, the inline storage
  and the Blocks of the allocator lie within the range, and the pops are called with
  \<open>fCount > 0\<close>. A pop that hands the inline storage to \<^verbatim>\<open>sk_free\<close> does not return.
\<close>

inductive reach_m :: "bool \<Rightarrow> SkDeque \<Rightarrow> addr list \<Rightarrow> bool" for dbg :: bool where
  new: "SkDeque_new dbg elemSize allocCount = Inr d \<Longrightarrow> valid_config d \<Longrightarrow> reach_m dbg d []"
| storage: "0 \<le> storage \<Longrightarrow>
     extent_in_range elemSize storage (storage + storageSize) \<Longrightarrow>
     SkDeque_storage_m dbg elemSize storage storageSize allocCount = Inr d \<Longrightarrow>
     valid_config d \<Longrightarrow> reach_m dbg d []"
| push_front: "reach_m dbg d xs \<Longrightarrow> alloc_ok d a \<Longrightarrow> alloc_in_range d a \<Longrightarrow>
     fCount d < INT_MAX \<Longrightarrow> push_front_m a d = Inr (p, d') \<Longrightarrow> reach_m dbg d' (p # xs)"
| push_back: "reach_m dbg d xs \<Longrightarrow> alloc_ok d a \<Longrightarrow> alloc_in_range d a \<Longrightarrow>
     fCount d < INT_MAX \<Longrightarrow> push_back_m a d = Inr (p, d') \<Longrightarrow> reach_m dbg d' (xs @ [p])"
| pop_front: "reach_m dbg d xs \<Longrightarrow> 0 < fCount d \<Longrightarrow> pop_front_m dbg d = Inr d' \<Longrightarrow>
     reach_m dbg d' (tl xs)"
| pop_back: "reach_m dbg d xs \<Longrightarrow> 0 < fCount d \<Longrightarrow> pop_back_m dbg d = Inr d' \<Longrightarrow>
     reach_m dbg d' (butlast xs)"

text \<open>The runs of this code given as lists of calls.\<close>

fun step_m :: "bool \<Rightarrow> op \<Rightarrow> SkDeque \<times> addr list \<Rightarrow> error + SkDeque \<times> addr list" where
  "step_m dbg (PushFront a) (d, xs) = bindE (push_front_m a d) (\<lambda>(p, d'). Inr (d', p # xs))"
| "step_m dbg (PushBack a) (d, xs) = bindE (push_back_m a d) (\<lambda>(p, d'). Inr (d', xs @ [p]))"
| "step_m dbg PopFront (d, xs) = bindE (pop_front_m dbg d) (\<lambda>d'. Inr (d', tl xs))"
| "step_m dbg PopBack (d, xs) = bindE (pop_back_m dbg d) (\<lambda>d'. Inr (d', butlast xs))"

fun run_m :: "bool \<Rightarrow> op list \<Rightarrow> SkDeque \<times> addr list \<Rightarrow> error + SkDeque \<times> addr list" where
  "run_m dbg [] s = Inr s"
| "run_m dbg (x # xs) s = bindE (step_m dbg x s) (run_m dbg xs)"

section \<open>The client's memory\<close>

text \<open>
  The deque hands out slots and never reads or writes their bytes; its client does. The
  bytes of the slots are kept in a memory of their own: every slot lies between
  \<^verbatim>\<open>start()\<close> and \<^verbatim>\<open>fStop\<close> of its Block, after the header.
\<close>

type_synonym byte = "8 word"

type_synonym memory = "addr \<Rightarrow> byte"

definition write_bytes :: "addr \<Rightarrow> byte list \<Rightarrow> memory \<Rightarrow> memory" where
  "write_bytes p vs m =
     (\<lambda>a. if p \<le> a \<and> a < p + int (length vs) then vs ! nat (a - p) else m a)"

definition read_bytes :: "addr \<Rightarrow> int \<Rightarrow> memory \<Rightarrow> byte list" where
  "read_bytes p n m = map (\<lambda>i. m (p + int i)) [0..<nat n]"

text \<open>A 32-bit value as the client stores it, least significant byte first.\<close>

definition le32 :: "32 word \<Rightarrow> byte list" where
  "le32 w = map (\<lambda>k. ucast (drop_bit (8 * k) w)) [0..<4]"

text \<open>
  The client that fills a deque: each \<^verbatim>\<open>push_back\<close> is given the address its allocation
  would return, and the slot it returns is written with the value of the turn.
\<close>

fun push_all :: "(addr \<times> byte list) list \<Rightarrow> SkDeque \<times> memory \<Rightarrow> error + SkDeque \<times> memory" where
  "push_all [] s = Inr s"
| "push_all ((a, v) # avs) (d, m) =
     bindE (push_back a d) (\<lambda>(p, d').
       if p = 0 then Inl NullDeref else push_all avs (d', write_bytes p v m))"



text \<open>\<^verbatim>\<open>pop_front\<close> called \<open>n\<close> times in a row.\<close>

fun pop_front_times :: "bool \<Rightarrow> nat \<Rightarrow> SkDeque \<Rightarrow> error + SkDeque" where
  "pop_front_times dbg 0 d = Inr d"
| "pop_front_times dbg (Suc n) d = bindE (pop_front dbg d) (pop_front_times dbg n)"


section \<open>Symbolic execution of the operations\<close>

lemma bindE_simps [simp]: "bindE (Inl e) f = Inl e" "bindE (Inr x) f = f x"
  by (simp_all add: bindE_def)

lemma bindE_eq_Inr: "bindE m f = Inr y \<longleftrightarrow> (\<exists>x. m = Inr x \<and> f x = Inr y)"
  by (cases m) simp_all

lemma bindO_simps [simp]:
  "bindO None f = None" "bindO (Some (Inl e)) f = Some (Inl e)" "bindO (Some (Inr x)) f = f x"
  by (simp_all add: bindO_def)

lemma SkASSERT_simps [simp]:
  "cond \<Longrightarrow> SkASSERT dbg cond k = k"
  "SkASSERT False cond k = k"
  "\<not> cond \<Longrightarrow> SkASSERT True cond k = Inl AssertFailed"
  by (simp_all add: SkASSERT_def)

lemma SkASSERT_eq_Inr: "SkASSERT dbg cond k = Inr y \<longleftrightarrow> (dbg \<longrightarrow> cond) \<and> k = Inr y"
  by (auto simp: SkASSERT_def)

lemma deref_Some [simp]: "h p = Some b \<Longrightarrow> p \<noteq> 0 \<Longrightarrow> deref h p = Inr b"
  by (simp add: deref_def)

lemma deref_0 [simp]: "deref h 0 = Inl NullDeref"
  by (simp add: deref_def)

lemma deref_None [simp]: "h p = None \<Longrightarrow> p \<noteq> 0 \<Longrightarrow> deref h p = Inl BadDeref"
  by (simp add: deref_def)

lemmas op_defs = push_back_def push_back_INIT_CHUNK_def push_front_def
  push_front_INIT_CHUNK_def pop_front_def pop_back_def allocateBlock_def init_at_def
  store_def init_def freeBlock_def Let_def

subsection \<open>push_back\<close>

lemma push_back_first:
  "fBack d = 0 \<Longrightarrow> a \<noteq> 0 \<Longrightarrow>
   push_back a d = Inr (start a, d\<lparr>fCount := fCount d + 1, fFront := a, fBack := a,
      heap := (heap d)(a \<mapsto> \<lparr>fNext = 0, fPrev = 0, fBegin = start a,
                  fEnd = start a + fElemSize d,
                  fStop = a + block_bytes (fAllocCount d) (fElemSize d)\<rparr>)\<rparr>)"
  by (simp add: op_defs)

lemma push_back_init:
  "fBack d = l \<Longrightarrow> l \<noteq> 0 \<Longrightarrow> heap d l = Some lb \<Longrightarrow> fBegin lb = 0 \<Longrightarrow>
   push_back a d = Inr (start l, d\<lparr>fCount := fCount d + 1,
      heap := (heap d)(l \<mapsto> lb\<lparr>fBegin := start l, fEnd := start l + fElemSize d\<rparr>)\<rparr>)"
  by (simp add: op_defs)

lemma push_back_room:
  "fBack d = l \<Longrightarrow> l \<noteq> 0 \<Longrightarrow> heap d l = Some lb \<Longrightarrow> fBegin lb \<noteq> 0 \<Longrightarrow>
   fEnd lb + fElemSize d \<le> fStop lb \<Longrightarrow>
   push_back a d = Inr (fEnd lb, d\<lparr>fCount := fCount d + 1,
      heap := (heap d)(l \<mapsto> lb\<lparr>fEnd := fEnd lb + fElemSize d\<rparr>)\<rparr>)"
  by (simp add: op_defs)

lemma push_back_grow:
  "fBack d = l \<Longrightarrow> l \<noteq> 0 \<Longrightarrow> heap d l = Some lb \<Longrightarrow> fBegin lb \<noteq> 0 \<Longrightarrow>
   fStop lb < fEnd lb + fElemSize d \<Longrightarrow> a \<noteq> 0 \<Longrightarrow> a \<noteq> l \<Longrightarrow>
   push_back a d = Inr (start a, d\<lparr>fCount := fCount d + 1, fBack := a,
      heap := (heap d)(l \<mapsto> lb\<lparr>fNext := a\<rparr>,
                  a \<mapsto> \<lparr>fNext = 0, fPrev = l, fBegin = start a,
                  fEnd = start a + fElemSize d,
                  fStop = a + block_bytes (fAllocCount d) (fElemSize d)\<rparr>)\<rparr>)"
  by (simp add: op_defs fun_upd_twist)

lemma push_back_dangling:
  "fBack d \<noteq> 0 \<Longrightarrow> heap d (fBack d) = None \<Longrightarrow> push_back a d = Inl BadDeref"
  by (simp add: op_defs)

subsection \<open>push_front\<close>

lemma push_front_first:
  "fFront d = 0 \<Longrightarrow> a \<noteq> 0 \<Longrightarrow>
   push_front a d = Inr (a + block_bytes (fAllocCount d) (fElemSize d) - fElemSize d,
      d\<lparr>fCount := fCount d + 1, fFront := a, fBack := a,
      heap := (heap d)(a \<mapsto> \<lparr>fNext = 0, fPrev = 0,
                  fBegin = a + block_bytes (fAllocCount d) (fElemSize d) - fElemSize d,
                  fEnd = a + block_bytes (fAllocCount d) (fElemSize d),
                  fStop = a + block_bytes (fAllocCount d) (fElemSize d)\<rparr>)\<rparr>)"
  by (simp add: op_defs)

lemma push_front_init:
  "fFront d = f \<Longrightarrow> f \<noteq> 0 \<Longrightarrow> heap d f = Some fb \<Longrightarrow> fBegin fb = 0 \<Longrightarrow>
   push_front a d = Inr (fStop fb - fElemSize d, d\<lparr>fCount := fCount d + 1,
      heap := (heap d)(f \<mapsto> fb\<lparr>fEnd := fStop fb, fBegin := fStop fb - fElemSize d\<rparr>)\<rparr>)"
  by (simp add: op_defs)

lemma push_front_room:
  "fFront d = f \<Longrightarrow> f \<noteq> 0 \<Longrightarrow> heap d f = Some fb \<Longrightarrow> fBegin fb \<noteq> 0 \<Longrightarrow>
   start f \<le> fBegin fb - fElemSize d \<Longrightarrow>
   push_front a d = Inr (fBegin fb - fElemSize d, d\<lparr>fCount := fCount d + 1,
      heap := (heap d)(f \<mapsto> fb\<lparr>fBegin := fBegin fb - fElemSize d\<rparr>)\<rparr>)"
  by (simp add: op_defs)

lemma push_front_grow:
  "fFront d = f \<Longrightarrow> f \<noteq> 0 \<Longrightarrow> heap d f = Some fb \<Longrightarrow> fBegin fb \<noteq> 0 \<Longrightarrow>
   fBegin fb - fElemSize d < start f \<Longrightarrow> a \<noteq> 0 \<Longrightarrow> a \<noteq> f \<Longrightarrow>
   push_front a d = Inr (a + block_bytes (fAllocCount d) (fElemSize d) - fElemSize d,
      d\<lparr>fCount := fCount d + 1, fFront := a,
      heap := (heap d)(f \<mapsto> fb\<lparr>fPrev := a\<rparr>,
                  a \<mapsto> \<lparr>fNext = f, fPrev = 0,
                  fBegin = a + block_bytes (fAllocCount d) (fElemSize d) - fElemSize d,
                  fEnd = a + block_bytes (fAllocCount d) (fElemSize d),
                  fStop = a + block_bytes (fAllocCount d) (fElemSize d)\<rparr>)\<rparr>)"
  by (simp add: op_defs fun_upd_twist)

lemma push_front_dangling:
  "fFront d \<noteq> 0 \<Longrightarrow> heap d (fFront d) = None \<Longrightarrow> push_front a d = Inl BadDeref"
  by (simp add: op_defs)

subsection \<open>pop_front\<close>

lemma pop_front_live:
  "fFront d = f \<Longrightarrow> f \<noteq> 0 \<Longrightarrow> heap d f = Some fb \<Longrightarrow> fBegin fb \<noteq> 0 \<Longrightarrow>
   pop_front dbg d =
     SkASSERT dbg (0 < fCount d) (SkASSERT dbg (fBegin fb + fElemSize d \<le> fEnd fb)
       (Inr (d\<lparr>fCount := fCount d - 1,
          heap := (heap d)(f \<mapsto>
            (if fBegin fb + fElemSize d < fEnd fb
             then fb\<lparr>fBegin := fBegin fb + fElemSize d\<rparr>
             else fb\<lparr>fBegin := 0, fEnd := 0\<rparr>))\<rparr>)))"
  by (simp add: op_defs SkASSERT_def)

lemma pop_front_advance:
  "fFront d = f \<Longrightarrow> f \<noteq> 0 \<Longrightarrow> heap d f = Some fb \<Longrightarrow> fBegin fb = 0 \<Longrightarrow>
   fNext fb = n \<Longrightarrow> n \<noteq> 0 \<Longrightarrow> n \<noteq> f \<Longrightarrow> heap d n = Some nb \<Longrightarrow>
   pop_front dbg d =
     SkASSERT dbg (0 < fCount d) (SkASSERT dbg (fBegin nb + fElemSize d \<le> fEnd nb)
       (Inr (d\<lparr>fCount := fCount d - 1, fFront := n, freed := f # freed d,
          heap := ((heap d)(f := None))(n \<mapsto>
            (if fBegin nb + fElemSize d < fEnd nb
             then nb\<lparr>fPrev := 0, fBegin := fBegin nb + fElemSize d\<rparr>
             else nb\<lparr>fPrev := 0, fBegin := 0, fEnd := 0\<rparr>))\<rparr>)))"
  by (simp add: op_defs SkASSERT_def fun_upd_twist)

lemma pop_front_errors:
  "fFront d = 0 \<Longrightarrow> pop_front dbg d \<noteq> Inr d'"
  "heap d (fFront d) = None \<Longrightarrow> pop_front dbg d \<noteq> Inr d'"
  "heap d (fFront d) = Some fb \<Longrightarrow> fBegin fb = 0 \<Longrightarrow> fNext fb = 0 \<Longrightarrow> pop_front dbg d \<noteq> Inr d'"
  "heap d (fFront d) = Some fb \<Longrightarrow> fBegin fb = 0 \<Longrightarrow> heap d (fNext fb) = None \<Longrightarrow>
     pop_front dbg d \<noteq> Inr d'"
  "heap d (fFront d) = Some fb \<Longrightarrow> fBegin fb = 0 \<Longrightarrow> fNext fb = fFront d \<Longrightarrow>
     pop_front dbg d \<noteq> Inr d'"
  by (auto simp: op_defs SkASSERT_def deref_def)

subsection \<open>pop_back\<close>

lemma pop_back_live:
  "fBack d = l \<Longrightarrow> l \<noteq> 0 \<Longrightarrow> heap d l = Some lb \<Longrightarrow> fEnd lb \<noteq> 0 \<Longrightarrow>
   pop_back dbg d =
     SkASSERT dbg (0 < fCount d) (SkASSERT dbg (fBegin lb \<le> fEnd lb - fElemSize d)
       (Inr (d\<lparr>fCount := fCount d - 1,
          heap := (heap d)(l \<mapsto>
            (if fBegin lb < fEnd lb - fElemSize d
             then lb\<lparr>fEnd := fEnd lb - fElemSize d\<rparr>
             else lb\<lparr>fBegin := 0, fEnd := 0\<rparr>))\<rparr>)))"
  by (simp add: op_defs SkASSERT_def)

lemma pop_back_advance:
  "fBack d = l \<Longrightarrow> l \<noteq> 0 \<Longrightarrow> heap d l = Some lb \<Longrightarrow> fEnd lb = 0 \<Longrightarrow>
   fPrev lb = n \<Longrightarrow> n \<noteq> 0 \<Longrightarrow> n \<noteq> l \<Longrightarrow> heap d n = Some nb \<Longrightarrow>
   pop_back dbg d =
     SkASSERT dbg (0 < fCount d) (SkASSERT dbg (fBegin nb \<le> fEnd nb - fElemSize d)
       (Inr (d\<lparr>fCount := fCount d - 1, fBack := n, freed := l # freed d,
          heap := ((heap d)(l := None))(n \<mapsto>
            (if fBegin nb < fEnd nb - fElemSize d
             then nb\<lparr>fNext := 0, fEnd := fEnd nb - fElemSize d\<rparr>
             else nb\<lparr>fNext := 0, fBegin := 0, fEnd := 0\<rparr>))\<rparr>)))"
  by (simp add: op_defs SkASSERT_def fun_upd_twist)

lemma pop_back_errors:
  "fBack d = 0 \<Longrightarrow> pop_back dbg d \<noteq> Inr d'"
  "heap d (fBack d) = None \<Longrightarrow> pop_back dbg d \<noteq> Inr d'"
  "heap d (fBack d) = Some lb \<Longrightarrow> fEnd lb = 0 \<Longrightarrow> fPrev lb = 0 \<Longrightarrow> pop_back dbg d \<noteq> Inr d'"
  "heap d (fBack d) = Some lb \<Longrightarrow> fEnd lb = 0 \<Longrightarrow> heap d (fPrev lb) = None \<Longrightarrow>
     pop_back dbg d \<noteq> Inr d'"
  "heap d (fBack d) = Some lb \<Longrightarrow> fEnd lb = 0 \<Longrightarrow> fPrev lb = fBack d \<Longrightarrow>
     pop_back dbg d \<noteq> Inr d'"
  by (auto simp: op_defs SkASSERT_def deref_def)

section \<open>Runs and concrete states\<close>

lemma run_reach:
  "reach dbg d xs \<Longrightarrow> ops_ok dbg ops (d, xs) \<Longrightarrow> run dbg ops (d, xs) = Inr (d', xs') \<Longrightarrow>
   reach dbg d' xs'"
proof (induction ops arbitrary: d xs)
  case Nil
  then show ?case by simp
next
  case (Cons x ops)
  from Cons.prems(3) obtain d1 xs1 where st: "step dbg x (d, xs) = Inr (d1, xs1)"
    and rn: "run dbg ops (d1, xs1) = Inr (d', xs')"
    by (auto simp: bindE_eq_Inr)
  from Cons.prems(2) st have ok: "op_ok x d" and oks: "ops_ok dbg ops (d1, xs1)"
    by simp_all
  have "reach dbg d1 xs1"
  proof (cases x)
    case (PushFront a)
    with st ok Cons.prems(1) show ?thesis
      by (auto simp: bindE_eq_Inr intro: reach.push_front)
  next
    case (PushBack a)
    with st ok Cons.prems(1) show ?thesis
      by (auto simp: bindE_eq_Inr intro: reach.push_back)
  next
    case PopFront
    with st ok Cons.prems(1) show ?thesis
      by (auto simp: bindE_eq_Inr intro: reach.pop_front)
  next
    case PopBack
    with st ok Cons.prems(1) show ?thesis
      by (auto simp: bindE_eq_Inr intro: reach.pop_back)
  qed
  from Cons.IH [OF this oks rn] show ?case .
qed

lemma new_run_reach:
  assumes "SkDeque_new dbg e n = Inr d0" "ops_ok dbg ops (d0, [])"
    "run dbg ops (d0, []) = Inr (d, xs)"
  shows "reach dbg d xs"
  using run_reach [OF reach.new [OF assms(1)] assms(2,3)] .

lemmas eval_defs = op_defs block_bytes_def size_t_def sizeof_Block_def start_def
  SkDeque_new_def SkDeque_storage_def alloc_ok_def

lemma two_empty_reach: "reach dbg two_empty []"
proof -
  let ?d0 = "\<lparr>fElemSize = 4, fInitialStorage = 0, fCount = 0,
             fAllocCount = 1, fFront = 0, fBack = 0, heap = Map.empty, freed = []\<rparr>"
  let ?ops = "[PushBack 1000, PushBack 2000, PopFront, PopBack]"
  have 0: "SkDeque_new dbg 4 1 = Inr ?d0" by (simp add: SkDeque_new_def)
  have 1: "ops_ok dbg ?ops (?d0, [])" by (simp add: eval_defs)
  have 2: "run dbg ?ops (?d0, []) = Inr (two_empty, [])" by (simp add: eval_defs two_empty_def)
  from new_run_reach [OF 0 1 2] show ?thesis .
qed

lemma one_elem_reach: "reach dbg one_elem [1040]"
proof -
  let ?d0 = "\<lparr>fElemSize = 4, fInitialStorage = 0, fCount = 0,
             fAllocCount = 1, fFront = 0, fBack = 0, heap = Map.empty, freed = []\<rparr>"
  let ?ops = "[PushBack 1000]"
  have 0: "SkDeque_new dbg 4 1 = Inr ?d0" by (simp add: SkDeque_new_def)
  have 1: "ops_ok dbg ?ops (?d0, [])" by (simp add: eval_defs)
  have 2: "run dbg ?ops (?d0, []) = Inr (one_elem, [1040])" by (simp add: eval_defs one_elem_def)
  from new_run_reach [OF 0 1 2] show ?thesis .
qed

lemma zero_two_reach: "reach dbg zero_two [1040, 1040]"
proof -
  let ?d0 = "\<lparr>fElemSize = 0, fInitialStorage = 0, fCount = 0,
             fAllocCount = 1, fFront = 0, fBack = 0, heap = Map.empty, freed = []\<rparr>"
  let ?ops = "[PushBack 1000, PushBack 2000]"
  have 0: "SkDeque_new dbg 0 1 = Inr ?d0" by (simp add: SkDeque_new_def)
  have 1: "ops_ok dbg ?ops (?d0, [])" by (simp add: eval_defs)
  have 2: "run dbg ?ops (?d0, []) = Inr (zero_two, [1040, 1040])"
    by (simp add: eval_defs zero_two_def)
  from new_run_reach [OF 0 1 2] show ?thesis .
qed

lemma zero_two_pop: "pop_front dbg zero_two = Inr zero_one"
  by (simp add: eval_defs zero_two_def zero_one_def)

lemma zero_one_reach: "reach dbg zero_one [1040]"
  using reach.pop_front [OF zero_two_reach _ zero_two_pop] by (simp add: zero_two_def)


lemma three_popped_pop: "pop_front dbg three_popped = Inr three_popped_twice"
  by (simp add: eval_defs three_popped_def three_popped_twice_def fun_upd_twist)

lemma inline_popped_reach: "reach dbg inline_popped []"
proof -
  let ?d0 = "\<lparr>fElemSize = 4, fInitialStorage = 500, fCount = 0,
             fAllocCount = 1, fFront = 500, fBack = 500,
             heap = [500 \<mapsto> \<lparr>fNext = 0, fPrev = 0, fBegin = 0, fEnd = 0, fStop = 544\<rparr>],
             freed = []\<rparr>"
  let ?ops = "[PushBack 1000, PushBack 1000, PopFront, PopFront]"
  have 0: "SkDeque_storage dbg 4 500 44 1 = Inr ?d0" by (simp add: eval_defs)
  have 1: "ops_ok dbg ?ops (?d0, [])" by (simp add: eval_defs)
  have 2: "run dbg ?ops (?d0, []) = Inr (inline_popped, [])"
    by (simp add: eval_defs inline_popped_def)
  have "reach dbg ?d0 []" by (rule reach.storage [OF _ 0]) simp
  from run_reach [OF this 1 2] show ?thesis .
qed

section \<open>The inline Block and the empty signal\<close>

text \<open>
  Claim C1 (the inline storage Block is never handed to the release routine) against the
  code: \<^verbatim>\<open>pop_front\<close> and \<^verbatim>\<open>pop_back\<close> call \<^verbatim>\<open>freeBlock\<close> on the Block they advance
  past without comparing it with \<^verbatim>\<open>fInitialStorage\<close>, as the destructor does. A deque over
  44 bytes of inline storage at address 500 (one element of size 4), after \<^verbatim>\<open>push_back\<close>,
  \<^verbatim>\<open>push_back\<close>, \<^verbatim>\<open>pop_front\<close>, \<^verbatim>\<open>pop_front\<close>, has passed the inline Block to
  \<^verbatim>\<open>sk_free\<close>, and the Block is no longer in the chain; in the debug and in the release
  build.
\<close>

theorem inline_block_released:
  "reach True inline_popped [] \<and> reach False inline_popped [] \<and>
   fInitialStorage inline_popped = 500 \<and> 500 \<in> set (freed inline_popped) \<and>
   heap inline_popped 500 = None \<and> numBlocksAllocated inline_popped = Some (Inr 1)"
  by (simp add: inline_popped_reach)
     (simp add: inline_popped_def numBlocksAllocated_def numBlocks_loop.simps)

text \<open>
  Claim C4 (\<^verbatim>\<open>front()\<close> and \<^verbatim>\<open>back()\<close> return the empty signal exactly when
  \<open>count = 0\<close>) against the code: both look past one empty-marked Block only. After
  \<^verbatim>\<open>push_back\<close>, \<^verbatim>\<open>push_back\<close>, \<^verbatim>\<open>pop_front\<close>, \<^verbatim>\<open>pop_back\<close> on \<^verbatim>\<open>SkDeque(4, 1)\<close> the
  chain is two empty-marked Blocks and the count is 0. There \<^verbatim>\<open>back()\<close> violates its own
  assertion \<^verbatim>\<open>SkASSERT(back->fEnd)\<close> in a debug build and returns the non-null pointer
  \<^verbatim>\<open>NULL - fElemSize\<close> in a release build; \<^verbatim>\<open>front()\<close> violates \<^verbatim>\<open>SkASSERT(front->fBegin)\<close>
  in a debug build.
\<close>

theorem back_of_two_empty_blocks:
  "reach True two_empty [] \<and> reach False two_empty [] \<and> fCount two_empty = 0 \<and>
   SkDeque_back True two_empty = Inl AssertFailed \<and>
   SkDeque_back False two_empty = Inr (- 4) \<and>
   front True two_empty = Inl AssertFailed \<and> front False two_empty = Inr 0"
  by (simp add: two_empty_reach) (simp add: SkDeque_back_def front_def two_empty_def)

section \<open>An exhausted iterator stays exhausted\<close>

lemma Iter_next_null: "fPos it = 0 \<Longrightarrow> Iter_next dbg h it = Some (Inr (0, it))"
  by (simp add: Iter_next_def)

lemma Iter_prev_null: "fPos it = 0 \<Longrightarrow> Iter_prev dbg h it = Some (Inr (0, it))"
  by (simp add: Iter_prev_def)

text \<open>
  Claim C10: once the cursor \<^verbatim>\<open>fPos\<close> of an iterator is null, every later \<^verbatim>\<open>next()\<close> and
  \<^verbatim>\<open>prev()\<close>, in any order and number, returns null and leaves the iterator as it was,
  whatever the store holds. The default constructor makes such an iterator.
\<close>

theorem iter_exhausted_absorbing:
  "fPos it = 0 \<Longrightarrow> iter_calls dbg h cs it = Some (Inr (replicate (length cs) 0, it))"
proof (induction cs)
  case Nil
  show ?case by simp
next
  case (Cons c cs)
  then show ?case
    by (cases c) (simp_all add: Iter_next_null Iter_prev_null)
qed

theorem iter_exhausted_absorbing_witness:
  "fPos Iter_new = 0 \<and>
   iter_calls True Map.empty [Next, Prev, Prev, Next] Iter_new = Some (Inr ([0, 0, 0, 0], Iter_new))"
  using iter_exhausted_absorbing [of Iter_new True Map.empty "[Next, Prev, Prev, Next]"]
  by (simp add: Iter_new_def)

section \<open>The chain\<close>

lemma hd0_simps [simp]: "hd0 [] = 0" "hd0 (b # bs) = b"
  by (simp_all add: hd0_def)

lemma last0_simps [simp]: "last0 [] = 0" "last0 (bs @ [b]) = b" "last0 [b] = b"
  "last0 (a # b # bs) = last0 (b # bs)"
  by (simp_all add: last0_def)

lemma dlseg_snoc:
  "dlseg h p (bs @ [l]) n \<longleftrightarrow>
     dlseg h p bs l \<and> (\<exists>b. h l = Some b \<and> fPrev b = (if bs = [] then p else last bs) \<and> fNext b = n)"
proof (induction bs arbitrary: p)
  case Nil
  show ?case by (auto split: option.splits)
next
  case (Cons a bs)
  show ?case
  proof (cases bs)
    case Nil
    then show ?thesis by (auto split: option.splits)
  next
    case (Cons c cs)
    with Cons.IH [of a] show ?thesis by (auto split: option.splits)
  qed
qed

lemma dlseg_frame:
  "(\<And>a. a \<in> set bs \<Longrightarrow> h' a = h a) \<Longrightarrow> dlseg h' p bs n = dlseg h p bs n"
  by (induction bs arbitrary: p) (auto split: option.splits)

lemma dlseg_links:
  "(\<And>a b. a \<in> set bs \<Longrightarrow> h a = Some b \<Longrightarrow>
      \<exists>b'. h' a = Some b' \<and> fNext b' = fNext b \<and> fPrev b' = fPrev b) \<Longrightarrow>
   dlseg h p bs n \<Longrightarrow> dlseg h' p bs n"
proof (induction bs arbitrary: p)
  case Nil
  show ?case by simp
next
  case (Cons a bs)
  from Cons.prems(2) obtain b where b: "h a = Some b" "fPrev b = p"
      "fNext b = (case bs of [] \<Rightarrow> n | c # _ \<Rightarrow> c)" "dlseg h a bs n"
    by (auto split: option.splits)
  from Cons.prems(1) [of a b] b obtain b' where b': "h' a = Some b'" "fNext b' = fNext b"
      "fPrev b' = fPrev b"
    by auto
  have "dlseg h' a bs n"
    by (rule Cons.IH [OF _ b(4)]) (auto intro: Cons.prems(1))
  with b b' show ?case by simp
qed

lemma chain_inv_NilD: "chain_inv d [] \<Longrightarrow> fFront d = 0 \<and> fBack d = 0 \<and> heap d = Map.empty"
  by (auto simp: chain_inv_def)

lemma chain_inv_lastD:
  assumes "chain_inv d (bs0 @ [l])"
  shows "fBack d = l" "l \<noteq> 0" "\<exists>lb. heap d l = Some lb \<and> fNext lb = 0 \<and> fPrev lb = last0 bs0"
    "l \<notin> set bs0" "dlseg (heap d) 0 bs0 l"
  using assms by (auto simp: chain_inv_def dlseg_snoc last0_def)

lemma chain_inv_hdD:
  assumes "chain_inv d (f # rest)"
  shows "fFront d = f" "f \<noteq> 0" "\<exists>fb. heap d f = Some fb \<and> fPrev fb = 0 \<and> fNext fb = hd0 rest"
    "f \<notin> set rest" "dlseg (heap d) f rest 0"
  using assms by (auto simp: chain_inv_def hd0_def split: option.splits list.splits)

lemma chain_inv_content:
  assumes ci: "chain_inv d bs" and x: "heap d x = Some b"
    and h': "heap d' = (heap d)(x \<mapsto> b')"
    and f: "fFront d' = fFront d" "fBack d' = fBack d"
    and l: "fNext b' = fNext b" "fPrev b' = fPrev b"
  shows "chain_inv d' bs"
proof -
  from x have "insert x (dom (heap d)) = dom (heap d)" by auto
  moreover have "dlseg (heap d') 0 bs 0"
    by (rule dlseg_links [of bs "heap d"]) (use ci x h' l in \<open>auto simp: chain_inv_def\<close>)
  ultimately show ?thesis using ci h' f by (simp add: chain_inv_def)
qed

lemma chain_inv_first:
  assumes ci: "chain_inv d []" and a: "a \<noteq> 0"
    and h': "heap d' = (heap d)(a \<mapsto> nb)"
    and f: "fFront d' = a" "fBack d' = a"
    and l: "fNext nb = 0" "fPrev nb = 0"
  shows "chain_inv d' [a]"
  using assms by (simp add: chain_inv_def)

lemma chain_inv_grow_back:
  assumes ci: "chain_inv d (bs0 @ [l])" and lb: "heap d l = Some lb"
    and a: "a \<noteq> 0" "heap d a = None"
    and h': "heap d' = (heap d)(l \<mapsto> lb', a \<mapsto> nb)"
    and f: "fFront d' = fFront d" "fBack d' = a"
    and l: "fNext lb' = a" "fPrev lb' = fPrev lb" "fNext nb = 0" "fPrev nb = l"
  shows "chain_inv d' (bs0 @ [l, a])"
proof -
  from ci have dom: "dom (heap d) = set (bs0 @ [l])" by (simp add: chain_inv_def)
  with a(2) have an: "a \<notin> set bs0" "a \<noteq> l" by auto
  from chain_inv_lastD [OF ci] lb have lf: "fPrev lb = last0 bs0" "l \<notin> set bs0"
    and seg: "dlseg (heap d) 0 bs0 l"
    by auto
  have "dlseg (heap d') 0 bs0 l = dlseg (heap d) 0 bs0 l"
    by (rule dlseg_frame) (use an lf h' in auto)
  with seg have 1: "dlseg (heap d') 0 (bs0 @ [l]) a"
    using h' l lf an by (auto simp: dlseg_snoc last0_def)
  have "dlseg (heap d') 0 ((bs0 @ [l]) @ [a]) 0"
    unfolding dlseg_snoc [of _ _ "bs0 @ [l]"] using 1 h' l by simp
  moreover have "fFront d' = hd0 (bs0 @ [l, a])"
    using f ci by (cases bs0) (simp_all add: chain_inv_def)
  moreover have "fBack d' = last0 (bs0 @ [l, a])"
    using f by (simp add: last0_def)
  ultimately show ?thesis
    using ci an a h' dom by (auto simp: chain_inv_def)
qed

lemma chain_inv_grow_front:
  assumes ci: "chain_inv d (f # rest)" and fb: "heap d f = Some fb"
    and a: "a \<noteq> 0" "heap d a = None"
    and h': "heap d' = (heap d)(f \<mapsto> fb', a \<mapsto> nb)"
    and f: "fFront d' = a" "fBack d' = fBack d"
    and l: "fPrev fb' = a" "fNext fb' = fNext fb" "fPrev nb = 0" "fNext nb = f"
  shows "chain_inv d' (a # f # rest)"
proof -
  from ci have dom: "dom (heap d) = set (f # rest)" by (simp add: chain_inv_def)
  with a(2) have an: "a \<notin> set rest" "a \<noteq> f" by auto
  from chain_inv_hdD [OF ci] fb have lf: "fNext fb = hd0 rest" "f \<notin> set rest"
    and seg: "dlseg (heap d) f rest 0"
    by auto
  have "dlseg (heap d') f rest 0 = dlseg (heap d) f rest 0"
    by (rule dlseg_frame) (use an lf h' in auto)
  with seg have "dlseg (heap d') 0 (a # f # rest) 0"
    using h' l lf an by (auto simp: hd0_def split: list.splits)
  moreover have "fBack d' = last0 (a # f # rest)"
    using f ci by (simp add: chain_inv_def)
  ultimately show ?thesis
    using ci an a h' dom f by (auto simp: chain_inv_def)
qed

lemma chain_inv_advance_front:
  assumes ci: "chain_inv d (f # n # rest)" and nb: "heap d n = Some nb"
    and h': "heap d' = ((heap d)(f := None))(n \<mapsto> nb')"
    and f: "fFront d' = n" "fBack d' = fBack d"
    and l: "fPrev nb' = 0" "fNext nb' = fNext nb"
  shows "chain_inv d' (n # rest)"
proof -
  from ci have dom: "dom (heap d) = set (f # n # rest)" and dist: "distinct (f # n # rest)"
    by (simp_all add: chain_inv_def)
  from ci nb have seg: "dlseg (heap d) n rest 0" and nx: "fNext nb = hd0 rest"
    by (auto simp: chain_inv_def hd0_def split: option.splits list.splits)
  have "dlseg (heap d') n rest 0 = dlseg (heap d) n rest 0"
    by (rule dlseg_frame) (use dist h' in auto)
  with seg have "dlseg (heap d') 0 (n # rest) 0"
    using h' l nx by (auto simp: hd0_def split: list.splits)
  moreover have "dom (heap d') = set (n # rest)"
    using dom dist h' by auto
  ultimately show ?thesis
    using ci f by (auto simp: chain_inv_def)
qed

lemma chain_inv_advance_back:
  assumes ci: "chain_inv d (bs0 @ [n, l])" and nb: "heap d n = Some nb"
    and h': "heap d' = ((heap d)(l := None))(n \<mapsto> nb')"
    and f: "fBack d' = n" "fFront d' = fFront d"
    and l: "fNext nb' = 0" "fPrev nb' = fPrev nb"
  shows "chain_inv d' (bs0 @ [n])"
proof -
  from ci have dom: "dom (heap d) = set (bs0 @ [n, l])" and dist: "distinct (bs0 @ [n, l])"
    by (simp_all add: chain_inv_def)
  from ci have "dlseg (heap d) 0 ((bs0 @ [n]) @ [l]) 0" by (simp add: chain_inv_def)
  then have "dlseg (heap d) 0 (bs0 @ [n]) l" unfolding dlseg_snoc [of _ _ "bs0 @ [n]"] by simp
  with nb have seg: "dlseg (heap d) 0 bs0 n" and pv: "fPrev nb = (if bs0 = [] then 0 else last bs0)"
    by (auto simp: dlseg_snoc)
  have "dlseg (heap d') 0 bs0 n = dlseg (heap d) 0 bs0 n"
    by (rule dlseg_frame) (use dist h' in auto)
  with seg have "dlseg (heap d') 0 (bs0 @ [n]) 0"
    using h' l pv by (auto simp: dlseg_snoc)
  moreover have "dom (heap d') = set (bs0 @ [n])"
    using dom dist h' by auto
  moreover have "fFront d' = hd0 (bs0 @ [n])"
    using f ci by (cases bs0) (simp_all add: chain_inv_def)
  ultimately show ?thesis
    using ci f by (auto simp: chain_inv_def)
qed

subsection \<open>The cases of each operation on a well-formed chain\<close>

lemma push_back_chain_cases:
  assumes ci: "chain_inv d bs" and a: "a \<noteq> 0" "heap d a = None"
  obtains
    (first) "bs = []"
      "push_back a d = Inr (start a, d\<lparr>fCount := fCount d + 1, fFront := a, fBack := a,
         heap := (heap d)(a \<mapsto> \<lparr>fNext = 0, fPrev = 0, fBegin = start a,
                  fEnd = start a + fElemSize d,
                  fStop = a + block_bytes (fAllocCount d) (fElemSize d)\<rparr>)\<rparr>)"
  | (init) bs0 l lb where "bs = bs0 @ [l]" "heap d l = Some lb" "fBegin lb = 0"
      "push_back a d = Inr (start l, d\<lparr>fCount := fCount d + 1,
         heap := (heap d)(l \<mapsto> lb\<lparr>fBegin := start l, fEnd := start l + fElemSize d\<rparr>)\<rparr>)"
  | (room) bs0 l lb where "bs = bs0 @ [l]" "heap d l = Some lb" "fBegin lb \<noteq> 0"
      "fEnd lb + fElemSize d \<le> fStop lb"
      "push_back a d = Inr (fEnd lb, d\<lparr>fCount := fCount d + 1,
         heap := (heap d)(l \<mapsto> lb\<lparr>fEnd := fEnd lb + fElemSize d\<rparr>)\<rparr>)"
  | (grow) bs0 l lb where "bs = bs0 @ [l]" "heap d l = Some lb" "fBegin lb \<noteq> 0"
      "fStop lb < fEnd lb + fElemSize d"
      "push_back a d = Inr (start a, d\<lparr>fCount := fCount d + 1, fBack := a,
         heap := (heap d)(l \<mapsto> lb\<lparr>fNext := a\<rparr>,
                  a \<mapsto> \<lparr>fNext = 0, fPrev = l, fBegin = start a,
                  fEnd = start a + fElemSize d,
                  fStop = a + block_bytes (fAllocCount d) (fElemSize d)\<rparr>)\<rparr>)"
proof (cases bs rule: rev_cases)
  case Nil
  with ci have "fBack d = 0" by (simp add: chain_inv_NilD)
  from push_back_first [OF this a(1)] Nil show ?thesis by (rule first [rotated])
next
  case (snoc bs0 l)
  from chain_inv_lastD [OF ci [unfolded snoc]] obtain lb where
    l: "fBack d = l" "l \<noteq> 0" "heap d l = Some lb"
    by blast
  from l(3) a(2) have al: "a \<noteq> l" by auto
  show ?thesis
  proof (cases "fBegin lb = 0")
    case True
    from push_back_init [OF l True] show ?thesis by (rule init [OF snoc l(3) True])
  next
    case False
    show ?thesis
    proof (cases "fEnd lb + fElemSize d \<le> fStop lb")
      case True
      from push_back_room [OF l False True] show ?thesis by (rule room [OF snoc l(3) False True])
    next
      case nr: False
      then have "fStop lb < fEnd lb + fElemSize d" by simp
      from this push_back_grow [OF l False this a(1) al] show ?thesis
        by (rule grow [OF snoc l(3) False])
    qed
  qed
qed

lemma push_front_chain_cases:
  assumes ci: "chain_inv d bs" and a: "a \<noteq> 0" "heap d a = None"
  obtains
    (first) "bs = []"
      "push_front a d = Inr (a + block_bytes (fAllocCount d) (fElemSize d) - fElemSize d,
         d\<lparr>fCount := fCount d + 1, fFront := a, fBack := a,
         heap := (heap d)(a \<mapsto> \<lparr>fNext = 0, fPrev = 0,
                  fBegin = a + block_bytes (fAllocCount d) (fElemSize d) - fElemSize d,
                  fEnd = a + block_bytes (fAllocCount d) (fElemSize d),
                  fStop = a + block_bytes (fAllocCount d) (fElemSize d)\<rparr>)\<rparr>)"
  | (init) f rest fb where "bs = f # rest" "heap d f = Some fb" "fBegin fb = 0"
      "push_front a d = Inr (fStop fb - fElemSize d, d\<lparr>fCount := fCount d + 1,
         heap := (heap d)(f \<mapsto> fb\<lparr>fEnd := fStop fb, fBegin := fStop fb - fElemSize d\<rparr>)\<rparr>)"
  | (room) f rest fb where "bs = f # rest" "heap d f = Some fb" "fBegin fb \<noteq> 0"
      "start f \<le> fBegin fb - fElemSize d"
      "push_front a d = Inr (fBegin fb - fElemSize d, d\<lparr>fCount := fCount d + 1,
         heap := (heap d)(f \<mapsto> fb\<lparr>fBegin := fBegin fb - fElemSize d\<rparr>)\<rparr>)"
  | (grow) f rest fb where "bs = f # rest" "heap d f = Some fb" "fBegin fb \<noteq> 0"
      "fBegin fb - fElemSize d < start f"
      "push_front a d = Inr (a + block_bytes (fAllocCount d) (fElemSize d) - fElemSize d,
         d\<lparr>fCount := fCount d + 1, fFront := a,
         heap := (heap d)(f \<mapsto> fb\<lparr>fPrev := a\<rparr>,
                  a \<mapsto> \<lparr>fNext = f, fPrev = 0,
                  fBegin = a + block_bytes (fAllocCount d) (fElemSize d) - fElemSize d,
                  fEnd = a + block_bytes (fAllocCount d) (fElemSize d),
                  fStop = a + block_bytes (fAllocCount d) (fElemSize d)\<rparr>)\<rparr>)"
proof (cases bs)
  case Nil
  with ci have "fFront d = 0" by (simp add: chain_inv_NilD)
  from push_front_first [OF this a(1)] Nil show ?thesis by (rule first [rotated])
next
  case (Cons f rest)
  from chain_inv_hdD [OF ci [unfolded Cons]] obtain fb where
    f: "fFront d = f" "f \<noteq> 0" "heap d f = Some fb"
    by blast
  from f(3) a(2) have af: "a \<noteq> f" by auto
  show ?thesis
  proof (cases "fBegin fb = 0")
    case True
    from push_front_init [OF f True] show ?thesis by (rule init [OF Cons f(3) True])
  next
    case False
    show ?thesis
    proof (cases "start f \<le> fBegin fb - fElemSize d")
      case True
      from push_front_room [OF f False True] show ?thesis by (rule room [OF Cons f(3) False True])
    next
      case nr: False
      then have "fBegin fb - fElemSize d < start f" by simp
      from this push_front_grow [OF f False this a(1) af] show ?thesis
        by (rule grow [OF Cons f(3) False])
    qed
  qed
qed

lemma pop_front_chain_cases:
  assumes ci: "chain_inv d bs"
  obtains
    (stuck) "bs = [] \<or> (\<exists>f fb. bs = [f] \<and> heap d f = Some fb \<and> fBegin fb = 0)"
      "\<And>d'. pop_front dbg d \<noteq> Inr d'"
  | (live) f rest fb where "bs = f # rest" "heap d f = Some fb" "fBegin fb \<noteq> 0"
      "pop_front dbg d =
         SkASSERT dbg (0 < fCount d) (SkASSERT dbg (fBegin fb + fElemSize d \<le> fEnd fb)
           (Inr (d\<lparr>fCount := fCount d - 1,
              heap := (heap d)(f \<mapsto>
                (if fBegin fb + fElemSize d < fEnd fb
                 then fb\<lparr>fBegin := fBegin fb + fElemSize d\<rparr>
                 else fb\<lparr>fBegin := 0, fEnd := 0\<rparr>))\<rparr>)))"
  | (advance) f n rest fb nb where "bs = f # n # rest" "heap d f = Some fb" "fBegin fb = 0"
      "heap d n = Some nb"
      "pop_front dbg d =
         SkASSERT dbg (0 < fCount d) (SkASSERT dbg (fBegin nb + fElemSize d \<le> fEnd nb)
           (Inr (d\<lparr>fCount := fCount d - 1, fFront := n, freed := f # freed d,
              heap := ((heap d)(f := None))(n \<mapsto>
                (if fBegin nb + fElemSize d < fEnd nb
                 then nb\<lparr>fPrev := 0, fBegin := fBegin nb + fElemSize d\<rparr>
                 else nb\<lparr>fPrev := 0, fBegin := 0, fEnd := 0\<rparr>))\<rparr>)))"
proof (cases bs)
  case Nil
  with ci have "fFront d = 0" by (simp add: chain_inv_NilD)
  with Nil show ?thesis by (intro stuck) (simp_all add: pop_front_errors)
next
  case (Cons f rest)
  from chain_inv_hdD [OF ci [unfolded Cons]] obtain fb where
    f: "fFront d = f" "f \<noteq> 0" "heap d f = Some fb" "fNext fb = hd0 rest" "f \<notin> set rest"
    by blast
  show ?thesis
  proof (cases "fBegin fb = 0")
    case False
    from pop_front_live [OF f(1-3) False] show ?thesis by (rule live [OF Cons f(3) False])
  next
    case True
    show ?thesis
    proof (cases rest)
      case Nil
      with f have "fNext fb = 0" by simp
      from pop_front_errors(3) [OF _ True this] f Cons Nil True show ?thesis
        by (intro stuck) auto
    next
      case (Cons n rest')
      with ci \<open>bs = f # rest\<close> f obtain nb where n: "fNext fb = n" "n \<noteq> 0" "n \<noteq> f"
          "heap d n = Some nb"
        by (auto simp: chain_inv_def split: option.splits)
      from pop_front_advance [OF f(1-3) True n] show ?thesis
        using \<open>bs = f # rest\<close> Cons by (intro advance [OF _ f(3) True n(4)]) simp_all
    qed
  qed
qed

lemma pop_back_chain_cases:
  assumes ci: "chain_inv d bs"
  obtains
    (stuck) "bs = [] \<or> (\<exists>l lb. bs = [l] \<and> heap d l = Some lb \<and> fEnd lb = 0)"
      "\<And>d'. pop_back dbg d \<noteq> Inr d'"
  | (live) bs0 l lb where "bs = bs0 @ [l]" "heap d l = Some lb" "fEnd lb \<noteq> 0"
      "pop_back dbg d =
         SkASSERT dbg (0 < fCount d) (SkASSERT dbg (fBegin lb \<le> fEnd lb - fElemSize d)
           (Inr (d\<lparr>fCount := fCount d - 1,
              heap := (heap d)(l \<mapsto>
                (if fBegin lb < fEnd lb - fElemSize d
                 then lb\<lparr>fEnd := fEnd lb - fElemSize d\<rparr>
                 else lb\<lparr>fBegin := 0, fEnd := 0\<rparr>))\<rparr>)))"
  | (advance) bs0 n l lb nb where "bs = bs0 @ [n, l]" "heap d l = Some lb" "fEnd lb = 0"
      "heap d n = Some nb"
      "pop_back dbg d =
         SkASSERT dbg (0 < fCount d) (SkASSERT dbg (fBegin nb \<le> fEnd nb - fElemSize d)
           (Inr (d\<lparr>fCount := fCount d - 1, fBack := n, freed := l # freed d,
              heap := ((heap d)(l := None))(n \<mapsto>
                (if fBegin nb < fEnd nb - fElemSize d
                 then nb\<lparr>fNext := 0, fEnd := fEnd nb - fElemSize d\<rparr>
                 else nb\<lparr>fNext := 0, fBegin := 0, fEnd := 0\<rparr>))\<rparr>)))"
proof (cases bs rule: rev_cases)
  case Nil
  with ci have "fBack d = 0" by (simp add: chain_inv_NilD)
  with Nil show ?thesis by (intro stuck) (simp_all add: pop_back_errors)
next
  case (snoc bs1 l)
  from chain_inv_lastD [OF ci [unfolded snoc]] obtain lb where
    l: "fBack d = l" "l \<noteq> 0" "heap d l = Some lb" "fPrev lb = last0 bs1" "l \<notin> set bs1"
    by blast
  show ?thesis
  proof (cases "fEnd lb = 0")
    case False
    from pop_back_live [OF l(1-3) False] show ?thesis by (rule live [OF snoc l(3) False])
  next
    case True
    show ?thesis
    proof (cases bs1 rule: rev_cases)
      case Nil
      with l have "fPrev lb = 0" by simp
      from pop_back_errors(3) [OF _ True this] l snoc Nil True show ?thesis
        by (intro stuck) auto
    next
      case (snoc bs0 n)
      from ci \<open>bs = bs1 @ [l]\<close> snoc have "n \<in> dom (heap d)" "n \<noteq> 0" "n \<noteq> l"
        by (auto simp: chain_inv_def)
      with l snoc obtain nb where n: "fPrev lb = n" "n \<noteq> 0" "n \<noteq> l" "heap d n = Some nb"
        by auto
      from pop_back_advance [OF l(1-3) True n] show ?thesis
        using \<open>bs = bs1 @ [l]\<close> snoc by (intro advance [OF _ l(3) True n(4)]) simp_all
    qed
  qed
qed

subsection \<open>The effect of a successful operation\<close>

lemma push_back_effect:
  assumes ci: "chain_inv d bs" and a: "a \<noteq> 0" "heap d a = None"
    and op: "push_back a d = Inr (p, d')"
  obtains
    (first) "bs = []" "p = start a"
      "heap d' = (heap d)(a \<mapsto> \<lparr>fNext = 0, fPrev = 0, fBegin = start a,
                  fEnd = start a + fElemSize d,
                  fStop = a + block_bytes (fAllocCount d) (fElemSize d)\<rparr>)"
      "fFront d' = a" "fBack d' = a"
  | (init) bs0 l lb where "bs = bs0 @ [l]" "heap d l = Some lb" "fBegin lb = 0" "p = start l"
      "heap d' = (heap d)(l \<mapsto> lb\<lparr>fBegin := start l, fEnd := start l + fElemSize d\<rparr>)"
      "fFront d' = fFront d" "fBack d' = fBack d"
  | (room) bs0 l lb where "bs = bs0 @ [l]" "heap d l = Some lb" "fBegin lb \<noteq> 0"
      "fEnd lb + fElemSize d \<le> fStop lb" "p = fEnd lb"
      "heap d' = (heap d)(l \<mapsto> lb\<lparr>fEnd := fEnd lb + fElemSize d\<rparr>)"
      "fFront d' = fFront d" "fBack d' = fBack d"
  | (grow) bs0 l lb where "bs = bs0 @ [l]" "heap d l = Some lb" "fBegin lb \<noteq> 0"
      "fStop lb < fEnd lb + fElemSize d" "p = start a"
      "heap d' = (heap d)(l \<mapsto> lb\<lparr>fNext := a\<rparr>,
                  a \<mapsto> \<lparr>fNext = 0, fPrev = l, fBegin = start a,
                  fEnd = start a + fElemSize d,
                  fStop = a + block_bytes (fAllocCount d) (fElemSize d)\<rparr>)"
      "fFront d' = fFront d" "fBack d' = a"
  using ci a
proof (cases rule: push_back_chain_cases)
  case first: first
  from first(2) op show ?thesis by (intro that(1) [OF first(1)]) auto
next
  case (init bs0 l lb)
  from init(4) op show ?thesis by (intro that(2) [OF init(1-3)]) auto
next
  case (room bs0 l lb)
  from room(5) op show ?thesis by (intro that(3) [OF room(1-4)]) auto
next
  case (grow bs0 l lb)
  from grow(5) op show ?thesis by (intro that(4) [OF grow(1-4)]) auto
qed

lemma push_front_effect:
  assumes ci: "chain_inv d bs" and a: "a \<noteq> 0" "heap d a = None"
    and op: "push_front a d = Inr (p, d')"
  obtains
    (first) "bs = []" "p = a + block_bytes (fAllocCount d) (fElemSize d) - fElemSize d"
      "heap d' = (heap d)(a \<mapsto> \<lparr>fNext = 0, fPrev = 0,
                  fBegin = a + block_bytes (fAllocCount d) (fElemSize d) - fElemSize d,
                  fEnd = a + block_bytes (fAllocCount d) (fElemSize d),
                  fStop = a + block_bytes (fAllocCount d) (fElemSize d)\<rparr>)"
      "fFront d' = a" "fBack d' = a"
  | (init) f rest fb where "bs = f # rest" "heap d f = Some fb" "fBegin fb = 0"
      "p = fStop fb - fElemSize d"
      "heap d' = (heap d)(f \<mapsto> fb\<lparr>fEnd := fStop fb, fBegin := fStop fb - fElemSize d\<rparr>)"
      "fFront d' = fFront d" "fBack d' = fBack d"
  | (room) f rest fb where "bs = f # rest" "heap d f = Some fb" "fBegin fb \<noteq> 0"
      "start f \<le> fBegin fb - fElemSize d" "p = fBegin fb - fElemSize d"
      "heap d' = (heap d)(f \<mapsto> fb\<lparr>fBegin := fBegin fb - fElemSize d\<rparr>)"
      "fFront d' = fFront d" "fBack d' = fBack d"
  | (grow) f rest fb where "bs = f # rest" "heap d f = Some fb" "fBegin fb \<noteq> 0"
      "fBegin fb - fElemSize d < start f"
      "p = a + block_bytes (fAllocCount d) (fElemSize d) - fElemSize d"
      "heap d' = (heap d)(f \<mapsto> fb\<lparr>fPrev := a\<rparr>,
                  a \<mapsto> \<lparr>fNext = f, fPrev = 0,
                  fBegin = a + block_bytes (fAllocCount d) (fElemSize d) - fElemSize d,
                  fEnd = a + block_bytes (fAllocCount d) (fElemSize d),
                  fStop = a + block_bytes (fAllocCount d) (fElemSize d)\<rparr>)"
      "fFront d' = a" "fBack d' = fBack d"
  using ci a
proof (cases rule: push_front_chain_cases)
  case first: first
  from first(2) op show ?thesis by (intro that(1) [OF first(1)]) auto
next
  case (init f rest fb)
  from init(4) op show ?thesis by (intro that(2) [OF init(1-3)]) auto
next
  case (room f rest fb)
  from room(5) op show ?thesis by (intro that(3) [OF room(1-4)]) auto
next
  case (grow f rest fb)
  from grow(5) op show ?thesis by (intro that(4) [OF grow(1-4)]) auto
qed

lemma pop_front_effect:
  assumes ci: "chain_inv d bs" and op: "pop_front dbg d = Inr d'"
  obtains
    (live) f rest fb where "bs = f # rest" "heap d f = Some fb" "fBegin fb \<noteq> 0"
      "heap d' = (heap d)(f \<mapsto>
                (if fBegin fb + fElemSize d < fEnd fb
                 then fb\<lparr>fBegin := fBegin fb + fElemSize d\<rparr>
                 else fb\<lparr>fBegin := 0, fEnd := 0\<rparr>))"
      "fFront d' = fFront d" "fBack d' = fBack d" "freed d' = freed d"
  | (advance) f n rest fb nb where "bs = f # n # rest" "heap d f = Some fb" "fBegin fb = 0"
      "heap d n = Some nb"
      "heap d' = ((heap d)(f := None))(n \<mapsto>
                (if fBegin nb + fElemSize d < fEnd nb
                 then nb\<lparr>fPrev := 0, fBegin := fBegin nb + fElemSize d\<rparr>
                 else nb\<lparr>fPrev := 0, fBegin := 0, fEnd := 0\<rparr>))"
      "fFront d' = n" "fBack d' = fBack d" "freed d' = f # freed d"
  using ci
proof (cases rule: pop_front_chain_cases [where dbg = dbg])
  case stuck
  with op show ?thesis by simp
next
  case (live f rest fb)
  from op [unfolded live(4)] show ?thesis
    by (intro that(1) [OF live(1-3)]) (auto simp: SkASSERT_eq_Inr)
next
  case (advance f n rest fb nb)
  from op [unfolded advance(5)] show ?thesis
    by (intro that(2) [OF advance(1-4)]) (auto simp: SkASSERT_eq_Inr)
qed

lemma pop_back_effect:
  assumes ci: "chain_inv d bs" and op: "pop_back dbg d = Inr d'"
  obtains
    (live) bs0 l lb where "bs = bs0 @ [l]" "heap d l = Some lb" "fEnd lb \<noteq> 0"
      "heap d' = (heap d)(l \<mapsto>
                (if fBegin lb < fEnd lb - fElemSize d
                 then lb\<lparr>fEnd := fEnd lb - fElemSize d\<rparr>
                 else lb\<lparr>fBegin := 0, fEnd := 0\<rparr>))"
      "fFront d' = fFront d" "fBack d' = fBack d" "freed d' = freed d"
  | (advance) bs0 n l lb nb where "bs = bs0 @ [n, l]" "heap d l = Some lb" "fEnd lb = 0"
      "heap d n = Some nb"
      "heap d' = ((heap d)(l := None))(n \<mapsto>
                (if fBegin nb < fEnd nb - fElemSize d
                 then nb\<lparr>fNext := 0, fEnd := fEnd nb - fElemSize d\<rparr>
                 else nb\<lparr>fNext := 0, fBegin := 0, fEnd := 0\<rparr>))"
      "fFront d' = fFront d" "fBack d' = n" "freed d' = l # freed d"
  using ci
proof (cases rule: pop_back_chain_cases [where dbg = dbg])
  case stuck
  with op show ?thesis by simp
next
  case (live bs0 l lb)
  from op [unfolded live(4)] show ?thesis
    by (intro that(1) [OF live(1-3)]) (auto simp: SkASSERT_eq_Inr)
next
  case (advance bs0 n l lb nb)
  from op [unfolded advance(5)] show ?thesis
    by (intro that(2) [OF advance(1-4)]) (auto simp: SkASSERT_eq_Inr)
qed

lemma push_back_fields:
  assumes ci: "chain_inv d bs" and a: "a \<noteq> 0" "heap d a = None"
    and op: "push_back a d = Inr (p, d')"
  shows "fElemSize d' = fElemSize d \<and> fAllocCount d' = fAllocCount d \<and>
   fInitialStorage d' = fInitialStorage d \<and> fCount d' = fCount d + 1 \<and> freed d' = freed d"
  using ci a
proof (cases rule: push_back_chain_cases)
  case first: first
  from first(2) op show ?thesis by auto
next
  case (init bs0 l lb)
  from init(4) op show ?thesis by auto
next
  case (room bs0 l lb)
  from room(5) op show ?thesis by auto
next
  case (grow bs0 l lb)
  from grow(5) op show ?thesis by auto
qed

lemma push_front_fields:
  assumes ci: "chain_inv d bs" and a: "a \<noteq> 0" "heap d a = None"
    and op: "push_front a d = Inr (p, d')"
  shows "fElemSize d' = fElemSize d \<and> fAllocCount d' = fAllocCount d \<and>
   fInitialStorage d' = fInitialStorage d \<and> fCount d' = fCount d + 1 \<and> freed d' = freed d"
  using ci a
proof (cases rule: push_front_chain_cases)
  case first: first
  from first(2) op show ?thesis by auto
next
  case (init f rest fb)
  from init(4) op show ?thesis by auto
next
  case (room f rest fb)
  from room(5) op show ?thesis by auto
next
  case (grow f rest fb)
  from grow(5) op show ?thesis by auto
qed

lemma pop_front_fields:
  assumes ci: "chain_inv d bs" and op: "pop_front dbg d = Inr d'"
  shows "fElemSize d' = fElemSize d \<and> fAllocCount d' = fAllocCount d \<and>
   fInitialStorage d' = fInitialStorage d \<and> fCount d' = fCount d - 1"
  using ci
proof (cases rule: pop_front_chain_cases [where dbg = dbg])
  case stuck
  with op show ?thesis by simp
next
  case (live f rest fb)
  from op [unfolded live(4)] show ?thesis by (auto simp: SkASSERT_eq_Inr)
next
  case (advance f n rest fb nb)
  from op [unfolded advance(5)] show ?thesis by (auto simp: SkASSERT_eq_Inr)
qed

lemma pop_back_fields:
  assumes ci: "chain_inv d bs" and op: "pop_back dbg d = Inr d'"
  shows "fElemSize d' = fElemSize d \<and> fAllocCount d' = fAllocCount d \<and>
   fInitialStorage d' = fInitialStorage d \<and> fCount d' = fCount d - 1"
  using ci
proof (cases rule: pop_back_chain_cases [where dbg = dbg])
  case stuck
  with op show ?thesis by simp
next
  case (live bs0 l lb)
  from op [unfolded live(4)] show ?thesis by (auto simp: SkASSERT_eq_Inr)
next
  case (advance bs0 n l lb nb)
  from op [unfolded advance(5)] show ?thesis by (auto simp: SkASSERT_eq_Inr)
qed

subsection \<open>Every operation keeps the chain well-formed\<close>

lemma push_back_chain:
  assumes ci: "chain_inv d bs" and a: "a \<noteq> 0" "heap d a = None"
    and op: "push_back a d = Inr (p, d')"
  shows "\<exists>bs'. chain_inv d' bs'"
  using ci a op
proof (cases rule: push_back_effect)
  case first
  from ci [unfolded first(1)] a(1) first(3-5) have "chain_inv d' [a]"
    by (rule chain_inv_first) simp_all
  then show ?thesis ..
next
  case (init bs0 l lb)
  from ci init(2,5-7) have "chain_inv d' bs"
    by (rule chain_inv_content) simp_all
  then show ?thesis ..
next
  case (room bs0 l lb)
  from ci room(2,6-8) have "chain_inv d' bs"
    by (rule chain_inv_content) simp_all
  then show ?thesis ..
next
  case (grow bs0 l lb)
  from ci [unfolded grow(1)] grow(2) a grow(6-8) have "chain_inv d' (bs0 @ [l, a])"
    by (rule chain_inv_grow_back) simp_all
  then show ?thesis ..
qed

lemma push_front_chain:
  assumes ci: "chain_inv d bs" and a: "a \<noteq> 0" "heap d a = None"
    and op: "push_front a d = Inr (p, d')"
  shows "\<exists>bs'. chain_inv d' bs'"
  using ci a op
proof (cases rule: push_front_effect)
  case first
  from ci [unfolded first(1)] a(1) first(3-5) have "chain_inv d' [a]"
    by (rule chain_inv_first) simp_all
  then show ?thesis ..
next
  case (init f rest fb)
  from ci init(2,5-7) have "chain_inv d' bs"
    by (rule chain_inv_content) simp_all
  then show ?thesis ..
next
  case (room f rest fb)
  from ci room(2,6-8) have "chain_inv d' bs"
    by (rule chain_inv_content) simp_all
  then show ?thesis ..
next
  case (grow f rest fb)
  from ci [unfolded grow(1)] grow(2) a grow(6-8) have "chain_inv d' (a # f # rest)"
    by (rule chain_inv_grow_front) simp_all
  then show ?thesis ..
qed

lemma pop_front_chain:
  assumes ci: "chain_inv d bs" and op: "pop_front dbg d = Inr d'"
  shows "\<exists>bs'. chain_inv d' bs'"
  using ci op
proof (cases rule: pop_front_effect)
  case (live f rest fb)
  from ci live(2,4-6) have "chain_inv d' bs"
    by (rule chain_inv_content) simp_all
  then show ?thesis ..
next
  case (advance f n rest fb nb)
  from ci [unfolded advance(1)] advance(4-7) have "chain_inv d' (n # rest)"
    by (rule chain_inv_advance_front) simp_all
  then show ?thesis ..
qed

lemma pop_back_chain:
  assumes ci: "chain_inv d bs" and op: "pop_back dbg d = Inr d'"
  shows "\<exists>bs'. chain_inv d' bs'"
  using ci op
proof (cases rule: pop_back_effect)
  case (live bs0 l lb)
  from ci live(2,4-6) have "chain_inv d' bs"
    by (rule chain_inv_content) simp_all
  then show ?thesis ..
next
  case (advance bs0 n l lb nb)
  from ci [unfolded advance(1)] advance(4,5,7,6) have "chain_inv d' (bs0 @ [n])"
    by (rule chain_inv_advance_back) simp_all
  then show ?thesis ..
qed

lemma SkDeque_new_chain: "SkDeque_new dbg e n = Inr d \<Longrightarrow> chain_inv d []"
  by (auto simp: SkDeque_new_def SkASSERT_eq_Inr chain_inv_def)

lemma SkDeque_storage_chain:
  assumes c: "SkDeque_storage dbg e storage storageSize n = Inr d"
  shows "(storageSize < size_t (sizeof_Block + e) \<and> chain_inv d []) \<or>
         (size_t (sizeof_Block + e) \<le> storageSize \<and> chain_inv d [storage] \<and>
          heap d = [storage \<mapsto> init storage storageSize])"
proof (cases "storageSize \<ge> size_t (sizeof_Block + e)")
  case True
  with c show ?thesis
    by (auto simp: SkDeque_storage_def SkASSERT_eq_Inr chain_inv_def init_at_def store_def
        init_def split: if_splits)
next
  case False
  with c show ?thesis
    by (auto simp: SkDeque_storage_def SkASSERT_eq_Inr chain_inv_def)
qed

lemma reach_chain: "reach dbg d xs \<Longrightarrow> \<exists>bs. chain_inv d bs"
proof (induction rule: reach.induct)
  case (new elemSize allocCount d)
  then show ?case by (blast dest: SkDeque_new_chain)
next
  case (storage storage elemSize storageSize allocCount d)
  then show ?case by (blast dest: SkDeque_storage_chain)
next
  case (push_front d xs a p d')
  then obtain bs where "chain_inv d bs" "a \<noteq> 0" "heap d a = None"
    by (auto simp: alloc_ok_def)
  from push_front_chain [OF this push_front.hyps(3)] show ?case .
next
  case (push_back d xs a p d')
  then obtain bs where "chain_inv d bs" "a \<noteq> 0" "heap d a = None"
    by (auto simp: alloc_ok_def)
  from push_back_chain [OF this push_back.hyps(3)] show ?case .
next
  case (pop_front d xs d')
  then show ?case by (blast dest: pop_front_chain)
next
  case (pop_back d xs d')
  then show ?case by (blast dest: pop_back_chain)
qed

subsection \<open>numBlocksAllocated on a well-formed chain\<close>

lemma numBlocks_loop_chain:
  "dlseg h p bs 0 \<Longrightarrow> 0 \<notin> set bs \<Longrightarrow>
   numBlocks_loop h (hd0 bs) k = Some (Inr (k + int (length bs)))"
proof (induction bs arbitrary: p k)
  case Nil
  show ?case by (simp add: numBlocks_loop.simps)
next
  case (Cons a bs)
  from Cons.prems obtain b where b: "h a = Some b" "fNext b = hd0 bs" "dlseg h a bs 0" "a \<noteq> 0"
    by (auto simp: hd0_def split: option.splits list.splits)
  from Cons.IH [OF b(3), of "k + 1"] Cons.prems(2) b show ?case
    by (subst numBlocks_loop.simps) simp
qed

lemma numBlocksAllocated_chain:
  "chain_inv d bs \<Longrightarrow> numBlocksAllocated d = Some (Inr (int (length bs)))"
  using numBlocks_loop_chain [of "heap d" 0 bs 0]
  by (simp add: chain_inv_def numBlocksAllocated_def)

lemma chain_inv_card: "chain_inv d bs \<Longrightarrow> card (dom (heap d)) = length bs"
  by (simp add: chain_inv_def distinct_card)




section \<open>The occupancy of the Blocks\<close>

lemma sizeof_Block_pos: "0 < sizeof_Block"
  by (simp add: sizeof_Block_def)

lemma block_bytes_fit:
  assumes "sizes_fit d"
  shows "block_bytes (fAllocCount d) (fElemSize d) = sizeof_Block + fAllocCount d * fElemSize d"
proof (cases "fElemSize d = 0")
  case True
  then show ?thesis by (simp add: block_bytes_def size_t_def sizeof_Block_def)
next
  case False
  with assms have e: "1 \<le> fElemSize d" and n: "1 \<le> fAllocCount d"
    and lt: "sizeof_Block + fAllocCount d * fElemSize d < 2 ^ 64"
    by (simp_all add: sizes_fit_def)
  from e n have "fAllocCount d * 1 \<le> fAllocCount d * fElemSize d"
    by (intro mult_left_mono) simp_all
  with lt sizeof_Block_pos have "fAllocCount d < 2 ^ 64" by simp
  with n have "size_t (fAllocCount d) = fAllocCount d" by (simp add: size_t_def)
  moreover from e n have "0 \<le> fAllocCount d * fElemSize d" by simp
  with lt sizeof_Block_pos
  have "size_t (sizeof_Block + fAllocCount d * fElemSize d) = sizeof_Block + fAllocCount d * fElemSize d"
    by (simp add: size_t_def)
  ultimately show ?thesis by (simp add: block_bytes_def)
qed

lemma block_bytes_room:
  assumes "sizes_fit d"
  shows "sizeof_Block + fElemSize d \<le> block_bytes (fAllocCount d) (fElemSize d)"
proof -
  from assms have "1 * fElemSize d \<le> fAllocCount d * fElemSize d"
    by (intro mult_right_mono) (simp_all add: sizes_fit_def)
  with block_bytes_fit [OF assms] show ?thesis by simp
qed

lemma block_ok_links [simp]:
  "block_ok e a (b\<lparr>fNext := x\<rparr>) = block_ok e a b"
  "block_ok e a (b\<lparr>fPrev := x\<rparr>) = block_ok e a b"
  by (simp_all add: block_ok_def)

lemma block_ok_init:
  "0 < a \<Longrightarrow> start a + e \<le> a + sz \<Longrightarrow> block_ok e a (init a sz)"
  by (simp add: block_ok_def init_def)

lemma block_ok_push_back_init:
  "block_ok e a b \<Longrightarrow> 0 \<le> e \<Longrightarrow> block_ok e a (b\<lparr>fBegin := start a, fEnd := start a + e\<rparr>)"
  using sizeof_Block_pos by (auto simp: block_ok_def start_def)

lemma block_ok_push_back_room:
  assumes "block_ok e a b" "fBegin b \<noteq> 0" "fEnd b + e \<le> fStop b" "0 \<le> e"
  shows "block_ok e a (b\<lparr>fEnd := fEnd b + e\<rparr>)"
proof -
  from assms have "e dvd (fEnd b - fBegin b) + e" by (simp add: block_ok_def)
  then have "e dvd fEnd b + e - fBegin b" by (simp add: algebra_simps)
  with assms sizeof_Block_pos show ?thesis by (auto simp: block_ok_def start_def)
qed

lemma block_ok_new_back:
  "0 < a \<Longrightarrow> 0 \<le> e \<Longrightarrow> start a + e \<le> s \<Longrightarrow>
   block_ok e a \<lparr>fNext = x, fPrev = y, fBegin = start a, fEnd = start a + e, fStop = s\<rparr>"
  using sizeof_Block_pos by (auto simp: block_ok_def start_def)

lemma block_ok_push_front_init:
  "block_ok e a b \<Longrightarrow> 0 \<le> e \<Longrightarrow> block_ok e a (b\<lparr>fEnd := fStop b, fBegin := fStop b - e\<rparr>)"
  using sizeof_Block_pos by (auto simp: block_ok_def start_def)

lemma block_ok_push_front_room:
  assumes "block_ok e a b" "fBegin b \<noteq> 0" "start a \<le> fBegin b - e" "0 \<le> e"
  shows "block_ok e a (b\<lparr>fBegin := fBegin b - e\<rparr>)"
proof -
  from assms have "e dvd (fEnd b - fBegin b) + e" by (simp add: block_ok_def)
  then have "e dvd fEnd b - (fBegin b - e)" by (simp add: algebra_simps)
  with assms sizeof_Block_pos show ?thesis by (auto simp: block_ok_def start_def)
qed

lemma block_ok_new_front:
  "0 < a \<Longrightarrow> 0 \<le> e \<Longrightarrow> start a + e \<le> s \<Longrightarrow>
   block_ok e a \<lparr>fNext = x, fPrev = y, fBegin = s - e, fEnd = s, fStop = s\<rparr>"
  using sizeof_Block_pos by (auto simp: block_ok_def start_def)

lemma block_ok_pop_front:
  assumes "block_ok e a b" "0 \<le> e"
  shows "block_ok e a (if fBegin b + e < fEnd b then b\<lparr>fBegin := fBegin b + e\<rparr>
                       else b\<lparr>fBegin := 0, fEnd := 0\<rparr>)"
proof (cases "fBegin b + e < fEnd b")
  case False
  with assms show ?thesis by (simp add: block_ok_def)
next
  case True
  with assms have nz: "fBegin b \<noteq> 0" by (auto simp: block_ok_def)
  with assms have "e dvd (fEnd b - fBegin b) - e" by (simp add: block_ok_def)
  then have "e dvd fEnd b - (fBegin b + e)" by (simp add: algebra_simps)
  with assms nz True sizeof_Block_pos show ?thesis by (auto simp: block_ok_def start_def)
qed

lemma block_ok_pop_back:
  assumes "block_ok e a b" "0 \<le> e"
  shows "block_ok e a (if fBegin b < fEnd b - e then b\<lparr>fEnd := fEnd b - e\<rparr>
                       else b\<lparr>fBegin := 0, fEnd := 0\<rparr>)"
proof (cases "fBegin b < fEnd b - e")
  case False
  with assms show ?thesis by (simp add: block_ok_def)
next
  case True
  with assms have nz: "fBegin b \<noteq> 0" by (auto simp: block_ok_def)
  with assms have "e dvd (fEnd b - fBegin b) - e" by (simp add: block_ok_def)
  then have "e dvd fEnd b - e - fBegin b" by (simp add: algebra_simps)
  with assms nz True sizeof_Block_pos show ?thesis by (auto simp: block_ok_def start_def)
qed

lemma blocks_ok_upd:
  assumes "blocks_ok d" "fElemSize d' = fElemSize d"
    and "\<And>x b. heap d' x = Some b \<Longrightarrow> heap d x = Some b \<or> block_ok (fElemSize d) x b"
  shows "blocks_ok d'"
  using assms unfolding blocks_ok_def by metis

lemma blocks_okD: "blocks_ok d \<Longrightarrow> heap d a = Some b \<Longrightarrow> block_ok (fElemSize d) a b"
  by (simp add: blocks_ok_def)

lemma new_block_room:
  "sizes_fit d \<Longrightarrow> start a + fElemSize d \<le> a + block_bytes (fAllocCount d) (fElemSize d)"
  using block_bytes_room [of d] by (simp add: start_def)

lemma push_back_blocks_ok:
  assumes ci: "chain_inv d bs" and bo: "blocks_ok d" and sf: "sizes_fit d"
    and a: "0 < a" "heap d a = None" and op: "push_back a d = Inr (p, d')"
  shows "blocks_ok d'"
proof -
  from a have a0: "a \<noteq> 0" by simp
  from push_back_fields [OF ci a0 a(2) op] have fe: "fElemSize d' = fElemSize d" by simp
  from sf have e0: "0 \<le> fElemSize d" by (simp add: sizes_fit_def)
  from ci a0 a(2) op show ?thesis
  proof (cases rule: push_back_effect)
    case first
    show ?thesis
      by (rule blocks_ok_upd [OF bo fe])
        (auto simp: first(3) intro!: block_ok_new_back a e0 new_block_room sf split: if_splits)
  next
    case (init bs0 l lb)
    from blocks_okD [OF bo init(2)] e0 show ?thesis
      by (intro blocks_ok_upd [OF bo fe])
        (auto simp: init(5) intro!: block_ok_push_back_init split: if_splits)
  next
    case (room bs0 l lb)
    from blocks_okD [OF bo room(2)] e0 room(3,4) show ?thesis
      by (intro blocks_ok_upd [OF bo fe])
        (auto simp: room(6) intro!: block_ok_push_back_room split: if_splits)
  next
    case (grow bs0 l lb)
    from blocks_okD [OF bo grow(2)] show ?thesis
      by (intro blocks_ok_upd [OF bo fe])
        (auto simp: grow(6) intro!: block_ok_new_back a e0 new_block_room sf split: if_splits)
  qed
qed

lemma push_front_blocks_ok:
  assumes ci: "chain_inv d bs" and bo: "blocks_ok d" and sf: "sizes_fit d"
    and a: "0 < a" "heap d a = None" and op: "push_front a d = Inr (p, d')"
  shows "blocks_ok d'"
proof -
  from a have a0: "a \<noteq> 0" by simp
  from push_front_fields [OF ci a0 a(2) op] have fe: "fElemSize d' = fElemSize d" by simp
  from sf have e0: "0 \<le> fElemSize d" by (simp add: sizes_fit_def)
  from ci a0 a(2) op show ?thesis
  proof (cases rule: push_front_effect)
    case first
    show ?thesis
      by (rule blocks_ok_upd [OF bo fe])
        (auto simp: first(3) intro!: block_ok_new_front a e0 new_block_room sf split: if_splits)
  next
    case (init f rest fb)
    from blocks_okD [OF bo init(2)] e0 show ?thesis
      by (intro blocks_ok_upd [OF bo fe])
        (auto simp: init(5) intro!: block_ok_push_front_init split: if_splits)
  next
    case (room f rest fb)
    from blocks_okD [OF bo room(2)] e0 room(3,4) show ?thesis
      by (intro blocks_ok_upd [OF bo fe])
        (auto simp: room(6) intro!: block_ok_push_front_room split: if_splits)
  next
    case (grow f rest fb)
    from blocks_okD [OF bo grow(2)] show ?thesis
      by (intro blocks_ok_upd [OF bo fe])
        (auto simp: grow(6) intro!: block_ok_new_front a e0 new_block_room sf split: if_splits)
  qed
qed

lemma pop_front_blocks_ok:
  assumes ci: "chain_inv d bs" and bo: "blocks_ok d" and sf: "sizes_fit d"
    and op: "pop_front dbg d = Inr d'"
  shows "blocks_ok d'"
proof -
  from pop_front_fields [OF ci op] have fe: "fElemSize d' = fElemSize d" by simp
  from sf have e0: "0 \<le> fElemSize d" by (simp add: sizes_fit_def)
  from ci op show ?thesis
  proof (cases rule: pop_front_effect)
    case (live f rest fb)
    from block_ok_pop_front [OF blocks_okD [OF bo live(2)] e0] show ?thesis
      by (intro blocks_ok_upd [OF bo fe]) (auto simp: live(4) split: if_splits)
  next
    case (advance f n rest fb nb)
    from blocks_okD [OF bo advance(4)] have "block_ok (fElemSize d) n (nb\<lparr>fPrev := 0\<rparr>)"
      by simp
    from block_ok_pop_front [OF this e0] show ?thesis
      by (intro blocks_ok_upd [OF bo fe]) (auto simp: advance(5) split: if_splits)
  qed
qed

lemma pop_back_blocks_ok:
  assumes ci: "chain_inv d bs" and bo: "blocks_ok d" and sf: "sizes_fit d"
    and op: "pop_back dbg d = Inr d'"
  shows "blocks_ok d'"
proof -
  from pop_back_fields [OF ci op] have fe: "fElemSize d' = fElemSize d" by simp
  from sf have e0: "0 \<le> fElemSize d" by (simp add: sizes_fit_def)
  from ci op show ?thesis
  proof (cases rule: pop_back_effect)
    case (live bs0 l lb)
    from block_ok_pop_back [OF blocks_okD [OF bo live(2)] e0] show ?thesis
      by (intro blocks_ok_upd [OF bo fe]) (auto simp: live(4) split: if_splits)
  next
    case (advance bs0 n l lb nb)
    from blocks_okD [OF bo advance(4)] have "block_ok (fElemSize d) n (nb\<lparr>fNext := 0\<rparr>)"
      by simp
    from block_ok_pop_back [OF this e0] show ?thesis
      by (intro blocks_ok_upd [OF bo fe]) (auto simp: advance(5) split: if_splits)
  qed
qed

lemma SkDeque_new_fields:
  "SkDeque_new dbg e n = Inr d \<Longrightarrow>
   fElemSize d = e \<and> fAllocCount d = n \<and> fCount d = 0 \<and> heap d = Map.empty \<and>
   fInitialStorage d = 0 \<and> freed d = []"
  by (auto simp: SkDeque_new_def SkASSERT_eq_Inr)

lemma SkDeque_storage_fields:
  "SkDeque_storage dbg e storage storageSize n = Inr d \<Longrightarrow>
   fElemSize d = e \<and> fAllocCount d = n \<and> fCount d = 0 \<and>
   fInitialStorage d = storage \<and> freed d = []"
  by (auto simp: SkDeque_storage_def SkASSERT_eq_Inr init_at_def store_def bindE_eq_Inr
      Let_def split: if_splits)

lemma SkDeque_storage_blocks_ok:
  assumes c: "SkDeque_storage dbg e storage storageSize n = Inr d" and s: "0 \<le> storage"
    and sf: "sizes_fit d"
  shows "blocks_ok d"
proof -
  from SkDeque_storage_fields [OF c] have f: "fElemSize d = e" "fAllocCount d = n" by simp_all
  from SkDeque_storage_chain [OF c] show ?thesis
  proof
    assume "storageSize < size_t (sizeof_Block + e) \<and> chain_inv d []"
    then show ?thesis by (simp add: chain_inv_def blocks_ok_def)
  next
    assume *: "size_t (sizeof_Block + e) \<le> storageSize \<and> chain_inv d [storage] \<and>
      heap d = [storage \<mapsto> init storage storageSize]"
    with s have pos: "0 < storage" by (auto simp: chain_inv_def)
    from sf f have e0: "0 \<le> e" and n1: "1 \<le> n" and "sizeof_Block + n * e < 2 ^ 64"
      by (auto simp: sizes_fit_def)
    moreover from mult_right_mono [OF n1 e0] have "e \<le> n * e" by simp
    ultimately have "0 \<le> e" "sizeof_Block + e < 2 ^ 64" by simp_all
    with sizeof_Block_pos have "size_t (sizeof_Block + e) = sizeof_Block + e"
      by (simp add: size_t_def)
    with * have "start storage + e \<le> storage + storageSize" by (simp add: start_def)
    from block_ok_init [OF pos this] * f show ?thesis
      by (auto simp: blocks_ok_def split: if_splits)
  qed
qed


section \<open>The slots of a Block\<close>

lemma span:
  assumes "0 < e" "e dvd E - B" "B \<le> E"
  obtains m where "E = B + int m * e" "nat ((E - B) div e) = m"
proof -
  from assms(2) obtain k where k: "E - B = e * k" ..
  from assms(3) k have "0 \<le> e * k" by simp
  with assms(1) have "0 \<le> k" by (simp add: zero_le_mult_iff)
  from k assms(1) have "(E - B) div e = k" by simp
  with k \<open>0 \<le> k\<close> show ?thesis by (intro that [of "nat k"]) (simp_all add: algebra_simps)
qed

lemma slots_links [simp]:
  "slots e (b\<lparr>fNext := x\<rparr>) = slots e b" "slots e (b\<lparr>fPrev := x\<rparr>) = slots e b"
  by (simp_all add: slots_def)

lemma slots_empty [simp]: "fBegin b = 0 \<Longrightarrow> slots e b = []"
  by (simp add: slots_def)

lemma slots_one:
  "0 < e \<Longrightarrow> fBegin b \<noteq> 0 \<Longrightarrow> fEnd b = fBegin b + e \<Longrightarrow> slots e b = [fBegin b]"
  by (simp add: slots_def)

lemma slots_snoc:
  assumes "0 < e" "fBegin b \<noteq> 0" "e dvd fEnd b - fBegin b" "fBegin b \<le> fEnd b"
  shows "slots e (b\<lparr>fEnd := fEnd b + e\<rparr>) = slots e b @ [fEnd b]"
proof -
  from assms(1,3,4) obtain m where m: "fEnd b = fBegin b + int m * e"
      "nat ((fEnd b - fBegin b) div e) = m"
    by (rule span)
  from m(1) assms(1) have "nat ((fEnd b + e - fBegin b) div e) = Suc m"
    by (simp add: algebra_simps nat_add_distrib)
  with m assms(2) show ?thesis by (simp add: slots_def)
qed

lemma slots_Cons:
  assumes "0 < e" "fBegin b \<noteq> 0" "fBegin b - e \<noteq> 0" "e dvd fEnd b - fBegin b"
    "fBegin b \<le> fEnd b"
  shows "slots e (b\<lparr>fBegin := fBegin b - e\<rparr>) = (fBegin b - e) # slots e b"
proof -
  from assms(1,4,5) obtain m where m: "fEnd b = fBegin b + int m * e"
      "nat ((fEnd b - fBegin b) div e) = m"
    by (rule span)
  from m(1) assms(1) have "nat ((fEnd b - (fBegin b - e)) div e) = Suc m"
    by (simp add: algebra_simps nat_add_distrib)
  moreover have "map (\<lambda>k. fBegin b - e + int k * e) [0..<Suc m] =
      (fBegin b - e) # map (\<lambda>k. fBegin b + int k * e) [0..<m]"
    by (simp add: upt_conv_Cons map_Suc_upt [symmetric] algebra_simps del: upt_Suc)
  ultimately show ?thesis using m assms(2,3) by (simp add: slots_def del: upt_Suc)
qed

lemma block_ok_step:
  assumes "block_ok e a b" "0 < e" "fBegin b \<noteq> 0"
  shows "fBegin b + e \<le> fEnd b" "fEnd b \<noteq> 0" "0 < fBegin b"
proof -
  from assms have "e dvd fEnd b - fBegin b" "0 < fEnd b - fBegin b"
    by (simp_all add: block_ok_def)
  then have "e \<le> fEnd b - fBegin b" by (rule zdvd_imp_le)
  then show "fBegin b + e \<le> fEnd b" by simp
  from assms show "fEnd b \<noteq> 0" by (simp add: block_ok_def)
  from assms sizeof_Block_pos show "0 < fBegin b" by (simp add: block_ok_def start_def)
qed

lemma slots_pop_front:
  assumes ok: "block_ok e a b" and e: "0 < e" and nz: "fBegin b \<noteq> 0"
  shows "slots e b = fBegin b #
     slots e (if fBegin b + e < fEnd b then b\<lparr>fBegin := fBegin b + e\<rparr>
              else b\<lparr>fBegin := 0, fEnd := 0\<rparr>)"
proof (cases "fBegin b + e < fEnd b")
  case True
  let ?b = "b\<lparr>fBegin := fBegin b + e\<rparr>"
  from ok nz have "e dvd (fEnd b - fBegin b) - e" by (simp add: block_ok_def)
  then have "e dvd fEnd ?b - fBegin ?b" by (simp add: algebra_simps)
  moreover from block_ok_step(3) [OF ok e nz] e have "fBegin ?b \<noteq> 0" by simp
  ultimately have "slots e (?b\<lparr>fBegin := fBegin ?b - e\<rparr>) = (fBegin ?b - e) # slots e ?b"
    using e nz True by (intro slots_Cons) simp_all
  with True show ?thesis by simp
next
  case False
  with block_ok_step(1) [OF ok e nz] have "fEnd b = fBegin b + e" by simp
  from slots_one [OF e nz this] False show ?thesis by simp
qed

lemma slots_pop_back:
  assumes ok: "block_ok e a b" and e: "0 < e" and nz: "fBegin b \<noteq> 0"
  shows "slots e b =
     slots e (if fBegin b < fEnd b - e then b\<lparr>fEnd := fEnd b - e\<rparr>
              else b\<lparr>fBegin := 0, fEnd := 0\<rparr>) @ [fEnd b - e]"
proof (cases "fBegin b < fEnd b - e")
  case True
  let ?b = "b\<lparr>fEnd := fEnd b - e\<rparr>"
  from ok nz have "e dvd (fEnd b - fBegin b) - e" by (simp add: block_ok_def)
  then have "e dvd fEnd ?b - fBegin ?b" by (simp add: algebra_simps)
  then have "slots e (?b\<lparr>fEnd := fEnd ?b + e\<rparr>) = slots e ?b @ [fEnd ?b]"
    using e nz True by (intro slots_snoc) simp_all
  with True show ?thesis by simp
next
  case False
  with block_ok_step(1) [OF ok e nz] have "fEnd b = fBegin b + e" by simp
  from slots_one [OF e nz this] False this show ?thesis by simp
qed

lemma slots_Nil_iff:
  assumes "block_ok e a b" "0 < e"
  shows "slots e b = [] \<longleftrightarrow> fBegin b = 0"
proof (cases "fBegin b = 0")
  case True
  then show ?thesis by simp
next
  case False
  from slots_pop_front [OF assms False] False show ?thesis by simp
qed

lemma slots_within:
  assumes ok: "block_ok e a b" and e: "0 < e" and x: "x \<in> set (slots e b)"
  shows "fBegin b \<le> x \<and> x + e \<le> fEnd b \<and> fBegin b \<noteq> 0"
proof -
  from x have nz: "fBegin b \<noteq> 0" by (auto simp: slots_def split: if_splits)
  with ok e have "e dvd fEnd b - fBegin b" "fBegin b \<le> fEnd b" by (simp_all add: block_ok_def)
  with e obtain m where m: "fEnd b = fBegin b + int m * e" "nat ((fEnd b - fBegin b) div e) = m"
    by (rule span)
  from x nz m obtain k where k: "k < m" "x = fBegin b + int k * e"
    by (auto simp: slots_def)
  from k(1) have "int k + 1 \<le> int m" by simp
  with e have "(int k + 1) * e \<le> int m * e" by (intro mult_right_mono) simp_all
  with k m e nz show ?thesis by (simp add: algebra_simps)
qed

section \<open>The slots of the chain\<close>

lemma block_slots_Some: "heap d a = Some b \<Longrightarrow> block_slots d a = slots (fElemSize d) b"
  by (simp add: block_slots_def)

lemma chain_slots_simps [simp]:
  "chain_slots d [] = []"
  "chain_slots d (a # bs) = block_slots d a @ chain_slots d bs"
  "chain_slots d (bs @ cs) = chain_slots d bs @ chain_slots d cs"
  by (simp_all add: chain_slots_def)

lemma block_slots_frame:
  "heap d' a = heap d a \<Longrightarrow> fElemSize d' = fElemSize d \<Longrightarrow> block_slots d' a = block_slots d a"
  by (simp add: block_slots_def split: option.splits)

lemma chain_slots_frame:
  "(\<And>a. a \<in> set bs \<Longrightarrow> heap d' a = heap d a) \<Longrightarrow> fElemSize d' = fElemSize d \<Longrightarrow>
   chain_slots d' bs = chain_slots d bs"
proof (induction bs)
  case Nil
  show ?case by simp
next
  case (Cons a bs)
  from Cons.prems have "block_slots d' a = block_slots d a"
    by (intro block_slots_frame) simp_all
  moreover from Cons have "chain_slots d' bs = chain_slots d bs" by simp
  ultimately show ?case by simp
qed

lemma chain_slots_block:
  "x \<in> set (chain_slots d bs) \<Longrightarrow> \<exists>c \<in> set bs. x \<in> set (block_slots d c)"
  by (auto simp: chain_slots_def)

lemma inner_set_snoc: "set (butlast (tl (bs @ [l]))) = set (tl bs)"
  by (cases bs) simp_all

lemma inner_set_Cons: "set (butlast (tl (a # bs))) = set (butlast bs)"
  by simp

lemma inner_full_frame:
  "inner_full d bs \<Longrightarrow> fElemSize d' = fElemSize d \<Longrightarrow>
   (\<And>a. a \<in> set (butlast (tl bs)) \<Longrightarrow> heap d' a = heap d a) \<Longrightarrow> inner_full d' bs"
  unfolding inner_full_def using block_slots_frame [of d' _ d] by auto

section \<open>Blocks stay apart\<close>

lemma blocks_apartD:
  "blocks_apart d \<Longrightarrow> heap d a = Some x \<Longrightarrow> heap d b = Some y \<Longrightarrow> a \<noteq> b \<Longrightarrow>
   fStop x \<le> b \<or> fStop y \<le> a"
  unfolding blocks_apart_def by blast

lemma blocks_apart_same:
  assumes "blocks_apart d"
    and "\<And>x b. heap d' x = Some b \<Longrightarrow> \<exists>b0. heap d x = Some b0 \<and> fStop b0 = fStop b"
  shows "blocks_apart d'"
  unfolding blocks_apart_def
proof (intro allI impI)
  fix a b x y
  assume *: "heap d' a = Some x" "heap d' b = Some y" "a \<noteq> b"
  from assms(2) [OF *(1)] obtain x0 where x0: "heap d a = Some x0" "fStop x0 = fStop x" by blast
  from assms(2) [OF *(2)] obtain y0 where y0: "heap d b = Some y0" "fStop y0 = fStop y" by blast
  from blocks_apartD [OF assms(1) x0(1) y0(1) *(3)] x0(2) y0(2)
  show "fStop x \<le> b \<or> fStop y \<le> a" by linarith
qed

lemma blocks_apart_new:
  assumes ba: "blocks_apart d"
    and al: "\<And>b blk. heap d b = Some blk \<Longrightarrow> a + sz \<le> b \<or> fStop blk \<le> a"
    and h': "\<And>x b. heap d' x = Some b \<Longrightarrow>
       (x = a \<and> fStop b = a + sz) \<or> (x \<noteq> a \<and> (\<exists>b0. heap d x = Some b0 \<and> fStop b0 = fStop b))"
  shows "blocks_apart d'"
  unfolding blocks_apart_def
proof (intro allI impI)
  fix u v x y
  assume u: "heap d' u = Some x" and v: "heap d' v = Some y" and ne: "u \<noteq> v"
  show "fStop x \<le> v \<or> fStop y \<le> u"
  proof (cases "u = a")
    case True
    with h' [OF u] have sx: "fStop x = a + sz" by blast
    from True ne h' [OF v] obtain b0 where "heap d v = Some b0" "fStop b0 = fStop y" by blast
    with al [of v b0] sx True show ?thesis by linarith
  next
    case False
    with h' [OF u] obtain b0 where b0: "heap d u = Some b0" "fStop b0 = fStop x" by blast
    show ?thesis
    proof (cases "v = a")
      case True
      with h' [OF v] have "fStop y = a + sz" by blast
      with al [OF b0(1)] b0(2) True show ?thesis by linarith
    next
      case False
      with h' [OF v] obtain b1 where b1: "heap d v = Some b1" "fStop b1 = fStop y" by blast
      from blocks_apartD [OF ba b0(1) b1(1) ne] b0(2) b1(2) show ?thesis by linarith
    qed
  qed
qed

lemma push_back_apart:
  assumes ci: "chain_inv d bs" and ba: "blocks_apart d" and a: "alloc_ok d a"
    and op: "push_back a d = Inr (p, d')"
  shows "blocks_apart d'"
proof -
  from a have a0: "a \<noteq> 0" "heap d a = None"
    and al: "\<And>b blk. heap d b = Some blk \<Longrightarrow>
      a + block_bytes (fAllocCount d) (fElemSize d) \<le> b \<or> fStop blk \<le> a"
    by (auto simp: alloc_ok_def)
  from ci a0 op show ?thesis
  proof (cases rule: push_back_effect)
    case first
    show ?thesis
      by (rule blocks_apart_new [OF ba al]) (auto simp: first(3) split: if_splits)
  next
    case (init bs0 l lb)
    show ?thesis
      by (rule blocks_apart_same [OF ba]) (auto simp: init(2,5) split: if_splits)
  next
    case (room bs0 l lb)
    show ?thesis
      by (rule blocks_apart_same [OF ba]) (auto simp: room(2,6) split: if_splits)
  next
    case (grow bs0 l lb)
    show ?thesis
      by (rule blocks_apart_new [OF ba al]) (auto simp: grow(2,6) split: if_splits)
  qed
qed

lemma push_front_apart:
  assumes ci: "chain_inv d bs" and ba: "blocks_apart d" and a: "alloc_ok d a"
    and op: "push_front a d = Inr (p, d')"
  shows "blocks_apart d'"
proof -
  from a have a0: "a \<noteq> 0" "heap d a = None"
    and al: "\<And>b blk. heap d b = Some blk \<Longrightarrow>
      a + block_bytes (fAllocCount d) (fElemSize d) \<le> b \<or> fStop blk \<le> a"
    by (auto simp: alloc_ok_def)
  from ci a0 op show ?thesis
  proof (cases rule: push_front_effect)
    case first
    show ?thesis
      by (rule blocks_apart_new [OF ba al]) (auto simp: first(3) split: if_splits)
  next
    case (init f rest fb)
    show ?thesis
      by (rule blocks_apart_same [OF ba]) (auto simp: init(2,5) split: if_splits)
  next
    case (room f rest fb)
    show ?thesis
      by (rule blocks_apart_same [OF ba]) (auto simp: room(2,6) split: if_splits)
  next
    case (grow f rest fb)
    show ?thesis
      by (rule blocks_apart_new [OF ba al]) (auto simp: grow(2,6) split: if_splits)
  qed
qed

lemma pop_front_apart:
  assumes ci: "chain_inv d bs" and ba: "blocks_apart d" and op: "pop_front dbg d = Inr d'"
  shows "blocks_apart d'"
  using ci op
proof (cases rule: pop_front_effect)
  case (live f rest fb)
  show ?thesis
    by (rule blocks_apart_same [OF ba]) (auto simp: live(2,4) split: if_splits)
next
  case (advance f n rest fb nb)
  show ?thesis
    by (rule blocks_apart_same [OF ba]) (auto simp: advance(4,5) split: if_splits)
qed

lemma pop_back_apart:
  assumes ci: "chain_inv d bs" and ba: "blocks_apart d" and op: "pop_back dbg d = Inr d'"
  shows "blocks_apart d'"
  using ci op
proof (cases rule: pop_back_effect)
  case (live bs0 l lb)
  show ?thesis
    by (rule blocks_apart_same [OF ba]) (auto simp: live(2,4) split: if_splits)
next
  case (advance bs0 n l lb nb)
  show ?thesis
    by (rule blocks_apart_same [OF ba]) (auto simp: advance(4,5) split: if_splits)
qed

section \<open>The invariant of the deque\<close>

lemma deque_invD:
  assumes "deque_inv d bs xs"
  shows "valid_config d" "sizes_fit d" "0 < fElemSize d" "chain_inv d bs" "blocks_ok d"
    "blocks_apart d" "inner_full d bs" "chain_slots d bs = xs" "fCount d = int (length xs)"
  using assms by (simp_all add: deque_inv_def valid_config_def)

lemma deque_invI:
  assumes "valid_config d" "chain_inv d bs" "blocks_ok d" "blocks_apart d" "inner_full d bs"
    "chain_slots d bs = xs" "fCount d = int (length xs)"
  shows "deque_inv d bs xs"
  using assms by (simp add: deque_inv_def)

lemma valid_config_fields:
  "valid_config d \<Longrightarrow> fElemSize d' = fElemSize d \<Longrightarrow> fAllocCount d' = fAllocCount d \<Longrightarrow>
   valid_config d'"
  by (simp add: valid_config_def sizes_fit_def)

lemma slot_in_chain:
  assumes inv: "deque_inv d bs xs" and x: "x \<in> set xs"
  obtains c cb where "c \<in> set bs" "heap d c = Some cb" "fBegin cb \<noteq> 0"
    "start c \<le> x" "fBegin cb \<le> x" "x + fElemSize d \<le> fEnd cb" "fEnd cb \<le> fStop cb" "0 < c"
proof -
  note I = deque_invD [OF inv]
  from x I(8) obtain c where c: "c \<in> set bs" "x \<in> set (block_slots d c)"
    by (auto dest: chain_slots_block)
  then obtain cb where cb: "heap d c = Some cb" "x \<in> set (slots (fElemSize d) cb)"
    by (cases "heap d c") (auto simp: block_slots_def)
  from blocks_okD [OF I(5) cb(1)] have ok: "block_ok (fElemSize d) c cb" .
  from slots_within [OF ok I(3) cb(2)] ok c(1) cb(1) show ?thesis
    by (intro that [of c cb]) (auto simp: block_ok_def)
qed

lemma new_slot_apart:
  assumes inv: "deque_inv d bs xs" and a: "alloc_ok d a" and x: "x \<in> set xs"
  shows "x + fElemSize d \<le> start a \<or> start a + fElemSize d \<le> x"
proof -
  note I = deque_invD [OF inv]
  from inv x obtain c cb where c: "heap d c = Some cb" "start c \<le> x"
      "x + fElemSize d \<le> fEnd cb" "fEnd cb \<le> fStop cb"
    by (rule slot_in_chain)
  from a c(1) have "a + block_bytes (fAllocCount d) (fElemSize d) \<le> c \<or> fStop cb \<le> a"
    by (simp add: alloc_ok_def)
  with new_block_room [OF I(2), of a] c sizeof_Block_pos show ?thesis
    by (auto simp: start_def)
qed

lemma old_slot_apart:
  assumes inv: "deque_inv d bs xs" and x: "x \<in> set xs"
    and l: "heap d l = Some lb" "start l \<le> p" "p + fElemSize d \<le> fStop lb"
    and same: "\<And>cb. heap d l = Some cb \<Longrightarrow> fBegin cb \<noteq> 0 \<Longrightarrow> fBegin cb \<le> x \<Longrightarrow>
       x + fElemSize d \<le> fEnd cb \<Longrightarrow> x + fElemSize d \<le> p \<or> p + fElemSize d \<le> x"
  shows "x + fElemSize d \<le> p \<or> p + fElemSize d \<le> x"
proof -
  note I = deque_invD [OF inv]
  from inv x obtain c cb where c: "heap d c = Some cb" "fBegin cb \<noteq> 0" "start c \<le> x"
      "fBegin cb \<le> x" "x + fElemSize d \<le> fEnd cb" "fEnd cb \<le> fStop cb"
    by (rule slot_in_chain)
  show ?thesis
  proof (cases "c = l")
    case True
    with c same show ?thesis by blast
  next
    case False
    from blocks_apartD [OF I(6) c(1) l(1) False] c l sizeof_Block_pos show ?thesis
      by (auto simp: start_def)
  qed
qed

subsection \<open>push_back keeps the invariant\<close>

lemma inner_set_snoc2: "set (butlast (tl (bs @ [l, a]))) \<subseteq> insert l (set (tl bs))"
  by (cases bs) (auto simp: butlast_append)

lemma inner_set_Cons2: "set (butlast (tl (a # f # bs))) \<subseteq> insert f (set (butlast bs))"
  by (cases bs) auto

lemma set_tlD: "x \<in> set (tl bs) \<Longrightarrow> x \<in> set bs"
  by (cases bs) simp_all

lemma push_back_inv:
  assumes inv: "deque_inv d bs xs" and a: "alloc_ok d a" and op: "push_back a d = Inr (p, d')"
  shows "\<exists>bs'. deque_inv d' bs' (xs @ [p])"
    and "\<forall>x \<in> set xs. x + fElemSize d \<le> p \<or> p + fElemSize d \<le> x"
proof -
  note I = deque_invD [OF inv]
  from a have a0: "a \<noteq> 0" "heap d a = None" "0 < a" by (auto simp: alloc_ok_def)
  note F = push_back_fields [OF I(4) a0(1,2) op]
  from F have fe: "fElemSize d' = fElemSize d" by simp
  have vc: "valid_config d'" by (rule valid_config_fields [OF I(1)]) (use F in simp_all)
  have bo: "blocks_ok d'" by (rule push_back_blocks_ok [OF I(4,5,2) a0(3,2) op])
  have ba: "blocks_apart d'" by (rule push_back_apart [OF I(4,6) a op])
  have cnt: "fCount d' = int (length (xs @ [p]))" using F I(9) by simp
  from I(4) a0(1,2) op
  have "(\<exists>bs'. chain_inv d' bs' \<and> inner_full d' bs' \<and> chain_slots d' bs' = xs @ [p]) \<and>
      (\<forall>x \<in> set xs. x + fElemSize d \<le> p \<or> p + fElemSize d \<le> x)"
  proof (cases rule: push_back_effect)
    case first
    from I(4) [unfolded first(1)] a0(1) first(3-5) have "chain_inv d' [a]"
      by (rule chain_inv_first) simp_all
    moreover have "inner_full d' [a]" by (simp add: inner_full_def)
    moreover from I(8) first(1) have xs: "xs = []" by simp
    moreover have "block_slots d' a = [start a]"
      using a0(3) sizeof_Block_pos I(3)
      by (simp add: block_slots_def first(3) fe slots_one start_def)
    ultimately show ?thesis using first(2) by auto
  next
    case (init bs0 l lb)
    note L = chain_inv_lastD [OF I(4) [unfolded init(1)]]
    from blocks_okD [OF I(5) init(2)] have ok: "block_ok (fElemSize d) l lb" .
    from I(4) init(2,5-7) have "chain_inv d' bs" by (rule chain_inv_content) simp_all
    moreover have "inner_full d' bs"
      by (rule inner_full_frame [OF I(7) fe])
        (use L(4) in \<open>auto simp: init(1,5) inner_set_snoc dest: set_tlD\<close>)
    moreover have "chain_slots d' bs0 = chain_slots d bs0"
      by (rule chain_slots_frame [OF _ fe]) (use L(4) in \<open>auto simp: init(5)\<close>)
    moreover have "block_slots d' l = [start l]"
      using ok sizeof_Block_pos I(3)
      by (simp add: block_slots_def init(5) fe slots_one start_def block_ok_def)
    moreover have "block_slots d l = []" by (simp add: block_slots_def init(2,3))
    moreover have "x + fElemSize d \<le> p \<or> p + fElemSize d \<le> x" if "x \<in> set xs" for x
      by (rule old_slot_apart [OF inv that init(2)])
        (use ok I(3) in \<open>auto simp: init(2,3,4) block_ok_def\<close>)
    ultimately show ?thesis using I(8) init(1,4) by auto
  next
    case (room bs0 l lb)
    note L = chain_inv_lastD [OF I(4) [unfolded room(1)]]
    from blocks_okD [OF I(5) room(2)] have ok: "block_ok (fElemSize d) l lb" .
    from I(4) room(2,6-8) have "chain_inv d' bs" by (rule chain_inv_content) simp_all
    moreover have "inner_full d' bs"
      by (rule inner_full_frame [OF I(7) fe])
        (use L(4) in \<open>auto simp: room(1,6) inner_set_snoc dest: set_tlD\<close>)
    moreover have "chain_slots d' bs0 = chain_slots d bs0"
      by (rule chain_slots_frame [OF _ fe]) (use L(4) in \<open>auto simp: room(6)\<close>)
    moreover have "block_slots d' l = block_slots d l @ [fEnd lb]"
      using ok I(3) room(3)
      by (simp add: block_slots_def room(2,6) fe slots_snoc block_ok_def)
    moreover have "x + fElemSize d \<le> p \<or> p + fElemSize d \<le> x" if "x \<in> set xs" for x
      by (rule old_slot_apart [OF inv that room(2)])
        (use ok I(3) room(3,4) in \<open>auto simp: room(2,5) block_ok_def\<close>)
    ultimately show ?thesis using I(8) room(1,5) by auto
  next
    case (grow bs0 l lb)
    note L = chain_inv_lastD [OF I(4) [unfolded grow(1)]]
    from I(4) grow(1) a0(2) have an: "a \<notin> set bs0" "a \<noteq> l" by (auto simp: chain_inv_def)
    from blocks_okD [OF I(5) grow(2)] have ok: "block_ok (fElemSize d) l lb" .
    from I(4) [unfolded grow(1)] grow(2) a0(1,2) grow(6-8) have "chain_inv d' (bs0 @ [l, a])"
      by (rule chain_inv_grow_back) simp_all
    moreover have fr: "heap d' c = heap d c" if "c \<in> set bs0" for c
      using that L(4) an by (auto simp: grow(6))
    have sl: "block_slots d' l = block_slots d l"
      using an by (simp add: block_slots_def grow(2,6) fe)
    have "inner_full d' (bs0 @ [l, a])"
      unfolding inner_full_def
    proof
      fix c assume "c \<in> set (butlast (tl (bs0 @ [l, a])))"
      with inner_set_snoc2 [of bs0 l a] consider "c = l" | "c \<in> set (tl bs0)" by auto
      then show "block_slots d' c \<noteq> []"
      proof cases
        case 1
        with sl slots_Nil_iff [OF ok I(3)] grow(3) show ?thesis
          by (simp add: block_slots_def grow(2))
      next
        case 2
        then have "c \<in> set bs0" by (auto dest: set_tlD)
        from block_slots_frame [OF fr [OF this] fe] I(7) 2 show ?thesis
          by (simp add: inner_full_def grow(1) inner_set_snoc)
      qed
    qed
    moreover have "chain_slots d' bs0 = chain_slots d bs0"
      by (rule chain_slots_frame [OF _ fe]) (rule fr)
    moreover have "block_slots d' a = [start a]"
      using a0(3) sizeof_Block_pos I(3)
      by (simp add: block_slots_def grow(6) fe slots_one start_def)
    moreover have "x + fElemSize d \<le> p \<or> p + fElemSize d \<le> x" if "x \<in> set xs" for x
      using new_slot_apart [OF inv a that] by (simp add: grow(5))
    ultimately show ?thesis using I(8) grow(1,5) sl by auto
  qed
  then obtain bs' where *: "chain_inv d' bs'" "inner_full d' bs'" "chain_slots d' bs' = xs @ [p]"
    and **: "\<forall>x \<in> set xs. x + fElemSize d \<le> p \<or> p + fElemSize d \<le> x"
    by blast
  from deque_invI [OF vc *(1) bo ba *(2,3) cnt] show "\<exists>bs'. deque_inv d' bs' (xs @ [p])" ..
  from ** show "\<forall>x \<in> set xs. x + fElemSize d \<le> p \<or> p + fElemSize d \<le> x" .
qed

subsection \<open>push_front keeps the invariant\<close>

lemma push_front_inv:
  assumes inv: "deque_inv d bs xs" and a: "alloc_ok d a" and op: "push_front a d = Inr (p, d')"
  shows "\<exists>bs'. deque_inv d' bs' (p # xs)"
proof -
  note I = deque_invD [OF inv]
  from a have a0: "a \<noteq> 0" "heap d a = None" "0 < a" by (auto simp: alloc_ok_def)
  note F = push_front_fields [OF I(4) a0(1,2) op]
  from F have fe: "fElemSize d' = fElemSize d" by simp
  have vc: "valid_config d'" by (rule valid_config_fields [OF I(1)]) (use F in simp_all)
  have bo: "blocks_ok d'" by (rule push_front_blocks_ok [OF I(4,5,2) a0(3,2) op])
  have ba: "blocks_apart d'" by (rule push_front_apart [OF I(4,6) a op])
  have cnt: "fCount d' = int (length (p # xs))" using F I(9) by simp
  from I(4) a0(1,2) op
  have "\<exists>bs'. chain_inv d' bs' \<and> inner_full d' bs' \<and> chain_slots d' bs' = p # xs"
  proof (cases rule: push_front_effect)
    case first
    from I(4) [unfolded first(1)] a0(1) first(3-5) have "chain_inv d' [a]"
      by (rule chain_inv_first) simp_all
    moreover have "inner_full d' [a]" by (simp add: inner_full_def)
    moreover from I(8) first(1) have xs: "xs = []" by simp
    moreover have "block_slots d' a = [p]"
      using a0(3) sizeof_Block_pos I(3) new_block_room [OF I(2), of a]
      by (simp add: block_slots_def first(2,3) fe slots_one start_def)
    ultimately show ?thesis by auto
  next
    case (init f rest fb)
    note H = chain_inv_hdD [OF I(4) [unfolded init(1)]]
    from blocks_okD [OF I(5) init(2)] have ok: "block_ok (fElemSize d) f fb" .
    from I(4) init(2,5-7) have "chain_inv d' bs" by (rule chain_inv_content) simp_all
    moreover have "inner_full d' bs"
      by (rule inner_full_frame [OF I(7) fe])
        (use H(4) in \<open>auto simp: init(1,5) dest: in_set_butlastD\<close>)
    moreover have "chain_slots d' rest = chain_slots d rest"
      by (rule chain_slots_frame [OF _ fe]) (use H(4) in \<open>auto simp: init(5)\<close>)
    moreover have "block_slots d' f = [p]"
      using ok sizeof_Block_pos I(3)
      by (simp add: block_slots_def init(4,5) fe slots_one start_def block_ok_def)
    moreover have "block_slots d f = []" by (simp add: block_slots_def init(2,3))
    ultimately show ?thesis using I(8) init(1) by auto
  next
    case (room f rest fb)
    note H = chain_inv_hdD [OF I(4) [unfolded room(1)]]
    from blocks_okD [OF I(5) room(2)] have ok: "block_ok (fElemSize d) f fb" .
    from I(4) room(2,6-8) have "chain_inv d' bs" by (rule chain_inv_content) simp_all
    moreover have "inner_full d' bs"
      by (rule inner_full_frame [OF I(7) fe])
        (use H(4) in \<open>auto simp: room(1,6) dest: in_set_butlastD\<close>)
    moreover have "chain_slots d' rest = chain_slots d rest"
      by (rule chain_slots_frame [OF _ fe]) (use H(4) in \<open>auto simp: room(6)\<close>)
    moreover have "block_slots d' f = p # block_slots d f"
      using ok I(3) room(3,4) sizeof_Block_pos
      by (simp add: block_slots_def room(2,5,6) fe slots_Cons block_ok_def start_def)
    ultimately show ?thesis using I(8) room(1) by auto
  next
    case (grow f rest fb)
    note H = chain_inv_hdD [OF I(4) [unfolded grow(1)]]
    from I(4) grow(1) a0(2) have an: "a \<notin> set rest" "a \<noteq> f" by (auto simp: chain_inv_def)
    from blocks_okD [OF I(5) grow(2)] have ok: "block_ok (fElemSize d) f fb" .
    from I(4) [unfolded grow(1)] grow(2) a0(1,2) grow(6-8) have "chain_inv d' (a # f # rest)"
      by (rule chain_inv_grow_front) simp_all
    moreover have fr: "heap d' c = heap d c" if "c \<in> set rest" for c
      using that H(4) an by (auto simp: grow(6))
    have sl: "block_slots d' f = block_slots d f"
      using an by (simp add: block_slots_def grow(2,6) fe)
    have "inner_full d' (a # f # rest)"
      unfolding inner_full_def
    proof
      fix c assume "c \<in> set (butlast (tl (a # f # rest)))"
      with inner_set_Cons2 [of a f rest] consider "c = f" | "c \<in> set (butlast rest)" by auto
      then show "block_slots d' c \<noteq> []"
      proof cases
        case 1
        with sl slots_Nil_iff [OF ok I(3)] grow(3) show ?thesis
          by (simp add: block_slots_def grow(2))
      next
        case 2
        then have "c \<in> set rest" by (rule in_set_butlastD)
        from block_slots_frame [OF fr [OF this] fe] I(7) 2 show ?thesis
          by (simp add: inner_full_def grow(1))
      qed
    qed
    moreover have "chain_slots d' rest = chain_slots d rest"
      by (rule chain_slots_frame [OF _ fe]) (rule fr)
    moreover have "block_slots d' a = [p]"
      using a0(3) sizeof_Block_pos I(3) new_block_room [OF I(2), of a]
      by (simp add: block_slots_def grow(5,6) fe slots_one start_def)
    ultimately show ?thesis using I(8) grow(1) sl by auto
  qed
  then obtain bs' where *: "chain_inv d' bs'" "inner_full d' bs'" "chain_slots d' bs' = p # xs"
    by blast
  from deque_invI [OF vc *(1) bo ba *(2,3) cnt] show ?thesis ..
qed

subsection \<open>pop_front and pop_back keep the invariant\<close>

lemma deque_inv_front_next:
  assumes inv: "deque_inv d (f # n # rest) xs" and ne: "xs \<noteq> []"
    and fb: "heap d f = Some fb" "fBegin fb = 0" and nb: "heap d n = Some nb"
  shows "fBegin nb \<noteq> 0"
proof -
  note I = deque_invD [OF inv]
  from blocks_okD [OF I(5) nb] have ok: "block_ok (fElemSize d) n nb" .
  have "block_slots d n \<noteq> []"
  proof (cases "rest = []")
    case True
    with I(8) ne fb show ?thesis by (simp add: block_slots_def)
  next
    case False
    then have "n \<in> set (butlast (tl (f # n # rest)))" by simp
    with I(7) show ?thesis unfolding inner_full_def by blast
  qed
  with slots_Nil_iff [OF ok I(3)] nb show ?thesis by (simp add: block_slots_def)
qed

lemma deque_inv_back_prev:
  assumes inv: "deque_inv d (bs0 @ [n, l]) xs" and ne: "xs \<noteq> []"
    and lb: "heap d l = Some lb" "fEnd lb = 0" and nb: "heap d n = Some nb"
  shows "fBegin nb \<noteq> 0"
proof -
  note I = deque_invD [OF inv]
  from blocks_okD [OF I(5) nb] have ok: "block_ok (fElemSize d) n nb" .
  from blocks_okD [OF I(5) lb(1)] lb(2) have "fBegin lb = 0" by (simp add: block_ok_def)
  then have le: "block_slots d l = []" using lb by (simp add: block_slots_def)
  have "block_slots d n \<noteq> []"
  proof (cases "bs0 = []")
    case True
    with I(8) ne le show ?thesis by simp
  next
    case False
    then have "n \<in> set (butlast (tl (bs0 @ [n, l])))"
      by (cases bs0) (simp_all add: butlast_append)
    with I(7) show ?thesis unfolding inner_full_def by blast
  qed
  with slots_Nil_iff [OF ok I(3)] nb show ?thesis by (simp add: block_slots_def)
qed

lemma pop_front_inv:
  assumes inv: "deque_inv d bs xs" and c: "0 < fCount d" and op: "pop_front dbg d = Inr d'"
  shows "\<exists>bs'. deque_inv d' bs' (tl xs)"
proof -
  note I = deque_invD [OF inv]
  from c I(9) have ne: "xs \<noteq> []" by auto
  note F = pop_front_fields [OF I(4) op]
  from F have fe: "fElemSize d' = fElemSize d" by simp
  have vc: "valid_config d'" by (rule valid_config_fields [OF I(1)]) (use F in simp_all)
  have bo: "blocks_ok d'" by (rule pop_front_blocks_ok [OF I(4,5,2) op])
  have ba: "blocks_apart d'" by (rule pop_front_apart [OF I(4,6) op])
  have cnt: "fCount d' = int (length (tl xs))" using F I(9) ne by (cases xs) simp_all
  from I(4) op
  have "\<exists>bs'. chain_inv d' bs' \<and> inner_full d' bs' \<and> chain_slots d' bs' = tl xs"
  proof (cases rule: pop_front_effect)
    case (live f rest fb)
    note H = chain_inv_hdD [OF I(4) [unfolded live(1)]]
    from blocks_okD [OF I(5) live(2)] have ok: "block_ok (fElemSize d) f fb" .
    from I(4) live(2,4-6) have "chain_inv d' bs" by (rule chain_inv_content) simp_all
    moreover have "inner_full d' bs"
      by (rule inner_full_frame [OF I(7) fe])
        (use H(4) in \<open>auto simp: live(1,4) dest: in_set_butlastD\<close>)
    moreover have "chain_slots d' rest = chain_slots d rest"
      by (rule chain_slots_frame [OF _ fe]) (use H(4) in \<open>auto simp: live(4)\<close>)
    moreover have "block_slots d f = fBegin fb # block_slots d' f"
      using slots_pop_front [OF ok I(3) live(3)] by (simp add: block_slots_def live(2,4) fe)
    ultimately show ?thesis using I(8) live(1) by auto
  next
    case (advance f n rest fb nb)
    from I(4) have dist: "f \<noteq> n" "f \<notin> set rest" "n \<notin> set rest"
      by (auto simp: chain_inv_def advance(1))
    from deque_inv_front_next [OF inv [unfolded advance(1)] ne advance(2,3,4)]
    have nz: "fBegin nb \<noteq> 0" .
    from blocks_okD [OF I(5) advance(4)] have ok: "block_ok (fElemSize d) n (nb\<lparr>fPrev := 0\<rparr>)"
      by simp
    from I(4) [unfolded advance(1)] advance(4-7) have "chain_inv d' (n # rest)"
      by (rule chain_inv_advance_front) simp_all
    moreover have fr: "heap d' c = heap d c" if "c \<in> set rest" for c
      using that dist by (auto simp: advance(5))
    have "inner_full d' (n # rest)"
      unfolding inner_full_def
    proof
      fix c assume c: "c \<in> set (butlast (tl (n # rest)))"
      then have "c \<in> set rest" by (auto dest: in_set_butlastD)
      from block_slots_frame [OF fr [OF this] fe] I(7) c show "block_slots d' c \<noteq> []"
        by (auto simp: inner_full_def advance(1) butlast_append split: if_splits)
    qed
    moreover have "chain_slots d' rest = chain_slots d rest"
      by (rule chain_slots_frame [OF _ fe]) (rule fr)
    moreover have "block_slots d n = fBegin nb # block_slots d' n"
      using slots_pop_front [OF ok I(3)] nz
      by (simp add: block_slots_def advance(4,5) fe)
    moreover have "block_slots d f = []" by (simp add: block_slots_def advance(2,3))
    ultimately show ?thesis using I(8) advance(1) by auto
  qed
  then obtain bs' where *: "chain_inv d' bs'" "inner_full d' bs'" "chain_slots d' bs' = tl xs"
    by blast
  from deque_invI [OF vc *(1) bo ba *(2,3) cnt] show ?thesis ..
qed

lemma pop_back_inv:
  assumes inv: "deque_inv d bs xs" and c: "0 < fCount d" and op: "pop_back dbg d = Inr d'"
  shows "\<exists>bs'. deque_inv d' bs' (butlast xs)"
proof -
  note I = deque_invD [OF inv]
  from c I(9) have ne: "xs \<noteq> []" by auto
  note F = pop_back_fields [OF I(4) op]
  from F have fe: "fElemSize d' = fElemSize d" by simp
  have vc: "valid_config d'" by (rule valid_config_fields [OF I(1)]) (use F in simp_all)
  have bo: "blocks_ok d'" by (rule pop_back_blocks_ok [OF I(4,5,2) op])
  have ba: "blocks_apart d'" by (rule pop_back_apart [OF I(4,6) op])
  have cnt: "fCount d' = int (length (butlast xs))" using F I(9) ne by (cases xs) simp_all
  from I(4) op
  have "\<exists>bs'. chain_inv d' bs' \<and> inner_full d' bs' \<and> chain_slots d' bs' = butlast xs"
  proof (cases rule: pop_back_effect)
    case (live bs0 l lb)
    note L = chain_inv_lastD [OF I(4) [unfolded live(1)]]
    from blocks_okD [OF I(5) live(2)] have ok: "block_ok (fElemSize d) l lb" .
    with live(3) have nz: "fBegin lb \<noteq> 0" by (simp add: block_ok_def)
    from I(4) live(2,4-6) have "chain_inv d' bs" by (rule chain_inv_content) simp_all
    moreover have "inner_full d' bs"
      by (rule inner_full_frame [OF I(7) fe])
        (use L(4) in \<open>auto simp: live(1,4) inner_set_snoc dest: set_tlD\<close>)
    moreover have "chain_slots d' bs0 = chain_slots d bs0"
      by (rule chain_slots_frame [OF _ fe]) (use L(4) in \<open>auto simp: live(4)\<close>)
    moreover have "block_slots d l = block_slots d' l @ [fEnd lb - fElemSize d]"
      using slots_pop_back [OF ok I(3) nz] by (simp add: block_slots_def live(2,4) fe)
    ultimately show ?thesis using I(8) live(1) by (auto simp: butlast_append)
  next
    case (advance bs0 n l lb nb)
    from I(4) have dist: "l \<noteq> n" "l \<notin> set bs0" "n \<notin> set bs0"
      by (auto simp: chain_inv_def advance(1))
    from deque_inv_back_prev [OF inv [unfolded advance(1)] ne advance(2,3,4)]
    have nz: "fBegin nb \<noteq> 0" .
    from blocks_okD [OF I(5) advance(4)] have ok: "block_ok (fElemSize d) n (nb\<lparr>fNext := 0\<rparr>)"
      by simp
    from blocks_okD [OF I(5) advance(2)] advance(3) have "fBegin lb = 0"
      by (simp add: block_ok_def)
    then have le: "block_slots d l = []" by (simp add: block_slots_def advance(2))
    from I(4) [unfolded advance(1)] advance(4,5,7,6) have "chain_inv d' (bs0 @ [n])"
      by (rule chain_inv_advance_back) simp_all
    moreover have fr: "heap d' c = heap d c" if "c \<in> set bs0" for c
      using that dist by (auto simp: advance(5))
    have "inner_full d' (bs0 @ [n])"
      unfolding inner_full_def
    proof
      fix c assume c: "c \<in> set (butlast (tl (bs0 @ [n])))"
      then have c0: "c \<in> set bs0" by (auto simp: inner_set_snoc dest: set_tlD)
      from c have "c \<in> set (butlast (tl (bs0 @ [n, l])))"
        by (cases bs0) (auto simp: butlast_append)
      with block_slots_frame [OF fr [OF c0] fe] I(7) show "block_slots d' c \<noteq> []"
        by (auto simp: inner_full_def advance(1))
    qed
    moreover have "chain_slots d' bs0 = chain_slots d bs0"
      by (rule chain_slots_frame [OF _ fe]) (rule fr)
    moreover have "block_slots d n = block_slots d' n @ [fEnd nb - fElemSize d]"
      using slots_pop_back [OF ok I(3)] nz
      by (simp add: block_slots_def advance(4,5) fe)
    ultimately show ?thesis using I(8) advance(1) le by (auto simp: butlast_append)
  qed
  then obtain bs' where *: "chain_inv d' bs'" "inner_full d' bs'"
      "chain_slots d' bs' = butlast xs"
    by blast
  from deque_invI [OF vc *(1) bo ba *(2,3) cnt] show ?thesis ..
qed

subsection \<open>Every reachable state of a valid configuration satisfies the invariant\<close>

lemma SkDeque_new_inv:
  assumes c: "SkDeque_new dbg e n = Inr d" and vc: "valid_config d"
  shows "deque_inv d [] []"
proof -
  note F = SkDeque_new_fields [OF c]
  from SkDeque_new_chain [OF c] F vc show ?thesis
    by (intro deque_invI) (simp_all add: blocks_ok_def blocks_apart_def inner_full_def)
qed

lemma SkDeque_storage_inv:
  assumes c: "SkDeque_storage dbg e storage storageSize n = Inr d" and s: "0 \<le> storage"
    and vc: "valid_config d"
  shows "\<exists>bs. deque_inv d bs []"
proof -
  note F = SkDeque_storage_fields [OF c]
  from vc have sf: "sizes_fit d" by (simp add: valid_config_def)
  note bo = SkDeque_storage_blocks_ok [OF c s sf]
  from SkDeque_storage_chain [OF c] show ?thesis
  proof
    assume *: "storageSize < size_t (sizeof_Block + e) \<and> chain_inv d []"
    then have "heap d = Map.empty" by (simp add: chain_inv_def)
    with * vc bo F have "deque_inv d [] []"
      by (intro deque_invI) (simp_all add: blocks_apart_def inner_full_def)
    then show ?thesis ..
  next
    assume *: "size_t (sizeof_Block + e) \<le> storageSize \<and> chain_inv d [storage] \<and>
      heap d = [storage \<mapsto> init storage storageSize]"
    with vc bo F have "deque_inv d [storage] []"
      by (intro deque_invI)
        (auto simp: blocks_apart_def inner_full_def block_slots_def init_def split: if_splits)
    then show ?thesis ..
  qed
qed

lemma reach_inv: "reach dbg d xs \<Longrightarrow> valid_config d \<Longrightarrow> \<exists>bs. deque_inv d bs xs"
proof (induction rule: reach.induct)
  case (new elemSize allocCount d)
  from SkDeque_new_inv [OF new.hyps new.prems] show ?case ..
next
  case (storage storage elemSize storageSize allocCount d)
  from SkDeque_storage_inv [OF storage.hyps(2,1) storage.prems] show ?case .
next
  case (push_front d xs a p d')
  from reach_chain [OF push_front.hyps(1)] obtain bs0 where ci: "chain_inv d bs0" ..
  from push_front.hyps(2) have a: "a \<noteq> 0" "heap d a = None" by (auto simp: alloc_ok_def)
  from push_front_fields [OF ci a push_front.hyps(3)] push_front.prems
  have "valid_config d" by (simp add: valid_config_def sizes_fit_def)
  from push_front.IH [OF this] obtain bs where "deque_inv d bs xs" ..
  from push_front_inv [OF this push_front.hyps(2,3)] show ?case .
next
  case (push_back d xs a p d')
  from reach_chain [OF push_back.hyps(1)] obtain bs0 where ci: "chain_inv d bs0" ..
  from push_back.hyps(2) have a: "a \<noteq> 0" "heap d a = None" by (auto simp: alloc_ok_def)
  from push_back_fields [OF ci a push_back.hyps(3)] push_back.prems
  have "valid_config d" by (simp add: valid_config_def sizes_fit_def)
  from push_back.IH [OF this] obtain bs where "deque_inv d bs xs" ..
  from push_back_inv(1) [OF this push_back.hyps(2,3)] show ?case .
next
  case (pop_front d xs d')
  from reach_chain [OF pop_front.hyps(1)] obtain bs0 where ci: "chain_inv d bs0" ..
  from pop_front_fields [OF ci pop_front.hyps(3)] pop_front.prems
  have "valid_config d" by (simp add: valid_config_def sizes_fit_def)
  from pop_front.IH [OF this] obtain bs where "deque_inv d bs xs" ..
  from pop_front_inv [OF this pop_front.hyps(2,3)] show ?case .
next
  case (pop_back d xs d')
  from reach_chain [OF pop_back.hyps(1)] obtain bs0 where ci: "chain_inv d bs0" ..
  from pop_back_fields [OF ci pop_back.hyps(3)] pop_back.prems
  have "valid_config d" by (simp add: valid_config_def sizes_fit_def)
  from pop_back.IH [OF this] obtain bs where "deque_inv d bs xs" ..
  from pop_back_inv [OF this pop_back.hyps(2,3)] show ?case .
qed

subsection \<open>The live end Blocks\<close>

lemma front_live:
  assumes inv: "deque_inv d bs xs" and ne: "xs \<noteq> []"
  obtains
    (here) f rest fb where "bs = f # rest" "fFront d = f" "f \<noteq> 0" "heap d f = Some fb"
      "fBegin fb \<noteq> 0" "fBegin fb + fElemSize d \<le> fEnd fb" "hd xs = fBegin fb"
  | (after) f n rest fb nb where "bs = f # n # rest" "fFront d = f" "f \<noteq> 0"
      "heap d f = Some fb" "fBegin fb = 0" "fNext fb = n" "n \<noteq> 0" "n \<noteq> f" "heap d n = Some nb"
      "fBegin nb \<noteq> 0" "fBegin nb + fElemSize d \<le> fEnd nb" "hd xs = fBegin nb"
proof -
  note I = deque_invD [OF inv]
  from I(8) ne obtain f rest where bs: "bs = f # rest" by (cases bs) auto
  from chain_inv_hdD [OF I(4) [unfolded bs]] obtain fb where
    f: "fFront d = f" "f \<noteq> 0" "heap d f = Some fb" "fNext fb = hd0 rest" "f \<notin> set rest"
    by blast
  from blocks_okD [OF I(5) f(3)] have ok: "block_ok (fElemSize d) f fb" .
  show ?thesis
  proof (cases "fBegin fb = 0")
    case False
    from slots_pop_front [OF ok I(3) False] I(8) [symmetric] f(3) have "hd xs = fBegin fb"
      by (simp add: bs block_slots_def)
    from here [OF bs f(1-3) False block_ok_step(1) [OF ok I(3) False] this] show ?thesis .
  next
    case True
    with I(8) ne f(3) obtain n rest' where rest: "rest = n # rest'"
      by (cases rest) (auto simp: bs block_slots_def)
    from I(4) [unfolded bs rest] f obtain nb where n: "fNext fb = n" "n \<noteq> 0" "n \<noteq> f"
        "heap d n = Some nb"
      by (auto simp: chain_inv_def split: option.splits)
    from deque_inv_front_next [OF inv [unfolded bs rest] ne f(3) True n(4)]
    have nz: "fBegin nb \<noteq> 0" .
    from blocks_okD [OF I(5) n(4)] have okn: "block_ok (fElemSize d) n nb" .
    from slots_pop_front [OF okn I(3) nz] I(8) [symmetric] f(3) n(4) True have "hd xs = fBegin nb"
      by (simp add: bs rest block_slots_def)
    moreover from bs rest have "bs = f # n # rest'" by simp
    ultimately show ?thesis
      using after [OF _ f(1-3) True n nz block_ok_step(1) [OF okn I(3) nz]] by blast
  qed
qed

lemma back_live:
  assumes inv: "deque_inv d bs xs" and ne: "xs \<noteq> []"
  obtains
    (here) bs0 l lb where "bs = bs0 @ [l]" "fBack d = l" "l \<noteq> 0" "heap d l = Some lb"
      "fEnd lb \<noteq> 0" "fBegin lb \<le> fEnd lb - fElemSize d" "last xs = fEnd lb - fElemSize d"
  | (before) bs0 n l lb nb where "bs = bs0 @ [n, l]" "fBack d = l" "l \<noteq> 0"
      "heap d l = Some lb" "fEnd lb = 0" "fPrev lb = n" "n \<noteq> 0" "n \<noteq> l" "heap d n = Some nb"
      "fEnd nb \<noteq> 0" "fBegin nb \<le> fEnd nb - fElemSize d" "last xs = fEnd nb - fElemSize d"
proof -
  note I = deque_invD [OF inv]
  from I(8) ne obtain bs1 l where bs: "bs = bs1 @ [l]" by (cases bs rule: rev_cases) auto
  from chain_inv_lastD [OF I(4) [unfolded bs]] obtain lb where
    l: "fBack d = l" "l \<noteq> 0" "heap d l = Some lb" "fPrev lb = last0 bs1" "l \<notin> set bs1"
    by blast
  from blocks_okD [OF I(5) l(3)] have ok: "block_ok (fElemSize d) l lb" .
  show ?thesis
  proof (cases "fEnd lb = 0")
    case False
    with ok have nz: "fBegin lb \<noteq> 0" by (simp add: block_ok_def)
    from slots_pop_back [OF ok I(3) nz] I(8) [symmetric] l(3) have "last xs = fEnd lb - fElemSize d"
      by (simp add: bs block_slots_def)
    moreover from block_ok_step(1) [OF ok I(3) nz] have "fBegin lb \<le> fEnd lb - fElemSize d"
      by simp
    ultimately show ?thesis using here [OF bs l(1-3) False] by blast
  next
    case True
    with ok have z: "fBegin lb = 0" by (simp add: block_ok_def)
    with I(8) ne l(3) obtain bs0 n where bs1: "bs1 = bs0 @ [n]"
      by (cases bs1 rule: rev_cases) (auto simp: bs block_slots_def)
    from I(4) bs bs1 have "n \<in> dom (heap d)" "n \<noteq> 0" "n \<noteq> l"
      by (auto simp: chain_inv_def)
    with l bs1 obtain nb where n: "fPrev lb = n" "n \<noteq> 0" "n \<noteq> l" "heap d n = Some nb"
      by auto
    from inv bs bs1 have inv': "deque_inv d (bs0 @ [n, l]) xs" by simp
    from deque_inv_back_prev [OF inv' ne l(3) True n(4)] have nz: "fBegin nb \<noteq> 0" .
    from blocks_okD [OF I(5) n(4)] have okn: "block_ok (fElemSize d) n nb" .
    from slots_pop_back [OF okn I(3) nz] I(8) [symmetric] l(3) n(4) z
    have "last xs = fEnd nb - fElemSize d"
      by (simp add: bs bs1 block_slots_def)
    moreover from bs bs1 have "bs = bs0 @ [n, l]" by simp
    moreover from block_ok_step(1) [OF okn I(3) nz] have "fBegin nb \<le> fEnd nb - fElemSize d"
      by simp
    ultimately show ?thesis
      using before [OF _ l(1-3) True n block_ok_step(2) [OF okn I(3) nz]] by blast
  qed
qed

subsection \<open>front, back and the pops on a non-empty deque\<close>


lemma back_value:
  assumes inv: "deque_inv d bs xs" and ne: "xs \<noteq> []"
  shows "SkDeque_back dbg d = Inr (last xs)"
  using inv ne by (cases rule: back_live) (simp_all add: SkDeque_back_def)

lemma pop_front_progress:
  assumes inv: "deque_inv d bs xs" and c: "0 < fCount d"
  shows "\<exists>d'. pop_front dbg d = Inr d'"
proof -
  from c deque_invD(9) [OF inv] have ne: "xs \<noteq> []" by auto
  from inv ne show ?thesis
  proof (cases rule: front_live)
    case (here f rest fb)
    from pop_front_live [OF here(2-5), of dbg] c here(6) show ?thesis by simp
  next
    case (after f n rest fb nb)
    from pop_front_advance [OF after(2-9), of dbg] c after(11) show ?thesis by simp
  qed
qed

lemma pop_back_progress:
  assumes inv: "deque_inv d bs xs" and c: "0 < fCount d"
  shows "\<exists>d'. pop_back dbg d = Inr d'"
proof -
  from c deque_invD(9) [OF inv] have ne: "xs \<noteq> []" by auto
  from inv ne show ?thesis
  proof (cases rule: back_live)
    case (here bs0 l lb)
    from pop_back_live [OF here(2-5), of dbg] c here(6) show ?thesis by simp
  next
    case (before bs0 n l lb nb)
    from pop_back_advance [OF before(2-9), of dbg] c before(11) show ?thesis by simp
  qed
qed

lemma three_popped_valid: "valid_config three_popped"
  by (simp add: valid_config_def sizes_fit_def three_popped_def sizeof_Block_def)

section \<open>What a pop releases\<close>

lemma pop_front_release:
  assumes inv: "deque_inv d bs xs" and op: "pop_front dbg d = Inr d'"
  shows "\<exists>fb b'. heap d (fFront d) = Some fb \<and> heap d' (fFront d') = Some b' \<and>
    (fBegin b' = 0 \<longleftrightarrow> fEnd b' = 0) \<and>
    (if fBegin fb \<noteq> 0
     then freed d' = freed d \<and> fFront d' = fFront d \<and> dom (heap d') = dom (heap d)
     else freed d' = fFront d # freed d \<and> fFront d' = fNext fb \<and> fNext fb \<noteq> fFront d \<and>
          dom (heap d') = dom (heap d) - {fFront d}) \<and>
    numBlocksAllocated d = Some (Inr (int (card (dom (heap d))))) \<and>
    numBlocksAllocated d' = Some (Inr (int (card (dom (heap d')))))"
proof -
  note I = deque_invD [OF inv]
  from pop_front_chain [OF I(4) op] obtain bs' where ci': "chain_inv d' bs'" ..
  note nb = numBlocksAllocated_chain [OF I(4)] chain_inv_card [OF I(4)]
    numBlocksAllocated_chain [OF ci'] chain_inv_card [OF ci']
  from pop_front_blocks_ok [OF I(4,5,2) op] have bo': "blocks_ok d'" .
  have s: "fBegin b' = 0 \<longleftrightarrow> fEnd b' = 0" if "heap d' a = Some b'" for a b'
    using blocks_okD [OF bo' that] by (simp add: block_ok_def)
  from I(4) op show ?thesis
  proof (cases rule: pop_front_effect)
    case (live f rest fb)
    note H = chain_inv_hdD [OF I(4) [unfolded live(1)]]
    from live(2) have "insert f (dom (heap d)) = dom (heap d)" by auto
    with live H(1) nb s [of f] show ?thesis by (auto simp: live(4))
  next
    case (advance f n rest fb nb)
    note H = chain_inv_hdD [OF I(4) [unfolded advance(1)]]
    from I(4) have "f \<noteq> n" by (auto simp: chain_inv_def advance(1))
    moreover from advance(4) this have "insert n (dom (heap d) - {f}) = dom (heap d) - {f}"
      by auto
    moreover from H(3) advance(2) have "fNext fb = n" by simp
    ultimately show ?thesis using advance H(1) nb s [of n] by (auto simp: advance(5))
  qed
qed

lemma pop_back_release:
  assumes inv: "deque_inv d bs xs" and op: "pop_back dbg d = Inr d'"
  shows "\<exists>lb b'. heap d (fBack d) = Some lb \<and> heap d' (fBack d') = Some b' \<and>
    (fBegin b' = 0 \<longleftrightarrow> fEnd b' = 0) \<and>
    (if fEnd lb \<noteq> 0
     then freed d' = freed d \<and> fBack d' = fBack d \<and> dom (heap d') = dom (heap d)
     else freed d' = fBack d # freed d \<and> fBack d' = fPrev lb \<and> fPrev lb \<noteq> fBack d \<and>
          dom (heap d') = dom (heap d) - {fBack d}) \<and>
    numBlocksAllocated d = Some (Inr (int (card (dom (heap d))))) \<and>
    numBlocksAllocated d' = Some (Inr (int (card (dom (heap d')))))"
proof -
  note I = deque_invD [OF inv]
  from pop_back_chain [OF I(4) op] obtain bs' where ci': "chain_inv d' bs'" ..
  note nb = numBlocksAllocated_chain [OF I(4)] chain_inv_card [OF I(4)]
    numBlocksAllocated_chain [OF ci'] chain_inv_card [OF ci']
  from pop_back_blocks_ok [OF I(4,5,2) op] have bo': "blocks_ok d'" .
  have s: "fBegin b' = 0 \<longleftrightarrow> fEnd b' = 0" if "heap d' a = Some b'" for a b'
    using blocks_okD [OF bo' that] by (simp add: block_ok_def)
  from I(4) op show ?thesis
  proof (cases rule: pop_back_effect)
    case (live bs0 l lb)
    note L = chain_inv_lastD [OF I(4) [unfolded live(1)]]
    from live(2) have "insert l (dom (heap d)) = dom (heap d)" by auto
    with live L(1) nb s [of l] show ?thesis by (auto simp: live(4))
  next
    case (advance bs0 n l lb nb)
    from I(4) have L: "fBack d = l" by (simp add: chain_inv_def advance(1) last0_def)
    from I(4) have "l \<noteq> n" by (auto simp: chain_inv_def advance(1))
    moreover from advance(4) this have "insert n (dom (heap d) - {l}) = dom (heap d) - {l}"
      by auto
    moreover from I(4) advance(1,2) have "fPrev lb = n"
      using chain_inv_lastD(3) [of d "bs0 @ [n]" l] by simp
    ultimately show ?thesis using advance L nb s [of n] by (auto simp: advance(5))
  qed
qed

section \<open>The iterator\<close>

lemma iter_calls_append:
  assumes "iter_calls dbg h cs1 it = Some (Inr (r1, it1))"
    and "iter_calls dbg h cs2 it1 = Some (Inr (r2, it2))"
  shows "iter_calls dbg h (cs1 @ cs2) it = Some (Inr (r1 @ r2, it2))"
  using assms
proof (induction cs1 arbitrary: it r1)
  case Nil
  then show ?case by simp
next
  case (Cons c cs1)
  from Cons.prems(1) obtain p it' rs where
    s: "(case c of Next \<Rightarrow> Iter_next dbg h it | Prev \<Rightarrow> Iter_prev dbg h it) = Some (Inr (p, it'))"
    and t: "iter_calls dbg h cs1 it' = Some (Inr (rs, it1))" and r: "r1 = p # rs"
    by (auto simp: bindO_def split: option.splits sum.splits prod.splits)
  from Cons.IH [OF t Cons.prems(2)] s r show ?case by simp
qed

lemma marked_empty_Some: "h a = Some b \<Longrightarrow> marked_empty h a \<longleftrightarrow> fBegin b = 0"
  by (simp add: marked_empty_def)

lemma skip_next_chain:
  "dlseg h p cs 0 \<Longrightarrow> 0 \<notin> set cs \<Longrightarrow>
   skip_next h (hd0 cs) = Some (Inr (hd0 (dropWhile (marked_empty h) cs)))"
proof (induction cs arbitrary: p)
  case Nil
  show ?case by (simp add: skip_next.simps)
next
  case (Cons c cs)
  from Cons.prems obtain b where b: "h c = Some b" "fNext b = hd0 cs" "dlseg h c cs 0" "c \<noteq> 0"
    by (auto simp: hd0_def split: option.splits list.splits)
  from Cons.IH [OF b(3)] Cons.prems(2) b show ?case
    by (subst skip_next.simps) (simp add: marked_empty_Some)
qed

lemma skip_prev_chain:
  "dlseg h 0 cs n \<Longrightarrow> 0 \<notin> set cs \<Longrightarrow>
   (\<And>a b. a \<in> set cs \<Longrightarrow> h a = Some b \<Longrightarrow> (fBegin b = 0 \<longleftrightarrow> fEnd b = 0)) \<Longrightarrow>
   skip_prev h (last0 cs) = Some (Inr (hd0 (dropWhile (marked_empty h) (rev cs))))"
proof (induction cs arbitrary: n rule: rev_induct)
  case Nil
  show ?case by (simp add: skip_prev.simps)
next
  case (snoc c cs)
  from snoc.prems(1,2) obtain b where b: "h c = Some b" "fPrev b = last0 cs" "dlseg h 0 cs c"
      "c \<noteq> 0"
    by (auto simp: dlseg_snoc last0_def)
  from snoc.prems(3) [of c b] b have e: "fBegin b = 0 \<longleftrightarrow> fEnd b = 0" by simp
  have "skip_prev h (last0 cs) = Some (Inr (hd0 (dropWhile (marked_empty h) (rev cs))))"
    by (rule snoc.IH [OF b(3)]) (use snoc.prems in auto)
  with b e show ?case
    by (subst skip_prev.simps) (simp add: marked_empty_Some)
qed

subsection \<open>Walking forward\<close>

lemma Iter_next_inside:
  assumes "fPos it \<noteq> 0" "fCurBlock it \<noteq> 0" "h (fCurBlock it) = Some cb"
    "fPos it + Iter_fElemSize it < fEnd cb"
  shows "Iter_next dbg h it = Some (Inr (fPos it, it\<lparr>fPos := fPos it + Iter_fElemSize it\<rparr>))"
  using assms by (simp add: Iter_next_def Let_def)

lemma Iter_next_last:
  assumes "fPos it \<noteq> 0" "fCurBlock it \<noteq> 0" "h (fCurBlock it) = Some cb"
    "fPos it + Iter_fElemSize it = fEnd cb" "skip_next h (fNext cb) = Some (Inr c')"
    "c' \<noteq> 0 \<Longrightarrow> h c' = Some b'"
  shows "Iter_next dbg h it =
    Some (Inr (fPos it, it\<lparr>fCurBlock := c', fPos := (if c' \<noteq> 0 then fBegin b' else 0)\<rparr>))"
  using assms by (simp add: Iter_next_def Let_def)

lemma walk_next:
  assumes c: "h c = Some cb" "c \<noteq> 0" and e: "0 < e" and B: "0 < fBegin cb"
    and E: "fEnd cb = fBegin cb + int m * e"
    and sk: "skip_next h (fNext cb) = Some (Inr c')" "c' \<noteq> 0 \<Longrightarrow> h c' = Some b'"
    and k: "k < m"
    and it: "fCurBlock it = c" "fPos it = fBegin cb + int k * e" "Iter_fElemSize it = e"
  shows "iter_calls dbg h (replicate (m - k) Next) it =
    Some (Inr (map (\<lambda>j. fBegin cb + int j * e) [k..<m],
      it\<lparr>fCurBlock := c', fPos := (if c' \<noteq> 0 then fBegin b' else 0)\<rparr>))"
  using k it
proof (induction "m - k" arbitrary: k it)
  case 0
  then show ?case by simp
next
  case (Suc n)
  from e have "0 \<le> int k * e" by simp
  with B have pos: "fPos it \<noteq> 0"
    using Suc.prems(3) by linarith
  have nx: "fPos it + Iter_fElemSize it = fBegin cb + int (Suc k) * e"
    using Suc.prems(3,4) by (simp add: algebra_simps)
  show ?case
  proof (cases "Suc k = m")
    case True
    with nx E have "fPos it + Iter_fElemSize it = fEnd cb" by simp
    moreover from True have "m - k = Suc 0" "[k..<m] = [k]" by auto
    ultimately show ?thesis
      using Iter_next_last [OF pos _ _ _ sk, where dbg = dbg] c Suc.prems(2,3) by simp
  next
    case False
    with Suc.prems(1) have lt: "Suc k < m" by simp
    then have "int (Suc k) * e < int m * e" using e by (simp del: of_nat_Suc)
    with nx E have "fPos it + Iter_fElemSize it < fEnd cb" by simp
    from Iter_next_inside [OF pos _ _ this, where dbg = dbg] c Suc.prems(2)
    have st: "Iter_next dbg h it =
        Some (Inr (fPos it, it\<lparr>fPos := fPos it + Iter_fElemSize it\<rparr>))"
      by simp
    let ?it = "it\<lparr>fPos := fPos it + Iter_fElemSize it\<rparr>"
    from Suc.hyps(2) have n: "n = m - Suc k" by simp
    have "iter_calls dbg h (replicate (m - Suc k) Next) ?it =
      Some (Inr (map (\<lambda>j. fBegin cb + int j * e) [Suc k..<m],
        ?it\<lparr>fCurBlock := c', fPos := (if c' \<noteq> 0 then fBegin b' else 0)\<rparr>))"
      by (rule Suc.hyps(1) [OF n lt]) (use Suc.prems nx in simp_all)
    moreover from lt have "m - k = Suc (m - Suc k)" by simp
    moreover from Suc.prems(1) have "[k..<m] = k # [Suc k..<m]" by (simp add: upt_conv_Cons)
    ultimately show ?thesis using st Suc.prems(3) by simp
  qed
qed

subsection \<open>Walking backward\<close>

lemma Iter_prev_inside:
  assumes "fPos it \<noteq> 0" "fCurBlock it \<noteq> 0" "h (fCurBlock it) = Some cb"
    "fBegin cb \<le> fPos it - Iter_fElemSize it" "fBegin cb \<le> fPos it"
  shows "Iter_prev dbg h it = Some (Inr (fPos it, it\<lparr>fPos := fPos it - Iter_fElemSize it\<rparr>))"
  using assms by (simp add: Iter_prev_def Let_def)

lemma Iter_prev_first:
  assumes "fPos it \<noteq> 0" "fCurBlock it \<noteq> 0" "h (fCurBlock it) = Some cb"
    "fPos it = fBegin cb" "0 < Iter_fElemSize it" "skip_prev h (fPrev cb) = Some (Inr c')"
    "c' \<noteq> 0 \<Longrightarrow> h c' = Some b'"
  shows "Iter_prev dbg h it =
    Some (Inr (fPos it, it\<lparr>fCurBlock := c',
      fPos := (if c' \<noteq> 0 then fEnd b' - Iter_fElemSize it else 0)\<rparr>))"
  using assms by (simp add: Iter_prev_def Let_def)

lemma walk_prev:
  assumes c: "h c = Some cb" "c \<noteq> 0" and e: "0 < e" and B: "0 < fBegin cb"
    and sk: "skip_prev h (fPrev cb) = Some (Inr c')" "c' \<noteq> 0 \<Longrightarrow> h c' = Some b'"
    and it: "fCurBlock it = c" "fPos it = fBegin cb + int k * e" "Iter_fElemSize it = e"
  shows "iter_calls dbg h (replicate (Suc k) Prev) it =
    Some (Inr (rev (map (\<lambda>j. fBegin cb + int j * e) [0..<Suc k]),
      it\<lparr>fCurBlock := c', fPos := (if c' \<noteq> 0 then fEnd b' - e else 0)\<rparr>))"
  using it
proof (induction k arbitrary: it)
  case 0
  with B have pos: "fPos it \<noteq> 0" "fPos it = fBegin cb" by simp_all
  from Iter_prev_first [OF pos(1) _ _ pos(2) _ sk, where dbg = dbg] c 0 e show ?case by simp
next
  case (Suc k)
  from e have "0 \<le> int (Suc k) * e" by simp
  with B have pos: "fPos it \<noteq> 0" using Suc.prems(2) by linarith
  have pv: "fPos it - Iter_fElemSize it = fBegin cb + int k * e"
    using Suc.prems(2,3) by (simp add: algebra_simps)
  from e have "0 \<le> int k * e" by simp
  with pv have "fBegin cb \<le> fPos it - Iter_fElemSize it" by simp
  moreover from this e Suc.prems(3) have "fBegin cb \<le> fPos it" by simp
  ultimately have "Iter_prev dbg h it = Some (Inr (fPos it, it\<lparr>fPos := fPos it - Iter_fElemSize it\<rparr>))"
    using c Suc.prems(1) pos by (intro Iter_prev_inside) simp_all
  then
  have st: "Iter_prev dbg h it =
      Some (Inr (fPos it, it\<lparr>fPos := fPos it - Iter_fElemSize it\<rparr>))"
    by simp
  let ?it = "it\<lparr>fPos := fPos it - Iter_fElemSize it\<rparr>"
  have "iter_calls dbg h (replicate (Suc k) Prev) ?it =
    Some (Inr (rev (map (\<lambda>j. fBegin cb + int j * e) [0..<Suc k]),
      ?it\<lparr>fCurBlock := c', fPos := (if c' \<noteq> 0 then fEnd b' - e else 0)\<rparr>))"
    by (rule Suc.IH) (use Suc.prems pv in simp_all)
  with st Suc.prems(2) show ?case by simp
qed

subsection \<open>Traversals of a whole chain\<close>

lemma dlseg_dom: "dlseg h p bs n \<Longrightarrow> a \<in> set bs \<Longrightarrow> \<exists>b. h a = Some b"
  by (induction bs arbitrary: p) (auto split: option.splits)

lemma hd0_dropWhile:
  assumes "dlseg h p cs n" "0 \<notin> set cs"
  obtains (none) "dropWhile (marked_empty h) cs = []" "hd0 (dropWhile (marked_empty h) cs) = 0"
  | (some) c b rest where "dropWhile (marked_empty h) cs = c # rest"
      "hd0 (dropWhile (marked_empty h) cs) = c" "c \<noteq> 0" "h c = Some b"
proof (cases "dropWhile (marked_empty h) cs")
  case Nil
  then have "hd0 (dropWhile (marked_empty h) cs) = 0" by (simp only: hd0_simps)
  with Nil show ?thesis by (rule none)
next
  case (Cons c rest)
  then have "c \<in> set cs" by (metis list.set_intros(1) set_dropWhileD)
  with assms obtain b where "h c = Some b" "c \<noteq> 0" by (auto dest: dlseg_dom)
  with Cons show ?thesis by (intro some [of c rest b]) simp_all
qed

lemma slots_progression:
  assumes ok: "block_ok e a b" and e: "0 < e" and nz: "fBegin b \<noteq> 0"
  obtains m where "fEnd b = fBegin b + int m * e" "0 < m"
    "slots e b = map (\<lambda>j. fBegin b + int j * e) [0..<m]"
proof -
  from ok nz have dv: "e dvd fEnd b - fBegin b" and le: "fBegin b \<le> fEnd b"
    and "fBegin b < fEnd b"
    using e by (simp_all add: block_ok_def)
  obtain m where m: "fEnd b = fBegin b + int m * e" "nat ((fEnd b - fBegin b) div e) = m"
    by (rule span [OF e dv le])
  from m(1) \<open>fBegin b < fEnd b\<close> have "0 < m" by (cases m) simp_all
  with m nz show ?thesis by (intro that [of m]) (simp_all add: slots_def)
qed

lemma at_front_none:
  assumes "dropWhile (marked_empty h) cs = []" "fPos it = 0"
  shows "at_front h cs it"
  unfolding at_front_def assms(1) using assms(2) by simp

lemma at_front_some:
  assumes "dropWhile (marked_empty h) cs = c # rest" "fCurBlock it = c" "h c = Some b"
    "fPos it = fBegin b"
  shows "at_front h cs it"
  unfolding at_front_def assms(1) using assms(2-4) by simp

lemma at_back_none:
  assumes "dropWhile (marked_empty h) (rev cs) = []" "fPos it = 0"
  shows "at_back h cs it"
  unfolding at_back_def assms(1) using assms(2) by simp

lemma at_back_some:
  assumes "dropWhile (marked_empty h) (rev cs) = c # rest" "fCurBlock it = c" "h c = Some b"
    "fPos it = fEnd b - Iter_fElemSize it"
  shows "at_back h cs it"
  unfolding at_back_def assms(1) using assms(2-4) by simp

lemma iterate_forward:
  assumes e: "0 < fElemSize d" and bo: "blocks_ok d"
    and seg: "dlseg (heap d) p cs 0" "0 \<notin> set cs"
    and it: "at_front (heap d) cs it" "Iter_fElemSize it = fElemSize d"
  shows "\<exists>it'. iter_calls dbg (heap d) (replicate (length (chain_slots d cs) + 1) Next) it =
      Some (Inr (chain_slots d cs @ [0], it')) \<and> fPos it' = 0"
  using seg it
proof (induction cs arbitrary: p it)
  case Nil
  then have "fPos it = 0" by (simp add: at_front_def)
  then show ?case by (simp add: Iter_next_null)
next
  case (Cons c cs)
  from Cons.prems(1,2) obtain cb where b: "heap d c = Some cb" "fNext cb = hd0 cs"
      "dlseg (heap d) c cs 0" "c \<noteq> 0" "0 \<notin> set cs"
    by (auto simp: hd0_def split: option.splits list.splits)
  from blocks_okD [OF bo b(1)] have ok: "block_ok (fElemSize d) c cb" .
  show ?case
  proof (cases "fBegin cb = 0")
    case True
    with b(1) Cons.prems(3) have "at_front (heap d) cs it"
      by (simp add: at_front_def marked_empty_Some)
    from Cons.IH [OF b(3,5) this Cons.prems(4)] True b(1) show ?thesis
      by (simp add: block_slots_def)
  next
    case False
    with b(1) Cons.prems(3) have cur: "fCurBlock it = c" "fPos it = fBegin cb"
      by (simp_all add: at_front_def marked_empty_Some)
    from ok e False obtain m where m: "fEnd cb = fBegin cb + int m * fElemSize d" "0 < m"
        "slots (fElemSize d) cb = map (\<lambda>j. fBegin cb + int j * fElemSize d) [0..<m]"
      by (rule slots_progression)
    note sk = skip_next_chain [OF b(3,5), folded b(2)]
    from b(3,5) obtain it1 where
      w: "iter_calls dbg (heap d) (replicate (m - 0) Next) it =
            Some (Inr (map (\<lambda>j. fBegin cb + int j * fElemSize d) [0..<m], it1))"
      and a1: "at_front (heap d) cs it1" "Iter_fElemSize it1 = fElemSize d"
    proof (cases rule: hd0_dropWhile)
      case none
      let ?it = "it\<lparr>fCurBlock := 0, fPos := 0\<rparr>"
      from walk_next [OF b(1,4) e block_ok_step(3) [OF ok e False] m(1) sk _ m(2) cur(1) _
          Cons.prems(4), where dbg = dbg and b' = cb] cur(2) none(2)
      have "iter_calls dbg (heap d) (replicate (m - 0) Next) it =
            Some (Inr (map (\<lambda>j. fBegin cb + int j * fElemSize d) [0..<m], ?it))"
        by simp
      moreover have "at_front (heap d) cs ?it" by (rule at_front_none [OF none(1)]) simp
      ultimately show ?thesis using Cons.prems(4) by (intro that [of ?it]) simp_all
    next
      case (some c' b' rest)
      let ?it = "it\<lparr>fCurBlock := c', fPos := fBegin b'\<rparr>"
      from walk_next [OF b(1,4) e block_ok_step(3) [OF ok e False] m(1) sk _ m(2) cur(1) _
          Cons.prems(4), where dbg = dbg and b' = b'] cur(2) some(2-4)
      have "iter_calls dbg (heap d) (replicate (m - 0) Next) it =
            Some (Inr (map (\<lambda>j. fBegin cb + int j * fElemSize d) [0..<m], ?it))"
        by simp
      moreover have "at_front (heap d) cs ?it"
        by (rule at_front_some [OF some(1) _ some(4)]) simp_all
      ultimately show ?thesis using Cons.prems(4) by (intro that [of ?it]) simp_all
    qed
    from Cons.IH [OF b(3,5) a1] obtain it' where
      r: "iter_calls dbg (heap d) (replicate (length (chain_slots d cs) + 1) Next) it1 =
            Some (Inr (chain_slots d cs @ [0], it'))" "fPos it' = 0"
      by blast
    from iter_calls_append [OF w r(1)] m(3) b(1) r(2) show ?thesis
      by (simp add: block_slots_def replicate_add [symmetric] del: replicate_Suc)
  qed
qed

lemma iterate_backward:
  assumes e: "0 < fElemSize d" and bo: "blocks_ok d"
    and seg: "dlseg (heap d) 0 cs n" "0 \<notin> set cs"
    and it: "at_back (heap d) cs it" "Iter_fElemSize it = fElemSize d"
  shows "\<exists>it'. iter_calls dbg (heap d) (replicate (length (chain_slots d cs) + 1) Prev) it =
      Some (Inr (rev (chain_slots d cs) @ [0], it')) \<and> fPos it' = 0"
  using seg it
proof (induction cs arbitrary: n it rule: rev_induct)
  case Nil
  then have "fPos it = 0" by (simp add: at_back_def)
  then show ?case by (simp add: Iter_prev_null)
next
  case (snoc c cs)
  from snoc.prems(1,2) obtain cb where b: "heap d c = Some cb" "fPrev cb = last0 cs"
      "dlseg (heap d) 0 cs c" "c \<noteq> 0" "0 \<notin> set cs"
    by (auto simp: dlseg_snoc last0_def)
  from blocks_okD [OF bo b(1)] have ok: "block_ok (fElemSize d) c cb" .
  have eq: "fBegin x = 0 \<longleftrightarrow> fEnd x = 0" if "heap d a = Some x" for a x
    using blocks_okD [OF bo that] by (simp add: block_ok_def)
  show ?case
  proof (cases "fBegin cb = 0")
    case True
    with b(1) snoc.prems(3) have "at_back (heap d) cs it"
      by (simp add: at_back_def marked_empty_Some)
    from snoc.IH [OF b(3,5) this snoc.prems(4)] True b(1) show ?thesis
      by (simp add: block_slots_def)
  next
    case False
    with b(1) snoc.prems(3,4) have cur: "fCurBlock it = c" "fPos it = fEnd cb - fElemSize d"
      by (simp_all add: at_back_def marked_empty_Some)
    from ok e False obtain m where m: "fEnd cb = fBegin cb + int m * fElemSize d" "0 < m"
        "slots (fElemSize d) cb = map (\<lambda>j. fBegin cb + int j * fElemSize d) [0..<m]"
      by (rule slots_progression)
    from m(2) obtain k where k: "m = Suc k" by (cases m) simp_all
    from cur(2) m(1) k have pos: "fPos it = fBegin cb + int k * fElemSize d"
      by (simp add: algebra_simps)
    have sk: "skip_prev (heap d) (fPrev cb) =
        Some (Inr (hd0 (dropWhile (marked_empty (heap d)) (rev cs))))"
      unfolding b(2) by (rule skip_prev_chain [OF b(3,5)]) (rule eq)
    from b(3,5) have "dlseg (heap d) 0 (rev (rev cs)) c" "0 \<notin> set (rev cs)" by simp_all
    have "\<exists>it1. iter_calls dbg (heap d) (replicate (Suc k) Prev) it =
            Some (Inr (rev (map (\<lambda>j. fBegin cb + int j * fElemSize d) [0..<Suc k]), it1)) \<and>
          at_back (heap d) cs it1 \<and> Iter_fElemSize it1 = fElemSize d"
    proof (cases "dropWhile (marked_empty (heap d)) (rev cs)")
      case Nil
      let ?it = "it\<lparr>fCurBlock := 0, fPos := 0\<rparr>"
      from Nil have z: "hd0 (dropWhile (marked_empty (heap d)) (rev cs)) = 0"
        by (simp only: hd0_simps)
      from walk_prev [OF b(1,4) e block_ok_step(3) [OF ok e False] sk _ cur(1) pos
          snoc.prems(4), where dbg = dbg and b' = cb] z
      have "iter_calls dbg (heap d) (replicate (Suc k) Prev) it =
            Some (Inr (rev (map (\<lambda>j. fBegin cb + int j * fElemSize d) [0..<Suc k]), ?it))"
        by simp
      moreover have "at_back (heap d) cs ?it" by (rule at_back_none [OF Nil]) simp
      ultimately show ?thesis using snoc.prems(4) by (intro exI [of _ ?it]) simp
    next
      case (Cons c' rest)
      then have "c' \<in> set (rev cs)" by (metis list.set_intros(1) set_dropWhileD)
      with b(3,5) obtain b' where b': "heap d c' = Some b'" "c' \<noteq> 0"
        by (auto dest: dlseg_dom)
      let ?it = "it\<lparr>fCurBlock := c', fPos := fEnd b' - fElemSize d\<rparr>"
      from Cons have z: "hd0 (dropWhile (marked_empty (heap d)) (rev cs)) = c'"
        by (simp only: hd0_simps)
      from walk_prev [OF b(1,4) e block_ok_step(3) [OF ok e False] sk _ cur(1) pos
          snoc.prems(4), where dbg = dbg and b' = b'] z b'
      have "iter_calls dbg (heap d) (replicate (Suc k) Prev) it =
            Some (Inr (rev (map (\<lambda>j. fBegin cb + int j * fElemSize d) [0..<Suc k]), ?it))"
        by simp
      moreover have "at_back (heap d) cs ?it"
        by (rule at_back_some [OF Cons _ b'(1)]) (simp_all add: snoc.prems(4))
      ultimately show ?thesis using snoc.prems(4) by (intro exI [of _ ?it]) simp
    qed
    then obtain it1 where
      w: "iter_calls dbg (heap d) (replicate (Suc k) Prev) it =
            Some (Inr (rev (map (\<lambda>j. fBegin cb + int j * fElemSize d) [0..<Suc k]), it1))"
      and a1: "at_back (heap d) cs it1" "Iter_fElemSize it1 = fElemSize d"
      by blast
    from snoc.IH [OF b(3,5) a1] obtain it' where
      r: "iter_calls dbg (heap d) (replicate (length (chain_slots d cs) + 1) Prev) it1 =
            Some (Inr (rev (chain_slots d cs) @ [0], it'))" "fPos it' = 0"
      by blast
    from m(3) b(1) k have sl: "chain_slots d (cs @ [c]) =
        chain_slots d cs @ map (\<lambda>j. fBegin cb + int j * fElemSize d) [0..<Suc k]"
      by (simp add: block_slots_def del: upt_Suc)
    then have "length (chain_slots d (cs @ [c])) + 1 = Suc k + (length (chain_slots d cs) + 1)"
      by simp
    then have "replicate (length (chain_slots d (cs @ [c])) + 1) Prev =
        replicate (Suc k) Prev @ replicate (length (chain_slots d cs) + 1) Prev"
      by (simp only: replicate_add)
    with iter_calls_append [OF w r(1)] sl r(2) show ?thesis
      by (intro exI [of _ it']) (simp del: upt_Suc replicate_Suc)
  qed
qed

subsection \<open>reset\<close>

lemma Iter_reset_front:
  assumes ci: "chain_inv d bs"
  shows "\<exists>it0. Iter_reset d kFront_IterStart it = Some (Inr it0) \<and>
    at_front (heap d) bs it0 \<and> Iter_fElemSize it0 = fElemSize d"
proof -
  from ci have seg: "dlseg (heap d) 0 bs 0" "0 \<notin> set bs" and f: "fFront d = hd0 bs"
    by (simp_all add: chain_inv_def)
  note sk = skip_next_chain [OF seg, folded f]
  from seg show ?thesis
  proof (cases rule: hd0_dropWhile)
    case none
    let ?it = "it\<lparr>Iter_fElemSize := fElemSize d, fCurBlock := 0, fPos := 0\<rparr>"
    from sk none(2) have "Iter_reset d kFront_IterStart it = Some (Inr ?it)"
      by (simp add: Iter_reset_def Let_def)
    moreover have "at_front (heap d) bs ?it" by (rule at_front_none [OF none(1)]) simp
    ultimately show ?thesis by (intro exI [of _ ?it]) simp
  next
    case (some c b rest)
    let ?it = "it\<lparr>Iter_fElemSize := fElemSize d, fCurBlock := c, fPos := fBegin b\<rparr>"
    from sk some(2-4) have "Iter_reset d kFront_IterStart it = Some (Inr ?it)"
      by (simp add: Iter_reset_def Let_def)
    moreover have "at_front (heap d) bs ?it" by (rule at_front_some [OF some(1) _ some(4)]) simp_all
    ultimately show ?thesis by (intro exI [of _ ?it]) simp
  qed
qed

lemma Iter_reset_back:
  assumes ci: "chain_inv d bs" and bo: "blocks_ok d"
  shows "\<exists>it0. Iter_reset d kBack_IterStart it = Some (Inr it0) \<and>
    at_back (heap d) bs it0 \<and> Iter_fElemSize it0 = fElemSize d"
proof -
  from ci have seg: "dlseg (heap d) 0 bs 0" "0 \<notin> set bs" and f: "fBack d = last0 bs"
    by (simp_all add: chain_inv_def)
  have eq: "fBegin x = 0 \<longleftrightarrow> fEnd x = 0" if "heap d a = Some x" for a x
    using blocks_okD [OF bo that] by (simp add: block_ok_def)
  have sk: "skip_prev (heap d) (fBack d) =
      Some (Inr (hd0 (dropWhile (marked_empty (heap d)) (rev bs))))"
    unfolding f by (rule skip_prev_chain [OF seg]) (rule eq)
  show ?thesis
  proof (cases "dropWhile (marked_empty (heap d)) (rev bs)")
    case Nil
    let ?it = "it\<lparr>Iter_fElemSize := fElemSize d, fCurBlock := 0, fPos := 0\<rparr>"
    from Nil have z: "hd0 (dropWhile (marked_empty (heap d)) (rev bs)) = 0"
      by (simp only: hd0_simps)
    from sk z have "Iter_reset d kBack_IterStart it = Some (Inr ?it)"
      by (simp add: Iter_reset_def Let_def)
    moreover have "at_back (heap d) bs ?it" by (rule at_back_none [OF Nil]) simp
    ultimately show ?thesis by (intro exI [of _ ?it]) simp
  next
    case (Cons c rest)
    then have "c \<in> set (rev bs)" by (metis list.set_intros(1) set_dropWhileD)
    with seg obtain b where b: "heap d c = Some b" "c \<noteq> 0" by (auto dest: dlseg_dom)
    let ?it = "it\<lparr>Iter_fElemSize := fElemSize d, fCurBlock := c,
      fPos := fEnd b - fElemSize d\<rparr>"
    from Cons have z: "hd0 (dropWhile (marked_empty (heap d)) (rev bs)) = c"
      by (simp only: hd0_simps)
    from sk z b have "Iter_reset d kBack_IterStart it = Some (Inr ?it)"
      by (simp add: Iter_reset_def Let_def)
    moreover have "at_back (heap d) bs ?it" by (rule at_back_some [OF Cons _ b(1)]) simp_all
    ultimately show ?thesis by (intro exI [of _ ?it]) simp
  qed
qed

subsection \<open>The iterator yields the contents\<close>

lemma Iter_next_returns: "Iter_next dbg h it = Some (Inr (p, it')) \<Longrightarrow> p = fPos it"
  by (auto simp: Iter_next_def Let_def bindO_def SkASSERT_def
      split: if_splits option.splits sum.splits)

lemma Iter_prev_returns: "Iter_prev dbg h it = Some (Inr (p, it')) \<Longrightarrow> p = fPos it"
  by (auto simp: Iter_prev_def Let_def bindO_def SkASSERT_def
      split: if_splits option.splits sum.splits)

lemma slots_nonnull:
  assumes inv: "deque_inv d bs xs"
  shows "0 \<notin> set xs"
proof
  assume "0 \<in> set xs"
  with inv obtain c where "start c \<le> 0" "0 < c" by (rule slot_in_chain)
  with sizeof_Block_pos show False by (simp add: start_def)
qed

subsection \<open>The client's memory\<close>

lemma read_write_same:
  "int (length v) = n \<Longrightarrow> read_bytes p n (write_bytes p v m) = v"
  by (auto simp: read_bytes_def write_bytes_def intro!: nth_equalityI)

lemma read_write_other:
  "int (length v) = n \<Longrightarrow> x + n \<le> p \<or> p + n \<le> x \<Longrightarrow>
   read_bytes x n (write_bytes p v m) = read_bytes x n m"
  by (auto simp: read_bytes_def write_bytes_def)


lemma write_bytes_Nil [simp]: "write_bytes p [] m = m"
  by (auto simp: write_bytes_def fun_eq_iff)

subsection \<open>The scenario of five elements\<close>

lemma length_le32 [simp]: "length (le32 w) = 4"
  by (simp add: le32_def)

text \<open>
  Claim C7: \<^verbatim>\<open>SkDeque(4, 2)\<close>, no inline storage; the allocator returns non-null
  addresses \<open>a1\<close>, \<open>a3\<close>, \<open>a5\<close> of Blocks of 48 bytes that do not overlap (the second
  and the fourth push allocate nothing). After five \<^verbatim>\<open>push_back\<close> whose slots are written
  with the values 1 to 5, \<^verbatim>\<open>front()\<close> is the slot that holds 1, \<^verbatim>\<open>back()\<close> the slot that
  holds 5, \<open>fCount\<close> is 5 and \<^verbatim>\<open>numBlocksAllocated()\<close> is 3; after five \<^verbatim>\<open>pop_front\<close> more,
  \<open>fCount\<close> is 0 and \<^verbatim>\<open>front()\<close> and \<^verbatim>\<open>back()\<close> are null. In both builds.
\<close>

theorem five_pushes_five_pops:
  assumes pos: "0 < a1" "0 < a3" "0 < a5"
    and apart: "a1 + 48 \<le> a3 \<or> a3 + 48 \<le> a1" "a1 + 48 \<le> a5 \<or> a5 + 48 \<le> a1"
      "a3 + 48 \<le> a5 \<or> a5 + 48 \<le> a3"
  shows "\<exists>d0 d m' d'.
     SkDeque_new dbg 4 2 = Inr d0 \<and>
     push_all [(a1, le32 1), (a2, le32 2), (a3, le32 3), (a4, le32 4), (a5, le32 5)] (d0, m) =
       Inr (d, m') \<and>
     front dbg d = Inr (start a1) \<and> read_bytes (start a1) 4 m' = le32 1 \<and>
     SkDeque_back dbg d = Inr (start a5) \<and> read_bytes (start a5) 4 m' = le32 5 \<and>
     fCount d = 5 \<and> numBlocksAllocated d = Some (Inr 3) \<and>
     pop_front_times dbg 5 d = Inr d' \<and>
     fCount d' = 0 \<and> front dbg d' = Inr 0 \<and> SkDeque_back dbg d' = Inr 0"
proof -
  let ?new = "\<lparr>fElemSize = 4, fInitialStorage = 0, fCount = 0, fAllocCount = 2, fFront = 0,
      fBack = 0, heap = Map.empty, freed = []\<rparr>"
  let ?full = "\<lparr>fElemSize = 4, fInitialStorage = 0, fCount = 5, fAllocCount = 2,
      fFront = a1, fBack = a5,
      heap = [a1 \<mapsto> \<lparr>fNext = a3, fPrev = 0, fBegin = a1 + 40, fEnd = 48 + a1,
                      fStop = a1 + 48\<rparr>,
              a3 \<mapsto> \<lparr>fNext = a5, fPrev = a1, fBegin = a3 + 40, fEnd = 48 + a3,
                      fStop = a3 + 48\<rparr>,
              a5 \<mapsto> \<lparr>fNext = 0, fPrev = a3, fBegin = a5 + 40, fEnd = 44 + a5,
                      fStop = a5 + 48\<rparr>],
      freed = []\<rparr>"
  let ?mem = "write_bytes (a5 + 40) (le32 5) (write_bytes (44 + a3) (le32 4)
      (write_bytes (a3 + 40) (le32 3) (write_bytes (44 + a1) (le32 2)
      (write_bytes (a1 + 40) (le32 1) m))))"
  let ?fullrained = "\<lparr>fElemSize = 4, fInitialStorage = 0, fCount = 0, fAllocCount = 2,
      fFront = a5, fBack = a5,
      heap = [a5 \<mapsto> \<lparr>fNext = 0, fPrev = 0, fBegin = 0, fEnd = 0, fStop = a5 + 48\<rparr>],
      freed = [a3, a1]\<rparr>"
  from pos apart have ne: "a1 \<noteq> 0" "a3 \<noteq> 0" "a5 \<noteq> 0" "a1 \<noteq> a3" "a3 \<noteq> a1" "a1 \<noteq> a5"
    "a5 \<noteq> a1" "a3 \<noteq> a5" "a5 \<noteq> a3"
    by auto
  have 0: "SkDeque_new dbg 4 2 = Inr ?new" by (simp add: SkDeque_new_def)
  have 1: "push_all [(a1, le32 1), (a2, le32 2), (a3, le32 3), (a4, le32 4), (a5, le32 5)]
      (?new, m) = Inr (?full, ?mem)"
    using ne pos by (simp add: eval_defs fun_upd_twist)
  have 2: "front dbg ?full = Inr (start a1)" "SkDeque_back dbg ?full = Inr (start a5)"
    using ne pos by (simp_all add: front_def SkDeque_back_def start_def sizeof_Block_def Let_def)
  have "read_bytes (a1 + 40) 4 ?mem = read_bytes (a1 + 40) 4 (write_bytes (a1 + 40) (le32 1) m)"
    using apart(1,2) by (auto simp: read_write_other)
  then have 3: "read_bytes (start a1) 4 ?mem = le32 1"
    by (simp add: read_write_same start_def sizeof_Block_def)
  have 4: "read_bytes (start a5) 4 ?mem = le32 5"
    by (simp add: read_write_same start_def sizeof_Block_def)
  have 5: "numBlocksAllocated ?full = Some (Inr 3)"
    using ne by (simp add: numBlocksAllocated_def numBlocks_loop.simps)
  have 6: "pop_front_times dbg 5 ?full = Inr ?fullrained"
    using ne pos by (simp add: eval_defs fun_upd_twist numeral_eq_Suc)
  have 7: "front dbg ?fullrained = Inr 0" "SkDeque_back dbg ?fullrained = Inr 0"
    using ne by (simp_all add: front_def SkDeque_back_def Let_def)
  from 0 1 2 3 4 5 6 7 show ?thesis
    by (intro exI [of _ ?new] exI [of _ ?full] exI [of _ ?mem] exI [of _ ?fullrained]) simp
qed

theorem five_pushes_five_pops_witness:
  "0 < (1000 :: int) \<and> (1000 + 48 \<le> (2000 :: int) \<or> 2000 + 48 \<le> (1000 :: int)) \<and>
   (\<exists>d0 d m' d'.
     SkDeque_new True 4 2 = Inr d0 \<and>
     push_all [(1000, le32 1), (0, le32 2), (2000, le32 3), (0, le32 4), (3000, le32 5)]
       (d0, \<lambda>a. 0) = Inr (d, m') \<and>
     front True d = Inr 1040 \<and> read_bytes 1040 4 m' = le32 1 \<and>
     SkDeque_back True d = Inr 3040 \<and> read_bytes 3040 4 m' = le32 5 \<and>
     fCount d = 5 \<and> numBlocksAllocated d = Some (Inr 3) \<and>
     pop_front_times True 5 d = Inr d' \<and>
     fCount d' = 0 \<and> front True d' = Inr 0 \<and> SkDeque_back True d' = Inr 0)"
  using five_pushes_five_pops [of 1000 2000 3000 True 0 0 "\<lambda>a. 0"]
  by (simp add: start_def sizeof_Block_def)

section \<open>Runs within the ranges of the machine\<close>

lemma reach_in_range_reach: "reach_in_range dbg d xs \<Longrightarrow> reach dbg d xs"
  by (induction rule: reach_in_range.induct) (auto intro: reach.intros)

lemma run_reach_in_range:
  "reach_in_range dbg d xs \<Longrightarrow> ops_ok dbg ops (d, xs) \<Longrightarrow> ops_in_range dbg ops (d, xs) \<Longrightarrow>
   run dbg ops (d, xs) = Inr (d', xs') \<Longrightarrow> reach_in_range dbg d' xs'"
proof (induction ops arbitrary: d xs)
  case Nil
  then show ?case by simp
next
  case (Cons x ops)
  from Cons.prems(4) obtain d1 xs1 where st: "step dbg x (d, xs) = Inr (d1, xs1)"
    and rn: "run dbg ops (d1, xs1) = Inr (d', xs')"
    by (auto simp: bindE_eq_Inr)
  from Cons.prems(2) st have ok: "op_ok x d" and oks: "ops_ok dbg ops (d1, xs1)"
    by simp_all
  from Cons.prems(3) st have ir: "op_in_range x d" and irs: "ops_in_range dbg ops (d1, xs1)"
    by simp_all
  have "reach_in_range dbg d1 xs1"
  proof (cases x)
    case (PushFront a)
    with st ok ir Cons.prems(1) show ?thesis
      by (auto simp: bindE_eq_Inr intro: reach_in_range.push_front)
  next
    case (PushBack a)
    with st ok ir Cons.prems(1) show ?thesis
      by (auto simp: bindE_eq_Inr intro: reach_in_range.push_back)
  next
    case PopFront
    with st ok ir Cons.prems(1) show ?thesis
      by (auto simp: bindE_eq_Inr intro: reach_in_range.pop_front)
  next
    case PopBack
    with st ok ir Cons.prems(1) show ?thesis
      by (auto simp: bindE_eq_Inr intro: reach_in_range.pop_back)
  qed
  from Cons.IH [OF this oks irs rn] show ?case .
qed

lemmas range_defs = alloc_in_range_def extent_in_range_def INT_MAX_def frees_inline_front_def
  frees_inline_back_def

lemma three_popped_in_range: "reach_in_range dbg three_popped [2040, 3040]"
proof -
  let ?new = "\<lparr>fElemSize = 4, fInitialStorage = 0, fCount = 0,
             fAllocCount = 1, fFront = 0, fBack = 0, heap = Map.empty, freed = []\<rparr>"
  let ?ops = "[PushBack 1000, PushBack 2000, PushBack 3000, PopFront]"
  have 0: "SkDeque_new dbg 4 1 = Inr ?new" by (simp add: SkDeque_new_def)
  have 1: "ops_ok dbg ?ops (?new, [])" by (simp add: eval_defs)
  have 2: "ops_in_range dbg ?ops (?new, [])" by (simp add: eval_defs range_defs)
  have 3: "run dbg ?ops (?new, []) = Inr (three_popped, [2040, 3040])"
    by (simp add: eval_defs three_popped_def fun_upd_twist)
  from run_reach_in_range [OF reach_in_range.new [OF 0] 1 2 3] show ?thesis .
qed

lemma three_popped_twice_in_range: "reach_in_range dbg three_popped_twice [3040]"
proof -
  have "0 < fCount three_popped" "\<not> frees_inline_front three_popped"
    by (simp_all add: three_popped_def frees_inline_front_def)
  from reach_in_range.pop_front [OF three_popped_in_range this three_popped_pop]
  show ?thesis by simp
qed

subsection \<open>The values stay within the ranges\<close>

lemma in_rangeI:
  assumes "0 \<le> fCount d" "fCount d \<le> INT_MAX"
    "\<And>a b. heap d a = Some b \<Longrightarrow> extent_in_range (fElemSize d) a (fStop b)"
  shows "in_range d"
  using assms by (simp add: in_range_def)

lemma in_rangeD:
  assumes "in_range d"
  shows "0 \<le> fCount d" "fCount d \<le> INT_MAX"
    "heap d a = Some b \<Longrightarrow> extent_in_range (fElemSize d) a (fStop b)"
  using assms by (simp_all add: in_range_def)

lemma push_back_in_range:
  assumes ci: "chain_inv d bs" and ir: "in_range d" and a: "alloc_ok d a"
    and ar: "alloc_in_range d a" and c: "fCount d < INT_MAX" and op: "push_back a d = Inr (p, d')"
  shows "in_range d'"
proof -
  from a have a0: "a \<noteq> 0" "heap d a = None" by (auto simp: alloc_ok_def)
  note F = push_back_fields [OF ci a0 op]
  note R = in_rangeD [OF ir]
  from ci a0 op show ?thesis
  proof (cases rule: push_back_effect)
    case first
    show ?thesis
      by (rule in_rangeI) (use F R c ar first(3) in \<open>auto simp: alloc_in_range_def split: if_splits\<close>)
  next
    case (init bs0 l lb)
    show ?thesis
      by (rule in_rangeI) (use F R c init(2,5) in \<open>auto split: if_splits\<close>)
  next
    case (room bs0 l lb)
    show ?thesis
      by (rule in_rangeI) (use F R c room(2,6) in \<open>auto split: if_splits\<close>)
  next
    case (grow bs0 l lb)
    show ?thesis
      by (rule in_rangeI) (use F R c ar grow(2,6) in \<open>auto simp: alloc_in_range_def split: if_splits\<close>)
  qed
qed

lemma push_front_in_range:
  assumes ci: "chain_inv d bs" and ir: "in_range d" and a: "alloc_ok d a"
    and ar: "alloc_in_range d a" and c: "fCount d < INT_MAX" and op: "push_front a d = Inr (p, d')"
  shows "in_range d'"
proof -
  from a have a0: "a \<noteq> 0" "heap d a = None" by (auto simp: alloc_ok_def)
  note F = push_front_fields [OF ci a0 op]
  note R = in_rangeD [OF ir]
  from ci a0 op show ?thesis
  proof (cases rule: push_front_effect)
    case first
    show ?thesis
      by (rule in_rangeI) (use F R c ar first(3) in \<open>auto simp: alloc_in_range_def split: if_splits\<close>)
  next
    case (init f rest fb)
    show ?thesis
      by (rule in_rangeI) (use F R c init(2,5) in \<open>auto split: if_splits\<close>)
  next
    case (room f rest fb)
    show ?thesis
      by (rule in_rangeI) (use F R c room(2,6) in \<open>auto split: if_splits\<close>)
  next
    case (grow f rest fb)
    show ?thesis
      by (rule in_rangeI) (use F R c ar grow(2,6) in \<open>auto simp: alloc_in_range_def split: if_splits\<close>)
  qed
qed

lemma pop_front_in_range:
  assumes ci: "chain_inv d bs" and ir: "in_range d" and c: "0 < fCount d"
    and op: "pop_front dbg d = Inr d'"
  shows "in_range d'"
proof -
  note F = pop_front_fields [OF ci op]
  note R = in_rangeD [OF ir]
  from ci op show ?thesis
  proof (cases rule: pop_front_effect)
    case (live f rest fb)
    show ?thesis
      by (rule in_rangeI) (use F R c live(2,4) in \<open>auto split: if_splits\<close>)
  next
    case (advance f n rest fb nb)
    show ?thesis
      by (rule in_rangeI) (use F R c advance(4,5) in \<open>auto split: if_splits\<close>)
  qed
qed

lemma pop_back_in_range:
  assumes ci: "chain_inv d bs" and ir: "in_range d" and c: "0 < fCount d"
    and op: "pop_back dbg d = Inr d'"
  shows "in_range d'"
proof -
  note F = pop_back_fields [OF ci op]
  note R = in_rangeD [OF ir]
  from ci op show ?thesis
  proof (cases rule: pop_back_effect)
    case (live bs0 l lb)
    show ?thesis
      by (rule in_rangeI) (use F R c live(2,4) in \<open>auto split: if_splits\<close>)
  next
    case (advance bs0 n l lb nb)
    show ?thesis
      by (rule in_rangeI) (use F R c advance(4,5) in \<open>auto split: if_splits\<close>)
  qed
qed

lemma reach_in_range_in_range: "reach_in_range dbg d xs \<Longrightarrow> in_range d"
proof (induction rule: reach_in_range.induct)
  case (new elemSize allocCount d)
  from SkDeque_new_fields [OF new.hyps] show ?case by (simp add: in_range_def INT_MAX_def)
next
  case (storage storage elemSize storageSize allocCount d)
  from SkDeque_storage_fields [OF storage.hyps(3)] SkDeque_storage_chain [OF storage.hyps(3)]
    storage.hyps(2)
  show ?case by (auto simp: in_range_def INT_MAX_def chain_inv_def init_def split: if_splits)
next
  case (push_front d xs a p d')
  from reach_chain [OF reach_in_range_reach [OF push_front.hyps(1)]] obtain bs
    where "chain_inv d bs" ..
  from push_front_in_range [OF this push_front.IH push_front.hyps(2-5)] show ?case .
next
  case (push_back d xs a p d')
  from reach_chain [OF reach_in_range_reach [OF push_back.hyps(1)]] obtain bs
    where "chain_inv d bs" ..
  from push_back_in_range [OF this push_back.IH push_back.hyps(2-5)] show ?case .
next
  case (pop_front d xs d')
  from reach_chain [OF reach_in_range_reach [OF pop_front.hyps(1)]] obtain bs
    where "chain_inv d bs" ..
  from pop_front_in_range [OF this pop_front.IH pop_front.hyps(2,4)] show ?case .
next
  case (pop_back d xs d')
  from reach_chain [OF reach_in_range_reach [OF pop_back.hyps(1)]] obtain bs
    where "chain_inv d bs" ..
  from pop_back_in_range [OF this pop_back.IH pop_back.hyps(2,4)] show ?case .
qed

section \<open>The occupancy of the Blocks, within the ranges\<close>



section \<open>Counting the Blocks\<close>

lemma reach_numBlocks:
  assumes "reach dbg d xs"
  shows "numBlocksAllocated d = Some (Inr (int (card (dom (heap d)))))" "finite (dom (heap d))"
proof -
  from reach_chain [OF assms] obtain bs where ci: "chain_inv d bs" ..
  from numBlocksAllocated_chain [OF ci] chain_inv_card [OF ci]
  show "numBlocksAllocated d = Some (Inr (int (card (dom (heap d)))))" by simp
  from ci show "finite (dom (heap d))" by (simp add: chain_inv_def)
qed

lemma card_less_one:
  assumes "finite A" "x \<in> A"
  shows "int (card (A - {x})) = int (card A) - 1"
proof -
  from assms have "0 < card A" by (auto simp: card_gt_0_iff)
  with assms show ?thesis by (simp add: card_Diff_singleton of_nat_diff Suc_leI)
qed

lemma pop_front_exact:
  assumes r: "reach_in_range dbg d xs" and vc: "valid_config d" and c: "0 < fCount d"
    and ni: "\<not> frees_inline_front d"
  shows "\<exists>f fb d'. fFront d = f \<and> f \<noteq> 0 \<and> heap d f = Some fb \<and> pop_front dbg d = Inr d' \<and>
     reach_in_range dbg d' (tl xs) \<and>
     (if fBegin fb \<noteq> 0
      then fBegin fb + fElemSize d \<le> fEnd fb \<and>
        d' = d\<lparr>fCount := fCount d - 1,
               heap := (heap d)(f \<mapsto>
                 (if fBegin fb + fElemSize d < fEnd fb
                  then fb\<lparr>fBegin := fBegin fb + fElemSize d\<rparr>
                  else fb\<lparr>fBegin := 0, fEnd := 0\<rparr>))\<rparr> \<and>
        numBlocksAllocated d' = numBlocksAllocated d
      else \<exists>n nb. fNext fb = n \<and> n \<noteq> 0 \<and> n \<noteq> f \<and> heap d n = Some nb \<and> fBegin nb \<noteq> 0 \<and>
        fBegin nb + fElemSize d \<le> fEnd nb \<and>
        d' = d\<lparr>fCount := fCount d - 1, fFront := n, freed := f # freed d,
               heap := ((heap d)(f := None))(n \<mapsto>
                 (if fBegin nb + fElemSize d < fEnd nb
                  then nb\<lparr>fPrev := 0, fBegin := fBegin nb + fElemSize d\<rparr>
                  else nb\<lparr>fPrev := 0, fBegin := 0, fEnd := 0\<rparr>))\<rparr> \<and>
        numBlocksAllocated d = Some (Inr (int (card (dom (heap d))))) \<and>
        numBlocksAllocated d' = Some (Inr (int (card (dom (heap d))) - 1)))"
proof -
  note rr = reach_in_range_reach [OF r]
  from reach_inv [OF rr vc] obtain bs where inv: "deque_inv d bs xs" ..
  from c deque_invD(9) [OF inv] have ne: "xs \<noteq> []" by auto
  note N = reach_numBlocks [OF rr]
  from inv ne show ?thesis
  proof (cases rule: front_live)
    case (here f rest fb)
    let ?d' = "d\<lparr>fCount := fCount d - 1,
               heap := (heap d)(f \<mapsto>
                 (if fBegin fb + fElemSize d < fEnd fb
                  then fb\<lparr>fBegin := fBegin fb + fElemSize d\<rparr>
                  else fb\<lparr>fBegin := 0, fEnd := 0\<rparr>))\<rparr>"
    from pop_front_live [OF here(2-5), of dbg] c here(6)
    have op: "pop_front dbg d = Inr ?d'" by simp
    from reach_in_range.pop_front [OF r c ni op] have r': "reach_in_range dbg ?d' (tl xs)" .
    from here(4) have "dom (heap ?d') = dom (heap d)" by auto
    with reach_numBlocks(1) [OF reach_in_range_reach [OF r']] N(1)
    have "numBlocksAllocated ?d' = numBlocksAllocated d" by simp
    with here(2-6) op r' show ?thesis by auto
  next
    case (after f n rest fb nb)
    let ?d' = "d\<lparr>fCount := fCount d - 1, fFront := n, freed := f # freed d,
               heap := ((heap d)(f := None))(n \<mapsto>
                 (if fBegin nb + fElemSize d < fEnd nb
                  then nb\<lparr>fPrev := 0, fBegin := fBegin nb + fElemSize d\<rparr>
                  else nb\<lparr>fPrev := 0, fBegin := 0, fEnd := 0\<rparr>))\<rparr>"
    from pop_front_advance [OF after(2-9), of dbg] c after(11)
    have op: "pop_front dbg d = Inr ?d'" by simp
    from reach_in_range.pop_front [OF r c ni op] have r': "reach_in_range dbg ?d' (tl xs)" .
    from after(4,8,9) have dm: "dom (heap ?d') = dom (heap d) - {f}" by auto
    from after(4) have "f \<in> dom (heap d)" by auto
    with N(2) have "int (card (dom (heap d) - {f})) = int (card (dom (heap d))) - 1"
      by (rule card_less_one)
    with reach_numBlocks(1) [OF reach_in_range_reach [OF r']] dm
    have "numBlocksAllocated ?d' = Some (Inr (int (card (dom (heap d))) - 1))" by simp
    with after(2-11) op r' N(1) show ?thesis by auto
  qed
qed

lemma pop_back_exact:
  assumes r: "reach_in_range dbg d xs" and vc: "valid_config d" and c: "0 < fCount d"
    and ni: "\<not> frees_inline_back d"
  shows "\<exists>l lb d'. fBack d = l \<and> l \<noteq> 0 \<and> heap d l = Some lb \<and> pop_back dbg d = Inr d' \<and>
     reach_in_range dbg d' (butlast xs) \<and>
     (if fEnd lb \<noteq> 0
      then fBegin lb \<le> fEnd lb - fElemSize d \<and>
        d' = d\<lparr>fCount := fCount d - 1,
               heap := (heap d)(l \<mapsto>
                 (if fBegin lb < fEnd lb - fElemSize d
                  then lb\<lparr>fEnd := fEnd lb - fElemSize d\<rparr>
                  else lb\<lparr>fBegin := 0, fEnd := 0\<rparr>))\<rparr> \<and>
        numBlocksAllocated d' = numBlocksAllocated d
      else \<exists>n nb. fPrev lb = n \<and> n \<noteq> 0 \<and> n \<noteq> l \<and> heap d n = Some nb \<and> fEnd nb \<noteq> 0 \<and>
        fBegin nb \<le> fEnd nb - fElemSize d \<and>
        d' = d\<lparr>fCount := fCount d - 1, fBack := n, freed := l # freed d,
               heap := ((heap d)(l := None))(n \<mapsto>
                 (if fBegin nb < fEnd nb - fElemSize d
                  then nb\<lparr>fNext := 0, fEnd := fEnd nb - fElemSize d\<rparr>
                  else nb\<lparr>fNext := 0, fBegin := 0, fEnd := 0\<rparr>))\<rparr> \<and>
        numBlocksAllocated d = Some (Inr (int (card (dom (heap d))))) \<and>
        numBlocksAllocated d' = Some (Inr (int (card (dom (heap d))) - 1)))"
proof -
  note rr = reach_in_range_reach [OF r]
  from reach_inv [OF rr vc] obtain bs where inv: "deque_inv d bs xs" ..
  from c deque_invD(9) [OF inv] have ne: "xs \<noteq> []" by auto
  note N = reach_numBlocks [OF rr]
  from inv ne show ?thesis
  proof (cases rule: back_live)
    case (here bs0 l lb)
    let ?d' = "d\<lparr>fCount := fCount d - 1,
               heap := (heap d)(l \<mapsto>
                 (if fBegin lb < fEnd lb - fElemSize d
                  then lb\<lparr>fEnd := fEnd lb - fElemSize d\<rparr>
                  else lb\<lparr>fBegin := 0, fEnd := 0\<rparr>))\<rparr>"
    from pop_back_live [OF here(2-5), of dbg] c here(6)
    have op: "pop_back dbg d = Inr ?d'" by simp
    from reach_in_range.pop_back [OF r c ni op] have r': "reach_in_range dbg ?d' (butlast xs)" .
    from here(4) have "dom (heap ?d') = dom (heap d)" by auto
    with reach_numBlocks(1) [OF reach_in_range_reach [OF r']] N(1)
    have "numBlocksAllocated ?d' = numBlocksAllocated d" by simp
    with here(2-6) op r' show ?thesis by auto
  next
    case (before bs0 n l lb nb)
    let ?d' = "d\<lparr>fCount := fCount d - 1, fBack := n, freed := l # freed d,
               heap := ((heap d)(l := None))(n \<mapsto>
                 (if fBegin nb < fEnd nb - fElemSize d
                  then nb\<lparr>fNext := 0, fEnd := fEnd nb - fElemSize d\<rparr>
                  else nb\<lparr>fNext := 0, fBegin := 0, fEnd := 0\<rparr>))\<rparr>"
    from pop_back_advance [OF before(2-9), of dbg] c before(11)
    have op: "pop_back dbg d = Inr ?d'" by simp
    from reach_in_range.pop_back [OF r c ni op] have r': "reach_in_range dbg ?d' (butlast xs)" .
    from before(4,8,9) have dm: "dom (heap ?d') = dom (heap d) - {l}" by auto
    from before(4) have "l \<in> dom (heap d)" by auto
    with N(2) have "int (card (dom (heap d) - {l})) = int (card (dom (heap d))) - 1"
      by (rule card_less_one)
    with reach_numBlocks(1) [OF reach_in_range_reach [OF r']] dm
    have "numBlocksAllocated ?d' = Some (Inr (int (card (dom (heap d))) - 1))" by simp
    with before(2-11) op r' N(1) show ?thesis by auto
  qed
qed

section \<open>The code in the arithmetic of the machine agrees within the ranges\<close>

lemma ptr_id: "0 \<le> x \<Longrightarrow> x < 2 ^ 64 \<Longrightarrow> ptr x = x"
  by (simp add: ptr_def)

lemma c_int_id: "- (2 ^ 31) \<le> x \<Longrightarrow> x < 2 ^ 31 \<Longrightarrow> c_int x = x"
  by (simp add: c_int_def)

lemmas op_m_defs = push_back_m_def push_back_INIT_CHUNK_m_def push_front_m_def
  push_front_INIT_CHUNK_m_def pop_front_m_def pop_back_m_def allocateBlock_m_def init_at_m_def
  init_m_def start_m_def freeBlock_m_def freeBlock_def store_def Let_def

text \<open>What the invariants give for a Block of the store and for a new one.\<close>

lemma block_in_range:
  assumes bo: "blocks_ok d" and ir: "in_range d" and h: "heap d a = Some b"
    and e: "0 < fElemSize d"
  shows "0 < a" "start a + fElemSize d \<le> fStop b" "fStop b + fElemSize d < 2 ^ 64"
    "fElemSize d \<le> start a"
    "fBegin b \<noteq> 0 \<Longrightarrow> start a \<le> fBegin b \<and> fBegin b < fEnd b \<and> fEnd b \<le> fStop b"
    "fEnd b \<noteq> 0 \<Longrightarrow> start a \<le> fBegin b \<and> fBegin b < fEnd b \<and> fEnd b \<le> fStop b"
  using blocks_okD [OF bo h] in_rangeD(3) [OF ir h] e
  by (auto simp: block_ok_def extent_in_range_def)

lemma new_in_range:
  assumes sf: "sizes_fit d" and a: "0 < a" and ar: "alloc_in_range d a"
  shows "start a + fElemSize d \<le> a + block_bytes (fAllocCount d) (fElemSize d)"
    "a + block_bytes (fAllocCount d) (fElemSize d) + fElemSize d < 2 ^ 64"
    "fElemSize d \<le> start a"
  using new_block_room [OF sf, of a] ar by (simp_all add: alloc_in_range_def extent_in_range_def)

lemma count_up:
  assumes "in_range d" "fCount d < INT_MAX"
  shows "c_int (fCount d + 1) = fCount d + 1"
  using in_rangeD(1) [OF assms(1)] assms(2) by (intro c_int_id) (simp_all add: INT_MAX_def)

lemma count_down:
  assumes "in_range d"
  shows "c_int (fCount d - 1) = fCount d - 1"
  using in_rangeD(1,2) [OF assms] by (intro c_int_id) (simp_all add: INT_MAX_def)

subsection \<open>push_back\<close>

lemma push_back_m_agrees:
  assumes inv: "deque_inv d bs xs" and ir: "in_range d" and a: "alloc_ok d a"
    and ar: "alloc_in_range d a" and c: "fCount d < INT_MAX"
  shows "push_back_m a d = push_back a d"
proof -
  note I = deque_invD [OF inv]
  from a have a0: "a \<noteq> 0" "heap d a = None" "0 < a" by (auto simp: alloc_ok_def)
  note N = new_in_range [OF I(2) a0(3) ar]
  note cnt = count_up [OF ir c]
  from I(4) a0(1,2) show ?thesis
  proof (cases rule: push_back_chain_cases)
    case first
    from first(1) I(4) have "fBack d = 0" by (simp add: chain_inv_NilD)
    with a0 N I(3) cnt have "push_back_m a d = Inr (start a, d\<lparr>fCount := fCount d + 1, fFront := a, fBack := a,
         heap := (heap d)(a \<mapsto> \<lparr>fNext = 0, fPrev = 0, fBegin = start a,
                  fEnd = start a + fElemSize d,
                  fStop = a + block_bytes (fAllocCount d) (fElemSize d)\<rparr>)\<rparr>)"
      by (simp add: op_m_defs ptr_id start_def sizeof_Block_def)
    with first(2) show ?thesis by simp
  next
    case (init bs0 l lb)
    from chain_inv_lastD [OF I(4) [unfolded init(1)]] have l: "fBack d = l" "l \<noteq> 0" by auto
    note B = block_in_range [OF I(5) ir init(2) I(3)]
    from l init(2,3) B I(3) cnt have "push_back_m a d = Inr (start l, d\<lparr>fCount := fCount d + 1,
         heap := (heap d)(l \<mapsto> lb\<lparr>fBegin := start l, fEnd := start l + fElemSize d\<rparr>)\<rparr>)"
      by (simp add: op_m_defs ptr_id start_def sizeof_Block_def)
    with init(4) show ?thesis by simp
  next
    case (room bs0 l lb)
    from chain_inv_lastD [OF I(4) [unfolded room(1)]] have l: "fBack d = l" "l \<noteq> 0" by auto
    note B = block_in_range [OF I(5) ir room(2) I(3)]
    from B(5) [OF room(3)] B(1-4) have p: "ptr (fEnd lb + fElemSize d) = fEnd lb + fElemSize d"
      "ptr (fEnd lb) = fEnd lb"
      using room(4) I(3) by (simp_all add: ptr_id start_def sizeof_Block_def)
    from l room(2,3,4) cnt have "push_back_m a d = Inr (fEnd lb, d\<lparr>fCount := fCount d + 1,
         heap := (heap d)(l \<mapsto> lb\<lparr>fEnd := fEnd lb + fElemSize d\<rparr>)\<rparr>)"
      by (simp add: op_m_defs p)
    with room(5) show ?thesis by simp
  next
    case (grow bs0 l lb)
    from chain_inv_lastD [OF I(4) [unfolded grow(1)]] have l: "fBack d = l" "l \<noteq> 0" by auto
    from grow(2) a0(2) have al: "a \<noteq> l" "l \<noteq> a" by auto
    note B = block_in_range [OF I(5) ir grow(2) I(3)]
    from B(5) [OF grow(3)] B(1-4) have p: "ptr (fEnd lb + fElemSize d) = fEnd lb + fElemSize d"
      using I(3) by (simp_all add: ptr_id start_def sizeof_Block_def)
    from l grow(2,3,4) cnt a0 al N I(3)
    have "push_back_m a d = Inr (start a, d\<lparr>fCount := fCount d + 1, fBack := a,
         heap := (heap d)(l \<mapsto> lb\<lparr>fNext := a\<rparr>,
                  a \<mapsto> \<lparr>fNext = 0, fPrev = l, fBegin = start a,
                  fEnd = start a + fElemSize d,
                  fStop = a + block_bytes (fAllocCount d) (fElemSize d)\<rparr>)\<rparr>)"
      by (simp add: op_m_defs p ptr_id start_def sizeof_Block_def fun_upd_twist)
    with grow(5) show ?thesis by simp
  qed
qed

subsection \<open>push_front\<close>

lemma push_front_m_agrees:
  assumes inv: "deque_inv d bs xs" and ir: "in_range d" and a: "alloc_ok d a"
    and ar: "alloc_in_range d a" and c: "fCount d < INT_MAX"
  shows "push_front_m a d = push_front a d"
proof -
  note I = deque_invD [OF inv]
  from a have a0: "a \<noteq> 0" "heap d a = None" "0 < a" by (auto simp: alloc_ok_def)
  note N = new_in_range [OF I(2) a0(3) ar]
  from N I(3) a0(3) have np: "ptr (a + block_bytes (fAllocCount d) (fElemSize d)) =
      a + block_bytes (fAllocCount d) (fElemSize d)"
    "ptr (a + block_bytes (fAllocCount d) (fElemSize d) - fElemSize d) =
      a + block_bytes (fAllocCount d) (fElemSize d) - fElemSize d"
    by (simp_all add: ptr_id start_def sizeof_Block_def)
  note cnt = count_up [OF ir c]
  from I(4) a0(1,2) show ?thesis
  proof (cases rule: push_front_chain_cases)
    case first
    from first(1) I(4) have "fFront d = 0" by (simp add: chain_inv_NilD)
    with a0 cnt have "push_front_m a d =
      Inr (a + block_bytes (fAllocCount d) (fElemSize d) - fElemSize d,
         d\<lparr>fCount := fCount d + 1, fFront := a, fBack := a,
         heap := (heap d)(a \<mapsto> \<lparr>fNext = 0, fPrev = 0,
                  fBegin = a + block_bytes (fAllocCount d) (fElemSize d) - fElemSize d,
                  fEnd = a + block_bytes (fAllocCount d) (fElemSize d),
                  fStop = a + block_bytes (fAllocCount d) (fElemSize d)\<rparr>)\<rparr>)"
      by (simp add: op_m_defs np)
    with first(2) show ?thesis by simp
  next
    case (init f rest fb)
    from chain_inv_hdD [OF I(4) [unfolded init(1)]] have f: "fFront d = f" "f \<noteq> 0" by auto
    note B = block_in_range [OF I(5) ir init(2) I(3)]
    from B I(3) have p: "ptr (fStop fb - fElemSize d) = fStop fb - fElemSize d"
      by (simp add: ptr_id start_def sizeof_Block_def)
    from f init(2,3) cnt have "push_front_m a d =
      Inr (fStop fb - fElemSize d, d\<lparr>fCount := fCount d + 1,
         heap := (heap d)(f \<mapsto> fb\<lparr>fEnd := fStop fb, fBegin := fStop fb - fElemSize d\<rparr>)\<rparr>)"
      by (simp add: op_m_defs p)
    with init(4) show ?thesis by simp
  next
    case (room f rest fb)
    from chain_inv_hdD [OF I(4) [unfolded room(1)]] have f: "fFront d = f" "f \<noteq> 0" by auto
    note B = block_in_range [OF I(5) ir room(2) I(3)]
    from B(5) [OF room(3)] B(1-4) I(3)
    have p: "ptr (fBegin fb - fElemSize d) = fBegin fb - fElemSize d" "start_m f = start f"
      by (simp_all add: ptr_id start_m_def start_def sizeof_Block_def)
    from f room(2,3,4) cnt have "push_front_m a d =
      Inr (fBegin fb - fElemSize d, d\<lparr>fCount := fCount d + 1,
         heap := (heap d)(f \<mapsto> fb\<lparr>fBegin := fBegin fb - fElemSize d\<rparr>)\<rparr>)"
      by (simp add: push_front_m_def store_def Let_def p)
    with room(5) show ?thesis by simp
  next
    case (grow f rest fb)
    from chain_inv_hdD [OF I(4) [unfolded grow(1)]] have f: "fFront d = f" "f \<noteq> 0" by auto
    from grow(2) a0(2) have af: "a \<noteq> f" "f \<noteq> a" by auto
    note B = block_in_range [OF I(5) ir grow(2) I(3)]
    from B(5) [OF grow(3)] B(1-4) I(3)
    have p: "ptr (fBegin fb - fElemSize d) = fBegin fb - fElemSize d" "start_m f = start f"
      by (simp_all add: ptr_id start_m_def start_def sizeof_Block_def)
    from f grow(2,3,4) cnt a0 af
    have "push_front_m a d =
      Inr (a + block_bytes (fAllocCount d) (fElemSize d) - fElemSize d,
         d\<lparr>fCount := fCount d + 1, fFront := a,
         heap := (heap d)(f \<mapsto> fb\<lparr>fPrev := a\<rparr>,
                  a \<mapsto> \<lparr>fNext = f, fPrev = 0,
                  fBegin = a + block_bytes (fAllocCount d) (fElemSize d) - fElemSize d,
                  fEnd = a + block_bytes (fAllocCount d) (fElemSize d),
                  fStop = a + block_bytes (fAllocCount d) (fElemSize d)\<rparr>)\<rparr>)"
      by (simp add: push_front_m_def push_front_INIT_CHUNK_m_def allocateBlock_m_def
          init_at_m_def init_m_def store_def Let_def p np fun_upd_twist)
    with grow(5) show ?thesis by simp
  qed
qed

subsection \<open>pop_front and pop_back\<close>

lemma pop_front_m_agrees:
  assumes inv: "deque_inv d bs xs" and ir: "in_range d" and c: "0 < fCount d"
    and ni: "\<not> frees_inline_front d"
  shows "pop_front_m dbg d = pop_front dbg d"
proof -
  note I = deque_invD [OF inv]
  from c I(9) have ne: "xs \<noteq> []" by auto
  note cnt = count_down [OF ir]
  from inv ne show ?thesis
  proof (cases rule: front_live)
    case (here f rest fb)
    note B = block_in_range [OF I(5) ir here(4) I(3)]
    from B(5) [OF here(5)] B(1-4) I(3)
    have p: "ptr (fBegin fb + fElemSize d) = fBegin fb + fElemSize d"
      by (simp add: ptr_id start_def sizeof_Block_def)
    from here(2-6) c cnt
    have "pop_front_m dbg d = Inr (d\<lparr>fCount := fCount d - 1,
          heap := (heap d)(f \<mapsto>
            (if fBegin fb + fElemSize d < fEnd fb
             then fb\<lparr>fBegin := fBegin fb + fElemSize d\<rparr>
             else fb\<lparr>fBegin := 0, fEnd := 0\<rparr>))\<rparr>)"
      by (simp add: pop_front_m_def store_def Let_def p)
    with pop_front_live [OF here(2-5), of dbg] c here(6) show ?thesis by simp
  next
    case (after f n rest fb nb)
    note B = block_in_range [OF I(5) ir after(9) I(3)]
    from B(5) [OF after(10)] B(1-4) I(3)
    have p: "ptr (fBegin nb + fElemSize d) = fBegin nb + fElemSize d"
      by (simp add: ptr_id start_def sizeof_Block_def)
    from ni after(2-5) have nf: "f \<noteq> fInitialStorage d" by (auto simp: frees_inline_front_def)
    from after(2-11) c cnt nf
    have "pop_front_m dbg d = Inr (d\<lparr>fCount := fCount d - 1, fFront := n, freed := f # freed d,
          heap := ((heap d)(f := None))(n \<mapsto>
            (if fBegin nb + fElemSize d < fEnd nb
             then nb\<lparr>fPrev := 0, fBegin := fBegin nb + fElemSize d\<rparr>
             else nb\<lparr>fPrev := 0, fBegin := 0, fEnd := 0\<rparr>))\<rparr>)"
      by (simp add: pop_front_m_def freeBlock_m_def freeBlock_def store_def Let_def p fun_upd_twist)
    with pop_front_advance [OF after(2-9), of dbg] c after(11) show ?thesis by simp
  qed
qed

lemma pop_front_m_inline:
  assumes inv: "deque_inv d bs xs" and c: "0 < fCount d" and fi: "frees_inline_front d"
  shows "pop_front_m dbg d = Inl BadFree"
proof -
  note I = deque_invD [OF inv]
  from c I(9) have ne: "xs \<noteq> []" by auto
  from inv ne show ?thesis
  proof (cases rule: front_live)
    case (here f rest fb)
    with fi show ?thesis by (simp add: frees_inline_front_def)
  next
    case (after f n rest fb nb)
    from fi after(2) have "f = fInitialStorage d" by (simp add: frees_inline_front_def)
    with after(2-9) c show ?thesis
      by (simp add: pop_front_m_def freeBlock_m_def store_def Let_def)
  qed
qed

lemma pop_back_m_agrees:
  assumes inv: "deque_inv d bs xs" and ir: "in_range d" and c: "0 < fCount d"
    and ni: "\<not> frees_inline_back d"
  shows "pop_back_m dbg d = pop_back dbg d"
proof -
  note I = deque_invD [OF inv]
  from c I(9) have ne: "xs \<noteq> []" by auto
  note cnt = count_down [OF ir]
  from inv ne show ?thesis
  proof (cases rule: back_live)
    case (here bs0 l lb)
    note B = block_in_range [OF I(5) ir here(4) I(3)]
    from B(6) [OF here(5)] B(1-4) I(3)
    have p: "ptr (fEnd lb - fElemSize d) = fEnd lb - fElemSize d"
      by (simp add: ptr_id start_def sizeof_Block_def)
    from here(2-6) c cnt
    have "pop_back_m dbg d = Inr (d\<lparr>fCount := fCount d - 1,
          heap := (heap d)(l \<mapsto>
            (if fBegin lb < fEnd lb - fElemSize d
             then lb\<lparr>fEnd := fEnd lb - fElemSize d\<rparr>
             else lb\<lparr>fBegin := 0, fEnd := 0\<rparr>))\<rparr>)"
      by (simp add: pop_back_m_def store_def Let_def p)
    with pop_back_live [OF here(2-5), of dbg] c here(6) show ?thesis by simp
  next
    case (before bs0 n l lb nb)
    note B = block_in_range [OF I(5) ir before(9) I(3)]
    from B(6) [OF before(10)] B(1-4) I(3)
    have p: "ptr (fEnd nb - fElemSize d) = fEnd nb - fElemSize d"
      by (simp add: ptr_id start_def sizeof_Block_def)
    from ni before(2-5) have nf: "l \<noteq> fInitialStorage d" by (auto simp: frees_inline_back_def)
    from before(2-11) c cnt nf
    have "pop_back_m dbg d = Inr (d\<lparr>fCount := fCount d - 1, fBack := n, freed := l # freed d,
          heap := ((heap d)(l := None))(n \<mapsto>
            (if fBegin nb < fEnd nb - fElemSize d
             then nb\<lparr>fNext := 0, fEnd := fEnd nb - fElemSize d\<rparr>
             else nb\<lparr>fNext := 0, fBegin := 0, fEnd := 0\<rparr>))\<rparr>)"
      by (simp add: pop_back_m_def freeBlock_m_def freeBlock_def store_def Let_def p fun_upd_twist)
    with pop_back_advance [OF before(2-9), of dbg] c before(11) show ?thesis by simp
  qed
qed

lemma pop_back_m_inline:
  assumes inv: "deque_inv d bs xs" and c: "0 < fCount d" and fi: "frees_inline_back d"
  shows "pop_back_m dbg d = Inl BadFree"
proof -
  note I = deque_invD [OF inv]
  from c I(9) have ne: "xs \<noteq> []" by auto
  from inv ne show ?thesis
  proof (cases rule: back_live)
    case (here bs0 l lb)
    with fi show ?thesis by (simp add: frees_inline_back_def)
  next
    case (before bs0 n l lb nb)
    from fi before(2) have "l = fInitialStorage d" by (simp add: frees_inline_back_def)
    with before(2-9) c show ?thesis
      by (simp add: pop_back_m_def freeBlock_m_def store_def Let_def)
  qed
qed

subsection \<open>back and numBlocksAllocated\<close>

lemma SkDeque_back_m_agrees:
  assumes inv: "deque_inv d bs xs" and ir: "in_range d" and ne: "xs \<noteq> []"
  shows "SkDeque_back_m dbg d = SkDeque_back dbg d"
proof -
  note I = deque_invD [OF inv]
  from inv ne show ?thesis
  proof (cases rule: back_live)
    case (here bs0 l lb)
    note B = block_in_range [OF I(5) ir here(4) I(3)]
    from B(6) [OF here(5)] B(1-4) I(3)
    have p: "ptr (fEnd lb - fElemSize d) = fEnd lb - fElemSize d"
      by (simp add: ptr_id start_def sizeof_Block_def)
    from here(2-5) show ?thesis by (simp add: SkDeque_back_m_def SkDeque_back_def Let_def p)
  next
    case (before bs0 n l lb nb)
    note B = block_in_range [OF I(5) ir before(9) I(3)]
    from B(6) [OF before(10)] B(1-4) I(3)
    have p: "ptr (fEnd nb - fElemSize d) = fEnd nb - fElemSize d"
      by (simp add: ptr_id start_def sizeof_Block_def)
    from before(2-10) show ?thesis by (simp add: SkDeque_back_m_def SkDeque_back_def Let_def p)
  qed
qed

lemma numBlocks_loop_m_chain:
  "dlseg h p bs 0 \<Longrightarrow> 0 \<notin> set bs \<Longrightarrow> 0 \<le> k \<Longrightarrow> k + int (length bs) \<le> INT_MAX \<Longrightarrow>
   numBlocks_loop_m h (hd0 bs) k = Some (Inr (k + int (length bs)))"
proof (induction bs arbitrary: p k)
  case Nil
  show ?case by (simp add: numBlocks_loop_m.simps)
next
  case (Cons a bs)
  from Cons.prems obtain b where b: "h a = Some b" "fNext b = hd0 bs" "dlseg h a bs 0" "a \<noteq> 0"
    by (auto simp: hd0_def split: option.splits list.splits)
  from Cons.prems(3,4) have k: "c_int (k + 1) = k + 1"
    by (intro c_int_id) (simp_all add: INT_MAX_def)
  from Cons.prems have "numBlocks_loop_m h (hd0 bs) (k + 1) = Some (Inr (k + 1 + int (length bs)))"
    by (intro Cons.IH [OF b(3)]) simp_all
  with Cons.prems(2) b k show ?case
    by (subst numBlocks_loop_m.simps) simp
qed

lemma numBlocksAllocated_m_agrees:
  assumes ci: "chain_inv d bs" and n: "int (card (dom (heap d))) \<le> INT_MAX"
  shows "numBlocksAllocated_m d = numBlocksAllocated d"
proof -
  from chain_inv_card [OF ci] n have "0 + int (length bs) \<le> INT_MAX" by simp
  with ci numBlocks_loop_m_chain [of "heap d" 0 bs 0]
  have "numBlocksAllocated_m d = Some (Inr (int (length bs)))"
    by (simp add: chain_inv_def numBlocksAllocated_m_def)
  with numBlocksAllocated_chain [OF ci] show ?thesis by simp
qed

subsection \<open>The runs\<close>

lemma SkDeque_storage_m_fields:
  "SkDeque_storage_m dbg e storage storageSize n = Inr d \<Longrightarrow>
   fElemSize d = e \<and> fAllocCount d = n"
  by (auto simp: SkDeque_storage_m_def SkASSERT_eq_Inr init_at_m_def store_def bindE_eq_Inr
      Let_def split: if_splits)

lemma SkDeque_storage_m_agrees:
  assumes s: "0 \<le> storage" and x: "extent_in_range e storage (storage + storageSize)"
    and e: "0 \<le> e"
  shows "SkDeque_storage_m dbg e storage storageSize n = SkDeque_storage dbg e storage storageSize n"
proof (cases "storageSize \<ge> size_t (sizeof_Block + e)")
  case True
  have "0 \<le> size_t (sizeof_Block + e)" by (simp add: size_t_def)
  with True s x e have "ptr (storage + storageSize) = storage + storageSize"
    by (intro ptr_id) (simp_all add: extent_in_range_def)
  with True show ?thesis
    by (simp add: SkDeque_storage_m_def SkDeque_storage_def init_at_m_def init_at_def init_m_def
        init_def Let_def)
next
  case False
  then show ?thesis by (simp add: SkDeque_storage_m_def SkDeque_storage_def)
qed

lemma valid_config_nonneg: "valid_config d \<Longrightarrow> 0 \<le> fElemSize d"
  by (simp add: valid_config_def)

lemma reach_m_in_range:
  "reach_m dbg d xs \<Longrightarrow> reach_in_range dbg d xs \<and> valid_config d"
proof (induction rule: reach_m.induct)
  case (new elemSize allocCount d)
  then show ?case by (auto intro: reach_in_range.new)
next
  case (storage storage elemSize storageSize allocCount d)
  from SkDeque_storage_m_fields [OF storage.hyps(3)] valid_config_nonneg [OF storage.hyps(4)]
  have "0 \<le> elemSize" by simp
  from SkDeque_storage_m_agrees [OF storage.hyps(1,2) this, of dbg allocCount] storage.hyps(3)
  have "SkDeque_storage dbg elemSize storage storageSize allocCount = Inr d" by simp
  from reach_in_range.storage [OF storage.hyps(1,2) this] storage.hyps(4) show ?case by simp
next
  case (push_front d xs a p d')
  then have r: "reach_in_range dbg d xs" and vc: "valid_config d" by simp_all
  from reach_inv [OF reach_in_range_reach [OF r] vc] obtain bs where inv: "deque_inv d bs xs" ..
  from push_front_m_agrees [OF inv reach_in_range_in_range [OF r] push_front.hyps(2-4)]
    push_front.hyps(5)
  have op: "push_front a d = Inr (p, d')" by simp
  from push_front.hyps(2) have a0: "a \<noteq> 0" "heap d a = None" by (auto simp: alloc_ok_def)
  from push_front_fields [OF deque_invD(4) [OF inv] a0 op] vc have "valid_config d'"
    by (simp add: valid_config_def sizes_fit_def)
  with reach_in_range.push_front [OF r push_front.hyps(2-4) op] show ?case by simp
next
  case (push_back d xs a p d')
  then have r: "reach_in_range dbg d xs" and vc: "valid_config d" by simp_all
  from reach_inv [OF reach_in_range_reach [OF r] vc] obtain bs where inv: "deque_inv d bs xs" ..
  from push_back_m_agrees [OF inv reach_in_range_in_range [OF r] push_back.hyps(2-4)]
    push_back.hyps(5)
  have op: "push_back a d = Inr (p, d')" by simp
  from push_back.hyps(2) have a0: "a \<noteq> 0" "heap d a = None" by (auto simp: alloc_ok_def)
  from push_back_fields [OF deque_invD(4) [OF inv] a0 op] vc have "valid_config d'"
    by (simp add: valid_config_def sizes_fit_def)
  with reach_in_range.push_back [OF r push_back.hyps(2-4) op] show ?case by simp
next
  case (pop_front d xs d')
  then have r: "reach_in_range dbg d xs" and vc: "valid_config d" by simp_all
  from reach_inv [OF reach_in_range_reach [OF r] vc] obtain bs where inv: "deque_inv d bs xs" ..
  from pop_front_m_inline [OF inv pop_front.hyps(2), of dbg] pop_front.hyps(3)
  have ni: "\<not> frees_inline_front d" by auto
  from pop_front_m_agrees [OF inv reach_in_range_in_range [OF r] pop_front.hyps(2) ni, of dbg]
    pop_front.hyps(3)
  have op: "pop_front dbg d = Inr d'" by simp
  from pop_front_fields [OF deque_invD(4) [OF inv] op] vc have "valid_config d'"
    by (simp add: valid_config_def sizes_fit_def)
  with reach_in_range.pop_front [OF r pop_front.hyps(2) ni op] show ?case by simp
next
  case (pop_back d xs d')
  then have r: "reach_in_range dbg d xs" and vc: "valid_config d" by simp_all
  from reach_inv [OF reach_in_range_reach [OF r] vc] obtain bs where inv: "deque_inv d bs xs" ..
  from pop_back_m_inline [OF inv pop_back.hyps(2), of dbg] pop_back.hyps(3)
  have ni: "\<not> frees_inline_back d" by auto
  from pop_back_m_agrees [OF inv reach_in_range_in_range [OF r] pop_back.hyps(2) ni, of dbg]
    pop_back.hyps(3)
  have op: "pop_back dbg d = Inr d'" by simp
  from pop_back_fields [OF deque_invD(4) [OF inv] op] vc have "valid_config d'"
    by (simp add: valid_config_def sizes_fit_def)
  with reach_in_range.pop_back [OF r pop_back.hyps(2) ni op] show ?case by simp
qed

lemma in_range_reach_m:
  "reach_in_range dbg d xs \<Longrightarrow> valid_config d \<Longrightarrow> reach_m dbg d xs"
proof (induction rule: reach_in_range.induct)
  case (new elemSize allocCount d)
  then show ?case by (auto intro: reach_m.new)
next
  case (storage storage elemSize storageSize allocCount d)
  from SkDeque_storage_fields [OF storage.hyps(3)] valid_config_nonneg [OF storage.prems]
  have "0 \<le> elemSize" by simp
  from SkDeque_storage_m_agrees [OF storage.hyps(1,2) this, of dbg allocCount] storage.hyps(3)
  have "SkDeque_storage_m dbg elemSize storage storageSize allocCount = Inr d" by simp
  from reach_m.storage [OF storage.hyps(1,2) this storage.prems] show ?case .
next
  case (push_front d xs a p d')
  note r = push_front.hyps(1)
  from reach_chain [OF reach_in_range_reach [OF r]] obtain bs0 where ci: "chain_inv d bs0" ..
  from push_front.hyps(2) have a0: "a \<noteq> 0" "heap d a = None" by (auto simp: alloc_ok_def)
  from push_front_fields [OF ci a0 push_front.hyps(5)] push_front.prems
  have vc: "valid_config d" by (simp add: valid_config_def sizes_fit_def)
  from reach_inv [OF reach_in_range_reach [OF r] vc] obtain bs where inv: "deque_inv d bs xs" ..
  from push_front_m_agrees [OF inv reach_in_range_in_range [OF r] push_front.hyps(2-4)]
    push_front.hyps(5)
  have "push_front_m a d = Inr (p, d')" by simp
  from reach_m.push_front [OF push_front.IH [OF vc] push_front.hyps(2-4) this] show ?case .
next
  case (push_back d xs a p d')
  note r = push_back.hyps(1)
  from reach_chain [OF reach_in_range_reach [OF r]] obtain bs0 where ci: "chain_inv d bs0" ..
  from push_back.hyps(2) have a0: "a \<noteq> 0" "heap d a = None" by (auto simp: alloc_ok_def)
  from push_back_fields [OF ci a0 push_back.hyps(5)] push_back.prems
  have vc: "valid_config d" by (simp add: valid_config_def sizes_fit_def)
  from reach_inv [OF reach_in_range_reach [OF r] vc] obtain bs where inv: "deque_inv d bs xs" ..
  from push_back_m_agrees [OF inv reach_in_range_in_range [OF r] push_back.hyps(2-4)]
    push_back.hyps(5)
  have "push_back_m a d = Inr (p, d')" by simp
  from reach_m.push_back [OF push_back.IH [OF vc] push_back.hyps(2-4) this] show ?case .
next
  case (pop_front d xs d')
  note r = pop_front.hyps(1)
  from reach_chain [OF reach_in_range_reach [OF r]] obtain bs0 where ci: "chain_inv d bs0" ..
  from pop_front_fields [OF ci pop_front.hyps(4)] pop_front.prems
  have vc: "valid_config d" by (simp add: valid_config_def sizes_fit_def)
  from reach_inv [OF reach_in_range_reach [OF r] vc] obtain bs where inv: "deque_inv d bs xs" ..
  from pop_front_m_agrees [OF inv reach_in_range_in_range [OF r] pop_front.hyps(2,3), of dbg]
    pop_front.hyps(4)
  have "pop_front_m dbg d = Inr d'" by simp
  from reach_m.pop_front [OF pop_front.IH [OF vc] pop_front.hyps(2) this] show ?case .
next
  case (pop_back d xs d')
  note r = pop_back.hyps(1)
  from reach_chain [OF reach_in_range_reach [OF r]] obtain bs0 where ci: "chain_inv d bs0" ..
  from pop_back_fields [OF ci pop_back.hyps(4)] pop_back.prems
  have vc: "valid_config d" by (simp add: valid_config_def sizes_fit_def)
  from reach_inv [OF reach_in_range_reach [OF r] vc] obtain bs where inv: "deque_inv d bs xs" ..
  from pop_back_m_agrees [OF inv reach_in_range_in_range [OF r] pop_back.hyps(2,3), of dbg]
    pop_back.hyps(4)
  have "pop_back_m dbg d = Inr d'" by simp
  from reach_m.pop_back [OF pop_back.IH [OF vc] pop_back.hyps(2) this] show ?case .
qed

text \<open>What a state of such a run satisfies.\<close>

lemma reach_m_inv:
  assumes "reach_m dbg d xs"
  obtains bs where "deque_inv d bs xs" "in_range d" "reach_in_range dbg d xs" "valid_config d"
proof -
  from reach_m_in_range [OF assms] have r: "reach_in_range dbg d xs" and vc: "valid_config d"
    by simp_all
  from reach_inv [OF reach_in_range_reach [OF r] vc] obtain bs where "deque_inv d bs xs" ..
  from this reach_in_range_in_range [OF r] r vc show ?thesis by (rule that)
qed

lemma three_popped_reach_m: "reach_m dbg three_popped [2040, 3040]"
  by (rule in_range_reach_m [OF three_popped_in_range three_popped_valid])

subsection \<open>The iterator\<close>

lemma Iter_next_m_agrees:
  assumes "fPos it = 0 \<or>
    (0 \<le> fPos it + Iter_fElemSize it \<and> fPos it + Iter_fElemSize it < 2 ^ 64)"
  shows "Iter_next_m dbg h it = Iter_next dbg h it"
proof (cases "fPos it = 0")
  case True
  then show ?thesis by (simp add: Iter_next_m_def Iter_next_def)
next
  case False
  with assms have "ptr (fPos it + Iter_fElemSize it) = fPos it + Iter_fElemSize it"
    by (intro ptr_id) simp_all
  then show ?thesis by (simp add: Iter_next_m_def Iter_next_def Let_def)
qed

lemma Iter_next_size:
  "Iter_next dbg h it = Some (Inr (p, it')) \<Longrightarrow> Iter_fElemSize it' = Iter_fElemSize it"
  by (auto simp: Iter_next_def Let_def bindO_def SkASSERT_def
      split: if_splits option.splits sum.splits)

lemma iter_calls_m_next:
  assumes "iter_calls dbg h (replicate n Next) it = Some (Inr (rs, it'))"
    and "\<forall>p \<in> set rs. p = 0 \<or> (0 \<le> p + e \<and> p + e < 2 ^ 64)"
    and "Iter_fElemSize it = e"
  shows "iter_calls_m dbg h (replicate n Next) it = Some (Inr (rs, it'))"
  using assms
proof (induction n arbitrary: it rs)
  case 0
  then show ?case by simp
next
  case (Suc n)
  from Suc.prems(1) obtain p it1 ps where
    s: "Iter_next dbg h it = Some (Inr (p, it1))"
    and t: "iter_calls dbg h (replicate n Next) it1 = Some (Inr (ps, it'))" and r: "rs = p # ps"
    by (auto simp: bindO_def split: option.splits sum.splits prod.splits)
  from Iter_next_returns [OF s] have p: "p = fPos it" .
  with Suc.prems(2,3) r have "Iter_next_m dbg h it = Iter_next dbg h it"
    by (intro Iter_next_m_agrees) auto
  moreover from Suc.prems(2) r Iter_next_size [OF s] Suc.prems(3)
  have "iter_calls_m dbg h (replicate n Next) it1 = Some (Inr (ps, it'))"
    by (intro Suc.IH [OF t]) simp_all
  ultimately show ?case using s r by simp
qed

lemma iter_calls_m_append:
  assumes "iter_calls_m dbg h cs1 it = Some (Inr (r1, it1))"
    and "iter_calls_m dbg h cs2 it1 = Some (Inr (r2, it2))"
  shows "iter_calls_m dbg h (cs1 @ cs2) it = Some (Inr (r1 @ r2, it2))"
  using assms
proof (induction cs1 arbitrary: it r1)
  case Nil
  then show ?case by simp
next
  case (Cons c cs1)
  from Cons.prems(1) obtain p it' rs where
    s: "(case c of Next \<Rightarrow> Iter_next_m dbg h it | Prev \<Rightarrow> Iter_prev_m dbg h it) =
          Some (Inr (p, it'))"
    and t: "iter_calls_m dbg h cs1 it' = Some (Inr (rs, it1))" and r: "r1 = p # rs"
    by (auto simp: bindO_def split: option.splits sum.splits prod.splits)
  from Cons.IH [OF t Cons.prems(2)] s r show ?case by simp
qed

lemma Iter_prev_m_null: "fPos it = 0 \<Longrightarrow> Iter_prev_m dbg h it = Some (Inr (0, it))"
  by (simp add: Iter_prev_m_def)

lemma Iter_prev_m_inside:
  assumes "fPos it \<noteq> 0" "fCurBlock it \<noteq> 0" "h (fCurBlock it) = Some cb"
    "fBegin cb \<le> fPos it - Iter_fElemSize it" "fBegin cb \<le> fPos it"
    and r: "0 \<le> Iter_fElemSize it" "Iter_fElemSize it \<le> fBegin cb" "fPos it < 2 ^ 64"
  shows "Iter_prev_m dbg h it = Some (Inr (fPos it, it\<lparr>fPos := fPos it - Iter_fElemSize it\<rparr>))"
proof -
  from assms have "ptr (fPos it - Iter_fElemSize it) = fPos it - Iter_fElemSize it"
    "ptr (fBegin cb - Iter_fElemSize it) = fBegin cb - Iter_fElemSize it"
    by (simp_all add: ptr_id)
  with assms(1-5) show ?thesis by (simp add: Iter_prev_m_def Let_def)
qed

lemma Iter_prev_m_first:
  assumes "fPos it \<noteq> 0" "fCurBlock it \<noteq> 0" "h (fCurBlock it) = Some cb"
    "fPos it = fBegin cb" "0 < Iter_fElemSize it" "skip_prev h (fPrev cb) = Some (Inr c')"
    "c' \<noteq> 0 \<Longrightarrow> h c' = Some b'"
    and r: "Iter_fElemSize it \<le> fBegin cb" "fBegin cb < 2 ^ 64"
      "c' \<noteq> 0 \<Longrightarrow> Iter_fElemSize it \<le> fEnd b' \<and> fEnd b' < 2 ^ 64"
  shows "Iter_prev_m dbg h it =
    Some (Inr (fPos it, it\<lparr>fCurBlock := c',
      fPos := (if c' \<noteq> 0 then fEnd b' - Iter_fElemSize it else 0)\<rparr>))"
proof -
  from assms(4,5) r(1,2) have p: "ptr (fPos it - Iter_fElemSize it) = fPos it - Iter_fElemSize it"
    "ptr (fBegin cb - Iter_fElemSize it) = fBegin cb - Iter_fElemSize it"
    by (simp_all add: ptr_id)
  have q: "ptr (fEnd b' - Iter_fElemSize it) = fEnd b' - Iter_fElemSize it" if "c' \<noteq> 0"
    using r(3) [OF that] assms(5) by (simp add: ptr_id)
  from assms(1-7) show ?thesis by (simp add: Iter_prev_m_def Let_def p q)
qed

lemma walk_prev_m:
  assumes c: "h c = Some cb" "c \<noteq> 0" and e: "0 < e" and B: "0 < fBegin cb"
    and sk: "skip_prev h (fPrev cb) = Some (Inr c')" "c' \<noteq> 0 \<Longrightarrow> h c' = Some b'"
    and R: "e \<le> fBegin cb" "c' \<noteq> 0 \<Longrightarrow> e \<le> fEnd b' \<and> fEnd b' < 2 ^ 64"
    and it: "fCurBlock it = c" "fPos it = fBegin cb + int k * e" "Iter_fElemSize it = e"
    and top: "fBegin cb + int k * e < 2 ^ 64"
  shows "iter_calls_m dbg h (replicate (Suc k) Prev) it =
    Some (Inr (rev (map (\<lambda>j. fBegin cb + int j * e) [0..<Suc k]),
      it\<lparr>fCurBlock := c', fPos := (if c' \<noteq> 0 then fEnd b' - e else 0)\<rparr>))"
  using it top
proof (induction k arbitrary: it)
  case 0
  with B have pos: "fPos it \<noteq> 0" "fPos it = fBegin cb" by simp_all
  from 0 R have r: "Iter_fElemSize it \<le> fBegin cb" "fBegin cb < 2 ^ 64"
    "c' \<noteq> 0 \<Longrightarrow> Iter_fElemSize it \<le> fEnd b' \<and> fEnd b' < 2 ^ 64"
    by simp_all
  from Iter_prev_m_first [OF pos(1) _ _ pos(2) _ sk r, where dbg = dbg] c 0 e show ?case by simp
next
  case (Suc k)
  from e have "0 \<le> int (Suc k) * e" by simp
  with B have pos: "fPos it \<noteq> 0" using Suc.prems(2) by linarith
  have pv: "fPos it - Iter_fElemSize it = fBegin cb + int k * e"
    using Suc.prems(2,3) by (simp add: algebra_simps)
  from e have k0: "0 \<le> int k * e" by simp
  with pv have "fBegin cb \<le> fPos it - Iter_fElemSize it" by simp
  moreover from this e Suc.prems(3) have "fBegin cb \<le> fPos it" by simp
  moreover from Suc.prems(2,4) have "fPos it < 2 ^ 64" by simp
  ultimately
  have st: "Iter_prev_m dbg h it =
      Some (Inr (fPos it, it\<lparr>fPos := fPos it - Iter_fElemSize it\<rparr>))"
    using c Suc.prems(1,3) pos e R(1) by (intro Iter_prev_m_inside) simp_all
  let ?it = "it\<lparr>fPos := fPos it - Iter_fElemSize it\<rparr>"
  from Suc.prems(4) e have "fBegin cb + int k * e < 2 ^ 64"
    by (simp add: algebra_simps)
  then have "iter_calls_m dbg h (replicate (Suc k) Prev) ?it =
    Some (Inr (rev (map (\<lambda>j. fBegin cb + int j * e) [0..<Suc k]),
      ?it\<lparr>fCurBlock := c', fPos := (if c' \<noteq> 0 then fEnd b' - e else 0)\<rparr>))"
    by (intro Suc.IH) (use Suc.prems pv in simp_all)
  with st Suc.prems(2) show ?case by simp
qed

lemma iterate_backward_m:
  assumes e: "0 < fElemSize d" and bo: "blocks_ok d" and ir: "in_range d"
    and seg: "dlseg (heap d) 0 cs n" "0 \<notin> set cs"
    and it: "at_back (heap d) cs it" "Iter_fElemSize it = fElemSize d"
  shows "\<exists>it'. iter_calls_m dbg (heap d) (replicate (length (chain_slots d cs) + 1) Prev) it =
      Some (Inr (rev (chain_slots d cs) @ [0], it')) \<and> fPos it' = 0"
  using seg it
proof (induction cs arbitrary: n it rule: rev_induct)
  case Nil
  then have "fPos it = 0" by (simp add: at_back_def)
  then show ?case by (simp add: Iter_prev_m_null)
next
  case (snoc c cs)
  from snoc.prems(1,2) obtain cb where b: "heap d c = Some cb" "fPrev cb = last0 cs"
      "dlseg (heap d) 0 cs c" "c \<noteq> 0" "0 \<notin> set cs"
    by (auto simp: dlseg_snoc last0_def)
  from blocks_okD [OF bo b(1)] have ok: "block_ok (fElemSize d) c cb" .
  note Bc = block_in_range [OF bo ir b(1) e]
  have eq: "fBegin x = 0 \<longleftrightarrow> fEnd x = 0" if "heap d a = Some x" for a x
    using blocks_okD [OF bo that] by (simp add: block_ok_def)
  show ?case
  proof (cases "fBegin cb = 0")
    case True
    with b(1) snoc.prems(3) have "at_back (heap d) cs it"
      by (simp add: at_back_def marked_empty_Some)
    from snoc.IH [OF b(3,5) this snoc.prems(4)] True b(1) show ?thesis
      by (simp add: block_slots_def)
  next
    case False
    with b(1) snoc.prems(3,4) have cur: "fCurBlock it = c" "fPos it = fEnd cb - fElemSize d"
      by (simp_all add: at_back_def marked_empty_Some)
    from ok e False obtain m where m: "fEnd cb = fBegin cb + int m * fElemSize d" "0 < m"
        "slots (fElemSize d) cb = map (\<lambda>j. fBegin cb + int j * fElemSize d) [0..<m]"
      by (rule slots_progression)
    from m(2) obtain k where k: "m = Suc k" by (cases m) simp_all
    from cur(2) m(1) k have pos: "fPos it = fBegin cb + int k * fElemSize d"
      by (simp add: algebra_simps)
    from Bc(5) [OF False] Bc(3,4) e have R1: "fElemSize d \<le> fBegin cb"
      and top: "fBegin cb + int k * fElemSize d < 2 ^ 64"
      using pos cur(2) by simp_all
    have sk: "skip_prev (heap d) (fPrev cb) =
        Some (Inr (hd0 (dropWhile (marked_empty (heap d)) (rev cs))))"
      unfolding b(2) by (rule skip_prev_chain [OF b(3,5)]) (rule eq)
    have "\<exists>it1. iter_calls_m dbg (heap d) (replicate (Suc k) Prev) it =
            Some (Inr (rev (map (\<lambda>j. fBegin cb + int j * fElemSize d) [0..<Suc k]), it1)) \<and>
          at_back (heap d) cs it1 \<and> Iter_fElemSize it1 = fElemSize d"
    proof (cases "dropWhile (marked_empty (heap d)) (rev cs)")
      case Nil
      let ?it = "it\<lparr>fCurBlock := 0, fPos := 0\<rparr>"
      from Nil have z: "hd0 (dropWhile (marked_empty (heap d)) (rev cs)) = 0"
        by (simp only: hd0_simps)
      have "iter_calls_m dbg (heap d) (replicate (Suc k) Prev) it =
            Some (Inr (rev (map (\<lambda>j. fBegin cb + int j * fElemSize d) [0..<Suc k]),
              it\<lparr>fCurBlock := 0, fPos := (if (0::int) \<noteq> 0 then fEnd cb - fElemSize d else 0)\<rparr>))"
        by (rule walk_prev_m [OF b(1,4) e block_ok_step(3) [OF ok e False] sk [unfolded z] _ R1 _
              cur(1) pos snoc.prems(4) top, where b' = cb]) simp_all
      then have "iter_calls_m dbg (heap d) (replicate (Suc k) Prev) it =
            Some (Inr (rev (map (\<lambda>j. fBegin cb + int j * fElemSize d) [0..<Suc k]), ?it))"
        by simp
      moreover have "at_back (heap d) cs ?it" by (rule at_back_none [OF Nil]) simp
      ultimately show ?thesis using snoc.prems(4) by (intro exI [of _ ?it]) simp
    next
      case (Cons c' rest)
      then have in_cs: "c' \<in> set (rev cs)" by (metis list.set_intros(1) set_dropWhileD)
      with b(3,5) obtain b' where b': "heap d c' = Some b'" "c' \<noteq> 0"
        by (auto dest: dlseg_dom)
      from Cons have "\<not> marked_empty (heap d) c'"
        by (metis hd_dropWhile list.distinct(1) list.sel(1))
      with b'(1) have nz: "fBegin b' \<noteq> 0" by (simp add: marked_empty_Some)
      note Bb = block_in_range [OF bo ir b'(1) e]
      from Bb(5) [OF nz] Bb(3,4) e have R2: "fElemSize d \<le> fEnd b' \<and> fEnd b' < 2 ^ 64"
        by simp
      let ?it = "it\<lparr>fCurBlock := c', fPos := fEnd b' - fElemSize d\<rparr>"
      from Cons have z: "hd0 (dropWhile (marked_empty (heap d)) (rev cs)) = c'"
        by (simp only: hd0_simps)
      have "iter_calls_m dbg (heap d) (replicate (Suc k) Prev) it =
            Some (Inr (rev (map (\<lambda>j. fBegin cb + int j * fElemSize d) [0..<Suc k]),
              it\<lparr>fCurBlock := c', fPos := (if c' \<noteq> 0 then fEnd b' - fElemSize d else 0)\<rparr>))"
        by (rule walk_prev_m [OF b(1,4) e block_ok_step(3) [OF ok e False] sk [unfolded z] _ R1 _
              cur(1) pos snoc.prems(4) top, where b' = b']) (use b' R2 in simp_all)
      with b'(2) have "iter_calls_m dbg (heap d) (replicate (Suc k) Prev) it =
            Some (Inr (rev (map (\<lambda>j. fBegin cb + int j * fElemSize d) [0..<Suc k]), ?it))"
        by simp
      moreover have "at_back (heap d) cs ?it"
        by (rule at_back_some [OF Cons _ b'(1)]) (simp_all add: snoc.prems(4))
      ultimately show ?thesis using snoc.prems(4) by (intro exI [of _ ?it]) simp
    qed
    then obtain it1 where
      w: "iter_calls_m dbg (heap d) (replicate (Suc k) Prev) it =
            Some (Inr (rev (map (\<lambda>j. fBegin cb + int j * fElemSize d) [0..<Suc k]), it1))"
      and a1: "at_back (heap d) cs it1" "Iter_fElemSize it1 = fElemSize d"
      by blast
    from snoc.IH [OF b(3,5) a1] obtain it' where
      r: "iter_calls_m dbg (heap d) (replicate (length (chain_slots d cs) + 1) Prev) it1 =
            Some (Inr (rev (chain_slots d cs) @ [0], it'))" "fPos it' = 0"
      by blast
    from m(3) b(1) k have sl: "chain_slots d (cs @ [c]) =
        chain_slots d cs @ map (\<lambda>j. fBegin cb + int j * fElemSize d) [0..<Suc k]"
      by (simp add: block_slots_def del: upt_Suc)
    then have "length (chain_slots d (cs @ [c])) + 1 = Suc k + (length (chain_slots d cs) + 1)"
      by simp
    then have "replicate (length (chain_slots d (cs @ [c])) + 1) Prev =
        replicate (Suc k) Prev @ replicate (length (chain_slots d cs) + 1) Prev"
      by (simp only: replicate_add)
    with iter_calls_m_append [OF w r(1)] sl r(2) show ?thesis
      by (intro exI [of _ it']) (simp del: upt_Suc replicate_Suc)
  qed
qed

lemma Iter_reset_m_front:
  "Iter_reset_m d kFront_IterStart it = Iter_reset d kFront_IterStart it"
  by (simp add: Iter_reset_m_def Iter_reset_def)

lemma Iter_reset_m_back:
  assumes ci: "chain_inv d bs" and bo: "blocks_ok d" and ir: "in_range d"
    and e: "0 < fElemSize d"
  shows "\<exists>it0. Iter_reset_m d kBack_IterStart it = Some (Inr it0) \<and>
    at_back (heap d) bs it0 \<and> Iter_fElemSize it0 = fElemSize d"
proof -
  from ci have seg: "dlseg (heap d) 0 bs 0" "0 \<notin> set bs" and f: "fBack d = last0 bs"
    by (simp_all add: chain_inv_def)
  have eq: "fBegin x = 0 \<longleftrightarrow> fEnd x = 0" if "heap d a = Some x" for a x
    using blocks_okD [OF bo that] by (simp add: block_ok_def)
  have sk: "skip_prev (heap d) (fBack d) =
      Some (Inr (hd0 (dropWhile (marked_empty (heap d)) (rev bs))))"
    unfolding f by (rule skip_prev_chain [OF seg]) (rule eq)
  show ?thesis
  proof (cases "dropWhile (marked_empty (heap d)) (rev bs)")
    case Nil
    let ?it = "it\<lparr>Iter_fElemSize := fElemSize d, fCurBlock := 0, fPos := 0\<rparr>"
    from Nil have z: "hd0 (dropWhile (marked_empty (heap d)) (rev bs)) = 0"
      by (simp only: hd0_simps)
    from sk z have "Iter_reset_m d kBack_IterStart it = Some (Inr ?it)"
      by (simp add: Iter_reset_m_def Let_def)
    moreover have "at_back (heap d) bs ?it" by (rule at_back_none [OF Nil]) simp
    ultimately show ?thesis by (intro exI [of _ ?it]) simp
  next
    case (Cons c rest)
    then have "c \<in> set (rev bs)" by (metis list.set_intros(1) set_dropWhileD)
    with seg obtain b where b: "heap d c = Some b" "c \<noteq> 0" by (auto dest: dlseg_dom)
    from Cons have "\<not> marked_empty (heap d) c"
      by (metis hd_dropWhile list.distinct(1) list.sel(1))
    with b(1) have nz: "fBegin b \<noteq> 0" by (simp add: marked_empty_Some)
    note B = block_in_range [OF bo ir b(1) e]
    from B(5) [OF nz] B(3,4) e have p: "ptr (fEnd b - fElemSize d) = fEnd b - fElemSize d"
      by (intro ptr_id) simp_all
    let ?it = "it\<lparr>Iter_fElemSize := fElemSize d, fCurBlock := c,
      fPos := fEnd b - fElemSize d\<rparr>"
    from Cons have z: "hd0 (dropWhile (marked_empty (heap d)) (rev bs)) = c"
      by (simp only: hd0_simps)
    from sk z b have "Iter_reset_m d kBack_IterStart it = Some (Inr ?it)"
      by (simp add: Iter_reset_m_def Let_def p)
    moreover have "at_back (heap d) bs ?it" by (rule at_back_some [OF Cons _ b(1)]) simp_all
    ultimately show ?thesis by (intro exI [of _ ?it]) simp
  qed
qed

lemma Iter_next_m_returns: "Iter_next_m dbg h it = Some (Inr (p, it')) \<Longrightarrow> p = fPos it"
  by (auto simp: Iter_next_m_def Let_def bindO_def SkASSERT_def
      split: if_splits option.splits sum.splits)

lemma Iter_prev_m_returns: "Iter_prev_m dbg h it = Some (Inr (p, it')) \<Longrightarrow> p = fPos it"
  by (auto simp: Iter_prev_m_def Let_def bindO_def SkASSERT_def
      split: if_splits option.splits sum.splits)

section \<open>The claims on the code in the arithmetic of the machine\<close>


lemmas eval_m_defs = op_m_defs block_bytes_def size_t_def sizeof_Block_def ptr_def c_int_def
  SkDeque_new_def alloc_ok_def

lemma zero_one_run_m:
  "run_m dbg [PushBack 1000, PushBack 2000, PopFront]
     (\<lparr>fElemSize = 0, fInitialStorage = 0, fCount = 0, fAllocCount = 1, fFront = 0,
       fBack = 0, heap = Map.empty, freed = []\<rparr>, []) = Inr (zero_one, [1040])"
  by (simp add: eval_m_defs zero_one_def)

subsection \<open>The occupancy of the Blocks\<close>



lemma three_popped_pop_m: "pop_front_m dbg three_popped = Inr three_popped_twice"
  by (simp add: eval_m_defs three_popped_def three_popped_twice_def fun_upd_twist)


subsection \<open>The pops\<close>

text \<open>
  Claim C8, as stated, against the code: with elements of size zero, \<^verbatim>\<open>SkDeque(0, 1)\<close>
  after \<^verbatim>\<open>push_back\<close>, \<^verbatim>\<open>push_back\<close>, \<^verbatim>\<open>pop_front\<close> holds one element
  (\<open>fCount = 1\<close>) in a single Block that is marked empty, and the next \<^verbatim>\<open>pop_front\<close> or
  \<^verbatim>\<open>pop_back\<close> writes through the null neighbour pointer.
\<close>

theorem pop_of_zero_size_elements:
  "SkDeque_new True 0 1 =
     Inr \<lparr>fElemSize = 0, fInitialStorage = 0, fCount = 0, fAllocCount = 1, fFront = 0,
          fBack = 0, heap = Map.empty, freed = []\<rparr> \<and>
   run_m True [PushBack 1000, PushBack 2000, PopFront]
     (\<lparr>fElemSize = 0, fInitialStorage = 0, fCount = 0, fAllocCount = 1, fFront = 0,
       fBack = 0, heap = Map.empty, freed = []\<rparr>, []) = Inr (zero_one, [1040]) \<and>
   reach True zero_one [1040] \<and> 0 < fCount zero_one \<and>
   pop_front_m True zero_one = Inl NullDeref \<and> pop_back_m True zero_one = Inl NullDeref \<and>
   pop_front True zero_one = Inl NullDeref \<and> pop_back True zero_one = Inl NullDeref"
  by (simp add: zero_one_reach zero_one_run_m)
     (simp add: eval_defs eval_m_defs zero_one_def)

text \<open>
  Claim C8, amended: for a deque constructed with an element size of at least 1, with
  \<open>allocCount \<ge> 1\<close> and a Block byte size that fits \<^verbatim>\<open>size_t\<close>, in every state reached with
  \<open>fCount > 0\<close> by a run within the ranges of the machine (the count below \<^verbatim>\<open>INT_MAX\<close>
  before every push; every Block at an address not lower than one element size less the
  header and ending more than one element size below \<open>2 ^ 64\<close>): the end Block exists; when
  it is marked empty its neighbour exists and holds at least one element
  (\<open>fBegin + elemSize \<le> fEnd\<close>), and otherwise it holds at least one element itself; and
  \<^verbatim>\<open>pop_front\<close> and \<^verbatim>\<open>pop_back\<close> return, in the debug build too: no null or dangling pointer
  is followed and no assertion fails; unless the Block the pop releases is the inline
  storage, which the pop hands to \<^verbatim>\<open>sk_free\<close>.
\<close>

theorem pops_are_safe:
  assumes r: "reach_m dbg d xs" and c: "0 < fCount d"
  shows "(if frees_inline_front d then pop_front_m dbg d = Inl BadFree
          else \<exists>d'. pop_front_m dbg d = Inr d') \<and>
    (if frees_inline_back d then pop_back_m dbg d = Inl BadFree
     else \<exists>d'. pop_back_m dbg d = Inr d') \<and>
    (\<exists>fb. fFront d \<noteq> 0 \<and> heap d (fFront d) = Some fb \<and>
       (if fBegin fb = 0
        then \<exists>nb. fNext fb \<noteq> 0 \<and> heap d (fNext fb) = Some nb \<and> fBegin nb \<noteq> 0 \<and>
               fBegin nb + fElemSize d \<le> fEnd nb
        else fBegin fb + fElemSize d \<le> fEnd fb)) \<and>
    (\<exists>lb. fBack d \<noteq> 0 \<and> heap d (fBack d) = Some lb \<and>
       (if fEnd lb = 0
        then \<exists>pb. fPrev lb \<noteq> 0 \<and> heap d (fPrev lb) = Some pb \<and> fEnd pb \<noteq> 0 \<and>
               fBegin pb \<le> fEnd pb - fElemSize d
        else fBegin lb \<le> fEnd lb - fElemSize d))"
proof -
  from r obtain bs where inv: "deque_inv d bs xs" and ir: "in_range d"
    by (rule reach_m_inv)
  from c deque_invD(9) [OF inv] have ne: "xs \<noteq> []" by auto
  have "\<exists>fb. fFront d \<noteq> 0 \<and> heap d (fFront d) = Some fb \<and>
       (if fBegin fb = 0
        then \<exists>nb. fNext fb \<noteq> 0 \<and> heap d (fNext fb) = Some nb \<and> fBegin nb \<noteq> 0 \<and>
               fBegin nb + fElemSize d \<le> fEnd nb
        else fBegin fb + fElemSize d \<le> fEnd fb)"
    using inv ne by (cases rule: front_live) simp_all
  moreover have "\<exists>lb. fBack d \<noteq> 0 \<and> heap d (fBack d) = Some lb \<and>
       (if fEnd lb = 0
        then \<exists>pb. fPrev lb \<noteq> 0 \<and> heap d (fPrev lb) = Some pb \<and> fEnd pb \<noteq> 0 \<and>
               fBegin pb \<le> fEnd pb - fElemSize d
        else fBegin lb \<le> fEnd lb - fElemSize d)"
    using inv ne by (cases rule: back_live) simp_all
  moreover have "if frees_inline_front d then pop_front_m dbg d = Inl BadFree
          else \<exists>d'. pop_front_m dbg d = Inr d'"
    using pop_front_m_inline [OF inv c, of dbg] pop_front_m_agrees [OF inv ir c, of dbg]
      pop_front_progress [OF inv c, of dbg]
    by auto
  moreover have "if frees_inline_back d then pop_back_m dbg d = Inl BadFree
          else \<exists>d'. pop_back_m dbg d = Inr d'"
    using pop_back_m_inline [OF inv c, of dbg] pop_back_m_agrees [OF inv ir c, of dbg]
      pop_back_progress [OF inv c, of dbg]
    by auto
  ultimately show ?thesis by blast
qed

theorem pops_are_safe_witness:
  "reach_m True three_popped [2040, 3040] \<and> 0 < fCount three_popped \<and>
   \<not> frees_inline_front three_popped \<and> \<not> frees_inline_back three_popped \<and>
   pop_front_m True three_popped = Inr three_popped_twice \<and>
   (\<exists>d'. pop_back_m True three_popped = Inr d') \<and>
   heap three_popped (fFront three_popped) =
     Some \<lparr>fNext = 2000, fPrev = 0, fBegin = 0, fEnd = 0, fStop = 1044\<rparr> \<and>
   heap three_popped 2000 =
     Some \<lparr>fNext = 3000, fPrev = 1000, fBegin = 2040, fEnd = 2044, fStop = 2044\<rparr>"
proof -
  have c: "0 < fCount three_popped" by (simp add: three_popped_def)
  have f: "\<not> frees_inline_front three_popped" "\<not> frees_inline_back three_popped"
    by (simp_all add: three_popped_def frees_inline_front_def frees_inline_back_def)
  from pops_are_safe [OF three_popped_reach_m [of True] c] f
  have "\<exists>d'. pop_back_m True three_popped = Inr d'" by simp
  with c f three_popped_reach_m [of True] three_popped_pop_m [of True]
  show ?thesis by (simp add: three_popped_def)
qed

subsection \<open>Lazy release\<close>

lemma numBlocks_m_le:
  assumes r: "reach dbg d xs" and n: "int (card (dom (heap d))) \<le> INT_MAX"
  shows "numBlocksAllocated_m d = numBlocksAllocated d"
proof -
  from reach_chain [OF r] obtain bs where "chain_inv d bs" ..
  from numBlocksAllocated_m_agrees [OF this n] show ?thesis .
qed

lemma reach_m_numBlocks:
  assumes r: "reach_m dbg d xs" and n: "int (card (dom (heap d))) \<le> INT_MAX"
  shows "numBlocksAllocated_m d = Some (Inr (int (card (dom (heap d)))))"
proof -
  from reach_m_in_range [OF r] have rr: "reach dbg d xs" by (simp add: reach_in_range_reach)
  from numBlocks_m_le [OF rr n] reach_numBlocks(1) [OF rr] show ?thesis by simp
qed

lemma pop_front_m_exact:
  assumes r: "reach_m dbg d xs" and c: "0 < fCount d"
    and nb: "int (card (dom (heap d))) \<le> INT_MAX" and ni: "\<not> frees_inline_front d"
  shows "\<exists>f fb d'. fFront d = f \<and> f \<noteq> 0 \<and> heap d f = Some fb \<and> pop_front_m dbg d = Inr d' \<and>
     reach_m dbg d' (tl xs) \<and>
     (if fBegin fb \<noteq> 0
      then fBegin fb + fElemSize d \<le> fEnd fb \<and>
        d' = d\<lparr>fCount := fCount d - 1,
               heap := (heap d)(f \<mapsto>
                 (if fBegin fb + fElemSize d < fEnd fb
                  then fb\<lparr>fBegin := fBegin fb + fElemSize d\<rparr>
                  else fb\<lparr>fBegin := 0, fEnd := 0\<rparr>))\<rparr> \<and>
        numBlocksAllocated_m d' = numBlocksAllocated_m d
      else \<exists>n nb. fNext fb = n \<and> n \<noteq> 0 \<and> n \<noteq> f \<and> heap d n = Some nb \<and> fBegin nb \<noteq> 0 \<and>
        fBegin nb + fElemSize d \<le> fEnd nb \<and>
        d' = d\<lparr>fCount := fCount d - 1, fFront := n, freed := f # freed d,
               heap := ((heap d)(f := None))(n \<mapsto>
                 (if fBegin nb + fElemSize d < fEnd nb
                  then nb\<lparr>fPrev := 0, fBegin := fBegin nb + fElemSize d\<rparr>
                  else nb\<lparr>fPrev := 0, fBegin := 0, fEnd := 0\<rparr>))\<rparr> \<and>
        numBlocksAllocated_m d = Some (Inr (int (card (dom (heap d))))) \<and>
        numBlocksAllocated_m d' = Some (Inr (int (card (dom (heap d))) - 1)))"
proof -
  from r obtain bs where inv: "deque_inv d bs xs" and ir: "in_range d"
    by (rule reach_m_inv)
  from c deque_invD(9) [OF inv] have ne: "xs \<noteq> []" by auto
  note ag = pop_front_m_agrees [OF inv ir c ni, of dbg]
  note N = reach_m_numBlocks [OF r nb]
  from deque_invD(4) [OF inv] have fin: "finite (dom (heap d))" by (simp add: chain_inv_def)
  from inv ne show ?thesis
  proof (cases rule: front_live)
    case (here f rest fb)
    let ?d' = "d\<lparr>fCount := fCount d - 1,
               heap := (heap d)(f \<mapsto>
                 (if fBegin fb + fElemSize d < fEnd fb
                  then fb\<lparr>fBegin := fBegin fb + fElemSize d\<rparr>
                  else fb\<lparr>fBegin := 0, fEnd := 0\<rparr>))\<rparr>"
    from pop_front_live [OF here(2-5), of dbg] c here(6) ag
    have op: "pop_front_m dbg d = Inr ?d'" by simp
    from reach_m.pop_front [OF r c op] have r': "reach_m dbg ?d' (tl xs)" .
    from here(4) have dm: "dom (heap ?d') = dom (heap d)" by auto
    with nb have "int (card (dom (heap ?d'))) \<le> INT_MAX" by simp
    from reach_m_numBlocks [OF r' this] N dm
    have "numBlocksAllocated_m ?d' = numBlocksAllocated_m d" by simp
    with here(2-6) op r' show ?thesis by auto
  next
    case (after f n rest fb nb')
    let ?d' = "d\<lparr>fCount := fCount d - 1, fFront := n, freed := f # freed d,
               heap := ((heap d)(f := None))(n \<mapsto>
                 (if fBegin nb' + fElemSize d < fEnd nb'
                  then nb'\<lparr>fPrev := 0, fBegin := fBegin nb' + fElemSize d\<rparr>
                  else nb'\<lparr>fPrev := 0, fBegin := 0, fEnd := 0\<rparr>))\<rparr>"
    from pop_front_advance [OF after(2-9), of dbg] c after(11) ag
    have op: "pop_front_m dbg d = Inr ?d'" by simp
    from reach_m.pop_front [OF r c op] have r': "reach_m dbg ?d' (tl xs)" .
    from after(4,8,9) have dm: "dom (heap ?d') = dom (heap d) - {f}" by auto
    from after(4) have "f \<in> dom (heap d)" by auto
    with fin have cd: "int (card (dom (heap d) - {f})) = int (card (dom (heap d))) - 1"
      by (rule card_less_one)
    with nb dm have "int (card (dom (heap ?d'))) \<le> INT_MAX" by simp
    from reach_m_numBlocks [OF r' this] dm cd
    have "numBlocksAllocated_m ?d' = Some (Inr (int (card (dom (heap d))) - 1))" by simp
    with after(2-11) op r' N show ?thesis by auto
  qed
qed

lemma pop_back_m_exact:
  assumes r: "reach_m dbg d xs" and c: "0 < fCount d"
    and nb: "int (card (dom (heap d))) \<le> INT_MAX" and ni: "\<not> frees_inline_back d"
  shows "\<exists>l lb d'. fBack d = l \<and> l \<noteq> 0 \<and> heap d l = Some lb \<and> pop_back_m dbg d = Inr d' \<and>
     reach_m dbg d' (butlast xs) \<and>
     (if fEnd lb \<noteq> 0
      then fBegin lb \<le> fEnd lb - fElemSize d \<and>
        d' = d\<lparr>fCount := fCount d - 1,
               heap := (heap d)(l \<mapsto>
                 (if fBegin lb < fEnd lb - fElemSize d
                  then lb\<lparr>fEnd := fEnd lb - fElemSize d\<rparr>
                  else lb\<lparr>fBegin := 0, fEnd := 0\<rparr>))\<rparr> \<and>
        numBlocksAllocated_m d' = numBlocksAllocated_m d
      else \<exists>n nb. fPrev lb = n \<and> n \<noteq> 0 \<and> n \<noteq> l \<and> heap d n = Some nb \<and> fEnd nb \<noteq> 0 \<and>
        fBegin nb \<le> fEnd nb - fElemSize d \<and>
        d' = d\<lparr>fCount := fCount d - 1, fBack := n, freed := l # freed d,
               heap := ((heap d)(l := None))(n \<mapsto>
                 (if fBegin nb < fEnd nb - fElemSize d
                  then nb\<lparr>fNext := 0, fEnd := fEnd nb - fElemSize d\<rparr>
                  else nb\<lparr>fNext := 0, fBegin := 0, fEnd := 0\<rparr>))\<rparr> \<and>
        numBlocksAllocated_m d = Some (Inr (int (card (dom (heap d))))) \<and>
        numBlocksAllocated_m d' = Some (Inr (int (card (dom (heap d))) - 1)))"
proof -
  from r obtain bs where inv: "deque_inv d bs xs" and ir: "in_range d"
    by (rule reach_m_inv)
  from c deque_invD(9) [OF inv] have ne: "xs \<noteq> []" by auto
  note ag = pop_back_m_agrees [OF inv ir c ni, of dbg]
  note N = reach_m_numBlocks [OF r nb]
  from deque_invD(4) [OF inv] have fin: "finite (dom (heap d))" by (simp add: chain_inv_def)
  from inv ne show ?thesis
  proof (cases rule: back_live)
    case (here bs0 l lb)
    let ?d' = "d\<lparr>fCount := fCount d - 1,
               heap := (heap d)(l \<mapsto>
                 (if fBegin lb < fEnd lb - fElemSize d
                  then lb\<lparr>fEnd := fEnd lb - fElemSize d\<rparr>
                  else lb\<lparr>fBegin := 0, fEnd := 0\<rparr>))\<rparr>"
    from pop_back_live [OF here(2-5), of dbg] c here(6) ag
    have op: "pop_back_m dbg d = Inr ?d'" by simp
    from reach_m.pop_back [OF r c op] have r': "reach_m dbg ?d' (butlast xs)" .
    from here(4) have dm: "dom (heap ?d') = dom (heap d)" by auto
    with nb have "int (card (dom (heap ?d'))) \<le> INT_MAX" by simp
    from reach_m_numBlocks [OF r' this] N dm
    have "numBlocksAllocated_m ?d' = numBlocksAllocated_m d" by simp
    with here(2-6) op r' show ?thesis by auto
  next
    case (before bs0 n l lb nb')
    let ?d' = "d\<lparr>fCount := fCount d - 1, fBack := n, freed := l # freed d,
               heap := ((heap d)(l := None))(n \<mapsto>
                 (if fBegin nb' < fEnd nb' - fElemSize d
                  then nb'\<lparr>fNext := 0, fEnd := fEnd nb' - fElemSize d\<rparr>
                  else nb'\<lparr>fNext := 0, fBegin := 0, fEnd := 0\<rparr>))\<rparr>"
    from pop_back_advance [OF before(2-9), of dbg] c before(11) ag
    have op: "pop_back_m dbg d = Inr ?d'" by simp
    from reach_m.pop_back [OF r c op] have r': "reach_m dbg ?d' (butlast xs)" .
    from before(4,8,9) have dm: "dom (heap ?d') = dom (heap d) - {l}" by auto
    from before(4) have "l \<in> dom (heap d)" by auto
    with fin have cd: "int (card (dom (heap d) - {l})) = int (card (dom (heap d))) - 1"
      by (rule card_less_one)
    with nb dm have "int (card (dom (heap ?d'))) \<le> INT_MAX" by simp
    from reach_m_numBlocks [OF r' this] dm cd
    have "numBlocksAllocated_m ?d' = Some (Inr (int (card (dom (heap d))) - 1))" by simp
    with before(2-11) op r' N show ?thesis by auto
  qed
qed

text \<open>
  Claim C5, as stated, against the code: on \<^verbatim>\<open>SkDeque(4, 1)\<close> after three \<^verbatim>\<open>push_back\<close> and
  one \<^verbatim>\<open>pop_front\<close> the first Block is marked empty and the second, at 2000, holds one
  element. The next \<^verbatim>\<open>pop_front\<close> removes that last element of the Block at 2000, and the
  same call frees the first Block: \<^verbatim>\<open>numBlocksAllocated()\<close> falls from 3 to 2.
\<close>

theorem emptying_pop_changes_block_count:
  "reach_m True three_popped [2040, 3040] \<and> 0 < fCount three_popped \<and>
   block_slots three_popped 2000 = [2040] \<and>
   pop_front_m True three_popped = Inr three_popped_twice \<and>
   block_slots three_popped_twice 2000 = [] \<and>
   numBlocksAllocated_m three_popped = Some (Inr 3) \<and>
   numBlocksAllocated_m three_popped_twice = Some (Inr 2)"
  by (simp add: three_popped_reach_m three_popped_pop_m)
     (simp add: three_popped_def three_popped_twice_def block_slots_def slots_def
        numBlocksAllocated_m_def numBlocks_loop_m.simps c_int_def)

text \<open>
  Claim C5, amended: for a deque constructed with an element size of at least 1, with
  \<open>allocCount \<ge> 1\<close> and a Block byte size that fits \<^verbatim>\<open>size_t\<close>, in a state with
  \<open>fCount > 0\<close> and at most \<^verbatim>\<open>INT_MAX\<close> Blocks, reached by a run within the ranges of the
  machine, a pop that does not hand the inline storage to \<^verbatim>\<open>sk_free\<close> returns the following
  state. If the end Block is not marked empty when the pop is called, the pop takes one
  element from it and frees nothing: the Block whose last element it takes stays in the
  store with both sentinels set to null, every other Block and \<^verbatim>\<open>numBlocksAllocated()\<close> are
  unchanged. If the end Block is marked empty when the pop is called, the pop unlinks and
  frees exactly that Block, makes its neighbour the end Block and takes one element from the
  neighbour, which it marks empty in turn, without freeing it, when that was its last
  element; \<^verbatim>\<open>numBlocksAllocated()\<close> falls by one. In both cases the count falls by one. So a
  Block is never freed by the pop that empties it, only by a later pop from the same end
  that finds it marked empty.
\<close>

theorem lazy_release:
  assumes r: "reach_m dbg d xs" and c: "0 < fCount d"
    and nb: "int (card (dom (heap d))) \<le> INT_MAX"
  shows
   "(\<not> frees_inline_front d \<longrightarrow>
     (\<exists>f fb d'. fFront d = f \<and> f \<noteq> 0 \<and> heap d f = Some fb \<and> pop_front_m dbg d = Inr d' \<and>
       reach_m dbg d' (tl xs) \<and>
       (if fBegin fb \<noteq> 0
        then fBegin fb + fElemSize d \<le> fEnd fb \<and>
          d' = d\<lparr>fCount := fCount d - 1,
                 heap := (heap d)(f \<mapsto>
                   (if fBegin fb + fElemSize d < fEnd fb
                    then fb\<lparr>fBegin := fBegin fb + fElemSize d\<rparr>
                    else fb\<lparr>fBegin := 0, fEnd := 0\<rparr>))\<rparr> \<and>
          numBlocksAllocated_m d' = numBlocksAllocated_m d
        else \<exists>n nb. fNext fb = n \<and> n \<noteq> 0 \<and> n \<noteq> f \<and> heap d n = Some nb \<and> fBegin nb \<noteq> 0 \<and>
          fBegin nb + fElemSize d \<le> fEnd nb \<and>
          d' = d\<lparr>fCount := fCount d - 1, fFront := n, freed := f # freed d,
                 heap := ((heap d)(f := None))(n \<mapsto>
                   (if fBegin nb + fElemSize d < fEnd nb
                    then nb\<lparr>fPrev := 0, fBegin := fBegin nb + fElemSize d\<rparr>
                    else nb\<lparr>fPrev := 0, fBegin := 0, fEnd := 0\<rparr>))\<rparr> \<and>
          numBlocksAllocated_m d = Some (Inr (int (card (dom (heap d))))) \<and>
          numBlocksAllocated_m d' = Some (Inr (int (card (dom (heap d))) - 1))))) \<and>
    (\<not> frees_inline_back d \<longrightarrow>
     (\<exists>l lb d'. fBack d = l \<and> l \<noteq> 0 \<and> heap d l = Some lb \<and> pop_back_m dbg d = Inr d' \<and>
       reach_m dbg d' (butlast xs) \<and>
       (if fEnd lb \<noteq> 0
        then fBegin lb \<le> fEnd lb - fElemSize d \<and>
          d' = d\<lparr>fCount := fCount d - 1,
                 heap := (heap d)(l \<mapsto>
                   (if fBegin lb < fEnd lb - fElemSize d
                    then lb\<lparr>fEnd := fEnd lb - fElemSize d\<rparr>
                    else lb\<lparr>fBegin := 0, fEnd := 0\<rparr>))\<rparr> \<and>
          numBlocksAllocated_m d' = numBlocksAllocated_m d
        else \<exists>n nb. fPrev lb = n \<and> n \<noteq> 0 \<and> n \<noteq> l \<and> heap d n = Some nb \<and> fEnd nb \<noteq> 0 \<and>
          fBegin nb \<le> fEnd nb - fElemSize d \<and>
          d' = d\<lparr>fCount := fCount d - 1, fBack := n, freed := l # freed d,
                 heap := ((heap d)(l := None))(n \<mapsto>
                   (if fBegin nb < fEnd nb - fElemSize d
                    then nb\<lparr>fNext := 0, fEnd := fEnd nb - fElemSize d\<rparr>
                    else nb\<lparr>fNext := 0, fBegin := 0, fEnd := 0\<rparr>))\<rparr> \<and>
          numBlocksAllocated_m d = Some (Inr (int (card (dom (heap d))))) \<and>
          numBlocksAllocated_m d' = Some (Inr (int (card (dom (heap d))) - 1)))))"
  using pop_front_m_exact [OF r c nb] pop_back_m_exact [OF r c nb] by blast

theorem lazy_release_witness:
  "reach_m True three_popped [2040, 3040] \<and>
   0 < fCount three_popped \<and> int (card (dom (heap three_popped))) \<le> INT_MAX \<and>
   \<not> frees_inline_front three_popped \<and> \<not> frees_inline_back three_popped \<and>
   heap three_popped 1000 =
     Some \<lparr>fNext = 2000, fPrev = 0, fBegin = 0, fEnd = 0, fStop = 1044\<rparr> \<and>
   heap three_popped 2000 =
     Some \<lparr>fNext = 3000, fPrev = 1000, fBegin = 2040, fEnd = 2044, fStop = 2044\<rparr> \<and>
   pop_front_m True three_popped =
     Inr (three_popped\<lparr>fCount := 1, fFront := 2000, freed := [1000],
       heap := ((heap three_popped)(1000 := None))(2000 \<mapsto>
         \<lparr>fNext = 3000, fPrev = 0, fBegin = 0, fEnd = 0, fStop = 2044\<rparr>)\<rparr>) \<and>
   numBlocksAllocated_m three_popped = Some (Inr 3) \<and>
   numBlocksAllocated_m three_popped_twice = Some (Inr 2) \<and>
   heap three_popped 3000 =
     Some \<lparr>fNext = 0, fPrev = 2000, fBegin = 3040, fEnd = 3044, fStop = 3044\<rparr> \<and>
   pop_back_m True three_popped =
     Inr (three_popped\<lparr>fCount := 1,
       heap := (heap three_popped)(3000 \<mapsto>
         \<lparr>fNext = 0, fPrev = 2000, fBegin = 0, fEnd = 0, fStop = 3044\<rparr>)\<rparr>)"
proof -
  have c: "0 < fCount three_popped" by (simp add: three_popped_def)
  have n: "int (card (dom (heap three_popped))) \<le> INT_MAX"
    by (simp add: three_popped_def INT_MAX_def)
  have f: "\<not> frees_inline_front three_popped" "\<not> frees_inline_back three_popped"
    by (simp_all add: three_popped_def frees_inline_front_def frees_inline_back_def)
  have h: "fFront three_popped = 1000" "fBack three_popped = 3000"
    "heap three_popped 1000 =
       Some \<lparr>fNext = 2000, fPrev = 0, fBegin = 0, fEnd = 0, fStop = 1044\<rparr>"
    "heap three_popped 2000 =
       Some \<lparr>fNext = 3000, fPrev = 1000, fBegin = 2040, fEnd = 2044, fStop = 2044\<rparr>"
    "heap three_popped 3000 =
       Some \<lparr>fNext = 0, fPrev = 2000, fBegin = 3040, fEnd = 3044, fStop = 3044\<rparr>"
    "fElemSize three_popped = 4" "fCount three_popped = 2" "freed three_popped = []"
    by (simp_all add: three_popped_def)
  note L = lazy_release [OF three_popped_reach_m [of True] c n]
  from L f(1) have 1: "pop_front_m True three_popped =
     Inr (three_popped\<lparr>fCount := 1, fFront := 2000, freed := [1000],
       heap := ((heap three_popped)(1000 := None))(2000 \<mapsto>
         \<lparr>fNext = 3000, fPrev = 0, fBegin = 0, fEnd = 0, fStop = 2044\<rparr>)\<rparr>)"
    by (auto simp: h)
  from L f(2) have 2: "pop_back_m True three_popped =
     Inr (three_popped\<lparr>fCount := 1,
       heap := (heap three_popped)(3000 \<mapsto>
         \<lparr>fNext = 0, fPrev = 2000, fBegin = 0, fEnd = 0, fStop = 3044\<rparr>)\<rparr>)"
    by (auto simp: h)
  have 3: "numBlocksAllocated_m three_popped = Some (Inr 3)"
    "numBlocksAllocated_m three_popped_twice = Some (Inr 2)"
    by (simp_all add: three_popped_def three_popped_twice_def numBlocksAllocated_m_def
        numBlocks_loop_m.simps c_int_def)
  from 1 2 3 c n f h(3-5) three_popped_reach_m [of True]
  show ?thesis by simp
qed

subsection \<open>The iterator\<close>

lemma zero_two_run_m:
  "run_m dbg [PushBack 1000, PushBack 2000]
     (\<lparr>fElemSize = 0, fInitialStorage = 0, fCount = 0, fAllocCount = 1, fFront = 0,
       fBack = 0, heap = Map.empty, freed = []\<rparr>, []) = Inr (zero_two, [1040, 1040])"
  by (simp add: eval_m_defs zero_two_def)

lemma iterate_forward_m:
  assumes inv: "deque_inv d bs xs" and ir: "in_range d"
    and it: "at_front (heap d) bs it" "Iter_fElemSize it = fElemSize d"
  shows "\<exists>it'. iter_calls_m dbg (heap d) (replicate (length xs + 1) Next) it =
      Some (Inr (xs @ [0], it')) \<and> fPos it' = 0"
proof -
  note I = deque_invD [OF inv]
  from I(4) have seg: "dlseg (heap d) 0 bs 0" "0 \<notin> set bs" by (simp_all add: chain_inv_def)
  from iterate_forward [OF I(3,5) seg it, of dbg] I(8) obtain it' where
    f: "iter_calls dbg (heap d) (replicate (length xs + 1) Next) it = Some (Inr (xs @ [0], it'))"
      "fPos it' = 0"
    by auto
  have "p = 0 \<or> (0 \<le> p + fElemSize d \<and> p + fElemSize d < 2 ^ 64)" if "p \<in> set (xs @ [0])" for p
  proof (cases "p = 0")
    case False
    with that have "p \<in> set xs" by simp
    with inv obtain c cb where c: "heap d c = Some cb" "start c \<le> p" "p + fElemSize d \<le> fEnd cb"
        "fEnd cb \<le> fStop cb" "0 < c"
      by (rule slot_in_chain)
    note B = block_in_range [OF I(5) ir c(1) I(3)]
    from c(2-5) B(3) I(3) show ?thesis by (simp add: start_def sizeof_Block_def)
  qed simp
  then have "\<forall>p \<in> set (xs @ [0]). p = 0 \<or> (0 \<le> p + fElemSize d \<and> p + fElemSize d < 2 ^ 64)"
    by blast
  from iter_calls_m_next [OF f(1) this it(2)] f(2) show ?thesis by blast
qed

text \<open>
  Claim C3, as stated, against the code: \<^verbatim>\<open>SkDeque(0, 1)\<close> after two \<^verbatim>\<open>push_back\<close> has
  \<open>fCount = 2\<close>, but an iterator reset at the front yields one slot and then the exhausted
  signal.
\<close>

theorem iteration_of_zero_size_elements:
  "SkDeque_new True 0 1 =
     Inr \<lparr>fElemSize = 0, fInitialStorage = 0, fCount = 0, fAllocCount = 1, fFront = 0,
          fBack = 0, heap = Map.empty, freed = []\<rparr> \<and>
   run_m True [PushBack 1000, PushBack 2000]
     (\<lparr>fElemSize = 0, fInitialStorage = 0, fCount = 0, fAllocCount = 1, fFront = 0,
       fBack = 0, heap = Map.empty, freed = []\<rparr>, []) = Inr (zero_two, [1040, 1040]) \<and>
   fCount zero_two = 2 \<and>
   Iter_reset_m zero_two kFront_IterStart Iter_new =
     Some (Inr \<lparr>fCurBlock = 1000, fPos = 1040, Iter_fElemSize = 0\<rparr>) \<and>
   iter_calls_m True (heap zero_two) [Next, Next, Next]
       \<lparr>fCurBlock = 1000, fPos = 1040, Iter_fElemSize = 0\<rparr> =
     Some (Inr ([1040, 0, 0], \<lparr>fCurBlock = 0, fPos = 0, Iter_fElemSize = 0\<rparr>))"
  by (intro conjI zero_two_run_m)
     (simp_all add: zero_two_def SkDeque_new_def Iter_reset_m_def Iter_new_def Iter_next_m_def
        skip_next.simps Let_def ptr_def)

text \<open>
  Claim C3, amended: for a deque constructed with an element size of at least 1, with
  \<open>allocCount \<ge> 1\<close> and a Block byte size that fits \<^verbatim>\<open>size_t\<close>, in every state reached by a
  run within the ranges of the machine (the count below \<^verbatim>\<open>INT_MAX\<close> before every push;
  every Block at an address not lower than one element size less the header and ending
  more than one element size below \<open>2 ^ 64\<close>; every pop returning, so none that hands the
  inline storage to \<^verbatim>\<open>sk_free\<close>), whose contents, front to back, are the slots \<open>xs\<close>:
  \<open>count\<close> is the length of \<open>xs\<close>, at most \<^verbatim>\<open>INT_MAX\<close>, and no slot is null; an iterator reset
  at the front yields, by \<open>count + 1\<close> calls of \<^verbatim>\<open>next()\<close>, exactly \<open>xs\<close> and then null, and is
  exhausted; an iterator reset at the back yields, by \<open>count + 1\<close> calls of \<^verbatim>\<open>prev()\<close>, the
  reverse of \<open>xs\<close> and then null; the Blocks marked empty are skipped, wherever they are.
  Every \<^verbatim>\<open>next()\<close> and \<^verbatim>\<open>prev()\<close> returns the position the iterator had before the call.
\<close>

theorem iteration_yields_contents:
  assumes r: "reach_m dbg d xs"
  shows "int (length xs) = fCount d \<and> fCount d \<le> INT_MAX \<and> 0 \<notin> set xs \<and>
    (\<exists>it0 it1. Iter_reset_m d kFront_IterStart it = Some (Inr it0) \<and>
       iter_calls_m dbg (heap d) (replicate (length xs + 1) Next) it0 =
         Some (Inr (xs @ [0], it1)) \<and> fPos it1 = 0) \<and>
    (\<exists>it0 it1. Iter_reset_m d kBack_IterStart it = Some (Inr it0) \<and>
       iter_calls_m dbg (heap d) (replicate (length xs + 1) Prev) it0 =
         Some (Inr (rev xs @ [0], it1)) \<and> fPos it1 = 0) \<and>
    (\<forall>j p j'. Iter_next_m dbg (heap d) j = Some (Inr (p, j')) \<longrightarrow> p = fPos j) \<and>
    (\<forall>j p j'. Iter_prev_m dbg (heap d) j = Some (Inr (p, j')) \<longrightarrow> p = fPos j)"
proof -
  from r obtain bs where inv: "deque_inv d bs xs" and ir: "in_range d"
    by (rule reach_m_inv)
  note I = deque_invD [OF inv]
  from I(4) have seg: "dlseg (heap d) 0 bs 0" "0 \<notin> set bs" by (simp_all add: chain_inv_def)
  from Iter_reset_front [OF I(4), of it] obtain f0 where
    f0: "Iter_reset_m d kFront_IterStart it = Some (Inr f0)" "at_front (heap d) bs f0"
      "Iter_fElemSize f0 = fElemSize d"
    unfolding Iter_reset_m_front by blast
  from iterate_forward_m [OF inv ir f0(2,3), of dbg] f0(1)
  have "\<exists>it0 it1. Iter_reset_m d kFront_IterStart it = Some (Inr it0) \<and>
       iter_calls_m dbg (heap d) (replicate (length xs + 1) Next) it0 =
         Some (Inr (xs @ [0], it1)) \<and> fPos it1 = 0"
    by auto
  moreover
  from Iter_reset_m_back [OF I(4,5) ir I(3), of it] obtain b0 where
    b0: "Iter_reset_m d kBack_IterStart it = Some (Inr b0)" "at_back (heap d) bs b0"
      "Iter_fElemSize b0 = fElemSize d"
    by blast
  from iterate_backward_m [OF I(3,5) ir seg b0(2,3), of dbg] I(8) b0(1)
  have "\<exists>it0 it1. Iter_reset_m d kBack_IterStart it = Some (Inr it0) \<and>
       iter_calls_m dbg (heap d) (replicate (length xs + 1) Prev) it0 =
         Some (Inr (rev xs @ [0], it1)) \<and> fPos it1 = 0"
    by auto
  ultimately show ?thesis
    using I(9) slots_nonnull [OF inv] Iter_next_m_returns Iter_prev_m_returns
      in_rangeD(2) [OF ir]
    by (simp; blast)
qed

theorem iteration_yields_contents_witness:
  "reach_m True three_popped [2040, 3040] \<and>
   int (length [2040, 3040 :: int]) = fCount three_popped \<and>
   Iter_reset_m three_popped kFront_IterStart Iter_new =
     Some (Inr \<lparr>fCurBlock = 2000, fPos = 2040, Iter_fElemSize = 4\<rparr>) \<and>
   iter_calls_m True (heap three_popped) [Next, Next, Next]
       \<lparr>fCurBlock = 2000, fPos = 2040, Iter_fElemSize = 4\<rparr> =
     Some (Inr ([2040, 3040, 0], \<lparr>fCurBlock = 0, fPos = 0, Iter_fElemSize = 4\<rparr>)) \<and>
   Iter_reset_m three_popped kBack_IterStart Iter_new =
     Some (Inr \<lparr>fCurBlock = 3000, fPos = 3040, Iter_fElemSize = 4\<rparr>) \<and>
   iter_calls_m True (heap three_popped) [Prev, Prev, Prev]
       \<lparr>fCurBlock = 3000, fPos = 3040, Iter_fElemSize = 4\<rparr> =
     Some (Inr ([3040, 2040, 0], \<lparr>fCurBlock = 0, fPos = 0, Iter_fElemSize = 4\<rparr>))"
proof -
  from iteration_yields_contents [OF three_popped_reach_m [of True]]
  have "int (length [2040, 3040 :: int]) = fCount three_popped" by blast
  then show ?thesis
    using three_popped_reach_m [of True]
    by (simp add: three_popped_def Iter_reset_m_def Iter_new_def Iter_next_m_def Iter_prev_m_def
        skip_next.simps skip_prev.simps Let_def ptr_def)
qed

subsection \<open>First in, first out\<close>







end
